(* ===== verification/Prelude.thy ===== *)
theory Prelude
  imports Main "HOL-Library.Word"
begin

text \<open>
  Shared vocabulary of the development: machine integers as the C++ declares them, the
  arithmetic facts on words that the component proofs use through \<open>unat\<close>, and generic
  lemmas on lists and filtering.

  \<^item> \<open>uint64_t\<close> and \<open>size_t\<close> (64-bit target) are \<open>64 word\<close>: \<open>+\<close> and \<open>-\<close> wrap.
  \<^item> \<open>int64_t\<close> is the type \<open>i64\<close> below: a 64-bit pattern ordered by its two's complement
    value.  Signed overflow is undefined behaviour in C++, so \<open>i64_sub\<close> returns an option.
  \<^item> A computation with no defined outcome (a null dereference, a loop that never ends)
    is \<open>None\<close> throughout.
\<close>

section \<open>Hint collections\<close>

named_theorems unat_arith_simps \<open>word arithmetic read through unat\<close>
named_theorems world_simps \<open>reads of the heap after a write\<close>

section \<open>Machine integers\<close>

type_synonym u64 = "64 word"
type_synonym u32 = "32 word"

datatype i64 = I64 (i64_bits: "64 word")

definition i64_val :: "i64 \<Rightarrow> int" where
  "i64_val x = sint (i64_bits x)"

lemma i64_val_inject [simp]: "i64_val x = i64_val y \<longleftrightarrow> x = y"
  by (cases x; cases y) (auto simp: i64_val_def intro: signed_word_eqI)

lemma i64_val_I64 [simp]: "i64_val (I64 w) = sint w"
  by (simp add: i64_val_def)

instantiation i64 :: linorder
begin

definition less_eq_i64 :: "i64 \<Rightarrow> i64 \<Rightarrow> bool" where
  "less_eq_i64 x y \<longleftrightarrow> i64_val x \<le> i64_val y"

definition less_i64 :: "i64 \<Rightarrow> i64 \<Rightarrow> bool" where
  "less_i64 x y \<longleftrightarrow> i64_val x < i64_val y"

instance
  by standard (auto simp: less_eq_i64_def less_i64_def)

end

instantiation i64 :: zero
begin

definition zero_i64 :: i64 where
  "zero_i64 = I64 0"

instance ..

end

lemma i64_val_zero [simp]: "i64_val 0 = 0"
  by (simp add: zero_i64_def)

lemma i64_val_range: "- (2 ^ 63) \<le> i64_val x" "i64_val x < 2 ^ 63"
  using sint_greater_eq [of "i64_bits x"] sint_less [of "i64_bits x"]
  by (simp_all add: i64_val_def)

lemma i64_pos_iff: "(0::i64) < x \<longleftrightarrow> 0 < i64_val x"
  by (simp add: less_i64_def)

text \<open>Signed subtraction: no defined value when the difference does not fit in 64 bits.\<close>

definition i64_sub :: "i64 \<Rightarrow> i64 \<Rightarrow> i64 option" where
  "i64_sub x y =
     (let d = i64_val x - i64_val y
      in if - (2 ^ 63) \<le> d \<and> d < 2 ^ 63 then Some (I64 (i64_bits x - i64_bits y)) else None)"

lemma i64_sub_val: "i64_sub x y = Some d \<Longrightarrow> i64_val d = i64_val x - i64_val y"
  by (auto simp: i64_sub_def Let_def i64_val_def sint_word_ariths signed_take_bit_int_eq_self
      split: if_splits)

lemma i64_sub_defined:
  assumes "0 < i64_val x" and "0 < i64_val y"
  shows "\<exists>d. i64_sub x y = Some d"
  using assms i64_val_range [of x] i64_val_range [of y] by (simp add: i64_sub_def Let_def)

section \<open>Words read as naturals\<close>

lemma unat_min [unat_arith_simps]: "unat (min a b) = min (unat a) (unat b)"
  by (simp add: min_def word_le_nat_alt)

lemma unat_minus_le [unat_arith_simps]: "b \<le> a \<Longrightarrow> unat (a - b) = unat a - unat b"
  by (rule unat_sub)

lemma unat_plus_less:
  "unat (a :: u64) + unat b < 2 ^ 64 \<Longrightarrow> unat (a + b) = unat a + unat b"
  by (simp add: unat_word_ariths)

lemma unat_u64_less: "unat (a :: u64) < 2 ^ 64"
  using unsigned_less [of a] by simp

lemma unat_eq_of_nat: "unat (a :: u64) = n \<Longrightarrow> a = of_nat n"
  by auto

lemma unat_of_nat_u64: "n < 2 ^ 64 \<Longrightarrow> unat (of_nat n :: u64) = n"
  by (simp add: unsigned_of_nat take_bit_nat_eq_self)

lemma word_gt_0_unat: "0 < a \<longleftrightarrow> 0 < unat (a :: u64)"
  by (simp add: word_less_nat_alt)

section \<open>Lists\<close>

lemma takeWhile_all: "(\<And>x. x \<in> set xs \<Longrightarrow> P x) \<Longrightarrow> takeWhile P xs = xs"
  by (simp add: takeWhile_eq_all_conv)

lemma dropWhile_all: "(\<And>x. x \<in> set xs \<Longrightarrow> P x) \<Longrightarrow> dropWhile P xs = []"
  by (simp add: dropWhile_eq_Nil_conv)

lemma takeWhile_none: "(\<And>x. x \<in> set xs \<Longrightarrow> \<not> P x) \<Longrightarrow> takeWhile P xs = []"
  by (cases xs) auto

lemma dropWhile_none: "(\<And>x. x \<in> set xs \<Longrightarrow> \<not> P x) \<Longrightarrow> dropWhile P xs = xs"
  by (cases xs) auto

lemma sum_list_takeWhile_dropWhile:
  "sum_list (map f xs) = sum_list (map f (takeWhile P xs)) + sum_list (map f (dropWhile P xs))"
  for f :: "'a \<Rightarrow> nat"
  by (induction xs) auto

lemma dropWhile_filter:
  "takeWhile P xs = filter P xs \<Longrightarrow> dropWhile P xs = filter (\<lambda>x. \<not> P x) xs"
proof (induction xs)
  case (Cons x xs)
  show ?case
  proof (cases "P x")
    case False
    with Cons.prems have "filter P xs = []" by simp
    then have "filter (\<lambda>x. \<not> P x) xs = xs" by (simp add: filter_empty_conv filter_id_conv)
    with False show ?thesis by simp
  qed (use Cons in simp)
qed simp

lemma sum_list_le_member: "x \<in> set xs \<Longrightarrow> f x \<le> sum_list (map f xs)" for f :: "'a \<Rightarrow> nat"
  by (induction xs) auto

end
