(* ===== verification/Std_Map.thy ===== *)
theory Std_Map
  imports Prelude
begin

text \<open>
  The part of \<^verbatim>\<open>std::map<K, V, Compare>\<close> that the order book uses.  A map is the list of its
  entries in iteration order; \<open>lt\<close> is the comparator, and, as in the standard, two keys are
  the same when neither is before the other.  \<open>comparator\<close> is the contract a comparator
  must meet; under it the operations are the expected ones and keep the entries ordered.
  \<open>price_cut\<close> adds a predicate on keys that holds on an initial segment of the order, which
  is what the \<^verbatim>\<open>crosses\<close> callbacks of the matching loops are.
\<close>

section \<open>Operations\<close>

type_synonym ('k, 'v) smap = "('k \<times> 'v) list"

fun smap_find :: "('k \<Rightarrow> 'k \<Rightarrow> bool) \<Rightarrow> 'k \<Rightarrow> ('k, 'v) smap \<Rightarrow> 'v option" where
  "smap_find lt k [] = None"
| "smap_find lt k ((a, v) # m) =
     (if lt a k then smap_find lt k m else if lt k a then None else Some v)"

fun smap_emplace :: "('k \<Rightarrow> 'k \<Rightarrow> bool) \<Rightarrow> 'k \<Rightarrow> 'v \<Rightarrow> ('k, 'v) smap \<Rightarrow> ('k, 'v) smap" where
  "smap_emplace lt k v [] = [(k, v)]"
| "smap_emplace lt k v ((a, x) # m) =
     (if lt a k then (a, x) # smap_emplace lt k v m
      else if lt k a then (k, v) # (a, x) # m else (a, x) # m)"

text \<open>Writing through an iterator: \<^verbatim>\<open>it->second\<close> of an existing entry.\<close>

fun smap_set :: "('k \<Rightarrow> 'k \<Rightarrow> bool) \<Rightarrow> 'k \<Rightarrow> 'v \<Rightarrow> ('k, 'v) smap \<Rightarrow> ('k, 'v) smap" where
  "smap_set lt k v [] = []"
| "smap_set lt k v ((a, x) # m) =
     (if lt a k then (a, x) # smap_set lt k v m
      else if lt k a then (a, x) # m else (a, v) # m)"

fun smap_erase :: "('k \<Rightarrow> 'k \<Rightarrow> bool) \<Rightarrow> 'k \<Rightarrow> ('k, 'v) smap \<Rightarrow> ('k, 'v) smap" where
  "smap_erase lt k [] = []"
| "smap_erase lt k ((a, x) # m) =
     (if lt a k then (a, x) # smap_erase lt k m
      else if lt k a then (a, x) # m else m)"

section \<open>The comparator contract\<close>

abbreviation ordered :: "('k \<Rightarrow> 'k \<Rightarrow> bool) \<Rightarrow> ('k, 'v) smap \<Rightarrow> bool" where
  "ordered lt m \<equiv> sorted_wrt lt (map fst m)"

locale comparator =
  fixes lt :: "'k \<Rightarrow> 'k \<Rightarrow> bool"
  assumes lt_irrefl: "\<not> lt x x"
    and lt_trans: "lt x y \<Longrightarrow> lt y z \<Longrightarrow> lt x z"
    and lt_total: "x \<noteq> y \<Longrightarrow> lt x y \<or> lt y x"
begin

lemma lt_asym: "lt x y \<Longrightarrow> \<not> lt y x"
  using lt_irrefl lt_trans by blast

lemma same_key: "\<not> lt x y \<Longrightarrow> \<not> lt y x \<Longrightarrow> x = y"
  using lt_total by blast

lemma ordered_distinct: "ordered lt m \<Longrightarrow> distinct (map fst m)"
  by (induction m) (auto simp: lt_irrefl)

lemma find_split_some:
  assumes "ordered lt m" and "smap_find lt k m = Some v"
  shows "\<exists>xs ys. m = xs @ (k, v) # ys \<and> (\<forall>e\<in>set xs. lt (fst e) k) \<and> (\<forall>e\<in>set ys. lt k (fst e))
           \<and> (\<forall>u. smap_set lt k u m = xs @ (k, u) # ys) \<and> smap_erase lt k m = xs @ ys"
  using assms
proof (induction m)
  case Nil
  then show ?case by simp
next
  case (Cons e m)
  obtain a x where e: "e = (a, x)" by (cases e)
  show ?case
  proof (cases "lt a k")
    case True
    with Cons e obtain xs ys where "m = xs @ (k, v) # ys" "\<forall>e\<in>set xs. lt (fst e) k"
      "\<forall>e\<in>set ys. lt k (fst e)" "\<forall>u. smap_set lt k u m = xs @ (k, u) # ys"
      "smap_erase lt k m = xs @ ys"
      by auto
    with True e show ?thesis by (intro exI [of _ "e # xs"] exI [of _ ys]) simp
  next
    case False
    with Cons.prems e have "\<not> lt k a" and "x = v"
      by (auto split: if_splits)
    with False have "k = a" using same_key by blast
    with False \<open>x = v\<close> \<open>\<not> lt k a\<close> Cons.prems(1) e show ?thesis
      by (intro exI [of _ "[]"] exI [of _ m]) auto
  qed
qed

lemma find_split_none:
  assumes "ordered lt m" and "smap_find lt k m = None"
  shows "\<exists>xs ys. m = xs @ ys \<and> (\<forall>e\<in>set xs. lt (fst e) k) \<and> (\<forall>e\<in>set ys. lt k (fst e))
           \<and> (\<forall>v. smap_emplace lt k v m = xs @ (k, v) # ys)"
  using assms
proof (induction m)
  case Nil
  then show ?case by simp
next
  case (Cons e m)
  obtain a x where e: "e = (a, x)" by (cases e)
  show ?case
  proof (cases "lt a k")
    case True
    with Cons e obtain xs ys where "m = xs @ ys" "\<forall>e\<in>set xs. lt (fst e) k"
      "\<forall>e\<in>set ys. lt k (fst e)" "\<forall>v. smap_emplace lt k v m = xs @ (k, v) # ys"
      by auto
    with True e show ?thesis by (intro exI [of _ "e # xs"] exI [of _ ys]) simp
  next
    case False
    with Cons.prems e have "lt k a"
      by (auto split: if_splits)
    with False Cons.prems(1) e show ?thesis
      by (intro exI [of _ "[]"] exI [of _ "e # m"]) (auto intro: lt_trans)
  qed
qed

lemma keys_off: "\<forall>e\<in>set xs. lt (fst e) k \<or> lt k (fst e) \<Longrightarrow> map_of xs k = None"
  by (auto simp: map_of_eq_None_iff lt_irrefl)

lemma find_map_of:
  assumes "ordered lt m"
  shows "smap_find lt k m = map_of m k"
proof (cases "smap_find lt k m")
  case None
  with find_split_none [OF assms] obtain xs ys where "m = xs @ ys"
    "\<forall>e\<in>set xs. lt (fst e) k" "\<forall>e\<in>set ys. lt k (fst e)"
    by blast
  then have "map_of m k = None" by (intro keys_off) auto
  with None show ?thesis by simp
next
  case (Some v)
  with find_split_some [OF assms] obtain xs ys where "m = xs @ (k, v) # ys"
    "\<forall>e\<in>set xs. lt (fst e) k"
    by blast
  with keys_off [of xs k] Some show ?thesis by (simp add: map_add_def)
qed

lemma ordered_append_iff:
  "ordered lt (xs @ ys) \<longleftrightarrow>
     ordered lt xs \<and> ordered lt ys \<and> (\<forall>x\<in>set xs. \<forall>y\<in>set ys. lt (fst x) (fst y))"
  by (auto simp: sorted_wrt_append)

lemma ordered_emplace: "ordered lt m \<Longrightarrow> ordered lt (smap_emplace lt k v m)"
proof -
  assume m: "ordered lt m"
  show ?thesis
  proof (cases "smap_find lt k m")
    case None
    with find_split_none [OF m] obtain xs ys where
      s: "m = xs @ ys" "\<forall>e\<in>set xs. lt (fst e) k" "\<forall>e\<in>set ys. lt k (fst e)"
        "smap_emplace lt k v m = xs @ (k, v) # ys"
      by blast
    with m show ?thesis by (auto simp: sorted_wrt_append)
  next
    case (Some u)
    with m have "smap_emplace lt k v m = m"
      by (induction m) (auto split: if_splits)
    with m show ?thesis by simp
  qed
qed

end

locale price_cut = comparator lt for lt :: "'k \<Rightarrow> 'k \<Rightarrow> bool" +
  fixes cut :: "'k \<Rightarrow> bool"
  assumes cut_down: "lt x y \<Longrightarrow> cut y \<Longrightarrow> cut x"
begin

text \<open>Stopping at the first key outside the cut loses nothing.\<close>

lemma takeWhile_cut: "ordered lt m \<Longrightarrow> takeWhile (\<lambda>e. cut (fst e)) m = filter (\<lambda>e. cut (fst e)) m"
proof (induction m)
  case (Cons e m)
  show ?case
  proof (cases "cut (fst e)")
    case False
    with Cons.prems cut_down have "\<forall>x\<in>set m. \<not> cut (fst x)" by auto
    with False show ?thesis by (simp add: filter_empty_conv)
  qed (use Cons in simp)
qed simp

lemma dropWhile_cut:
  "ordered lt m \<Longrightarrow> dropWhile (\<lambda>e. cut (fst e)) m = filter (\<lambda>e. \<not> cut (fst e)) m"
proof (induction m)
  case (Cons e m)
  show ?case
  proof (cases "cut (fst e)")
    case False
    with Cons.prems cut_down have "\<forall>x\<in>set m. \<not> cut (fst x)" by auto
    with False show ?thesis by (simp add: filter_id_conv)
  qed (use Cons in simp)
qed simp

end

end
