(* ===== verification/Core_Types.thy ===== *)
theory Core_Types
  imports Prelude
begin

text \<open>
  The data model of \<^verbatim>\<open>include/core/Types.hpp\<close>, \<^verbatim>\<open>Order.hpp\<close> and \<^verbatim>\<open>Trade.hpp\<close>.

  Orders are shared objects: the generator, the caller and the price levels hold
  \<^verbatim>\<open>shared_ptr<Order>\<close> to the same object and the book writes through them.  The model keeps
  that sharing: an \<open>OrderRef\<close> is the address of an order, a \<open>world\<close> maps every address to the
  order stored there, and the book holds addresses.  A non-null \<^verbatim>\<open>shared_ptr\<close> always points at
  a live object, so reading the heap is total; the null pointer is \<open>None\<close> of an option.
  The world also carries the clock: the successive readings of \<^verbatim>\<open>high_resolution_clock\<close>
  and how many of them have been taken.
\<close>

section \<open>Scalar types and enumerations\<close>

type_synonym OrderId = u64
type_synonym Symbol = string
type_synonym Price = i64
type_synonym Quantity = u64
type_synonym Timestamp = u64

datatype Side = BUY | SELL

datatype OrderType = LIMIT | MARKET | CANCEL | IOC | FOK

datatype OrderStatus =
  PENDING | ACCEPTED | PARTIALLY_FILLED | FILLED | CANCELLED | REJECTED

section \<open>Orders and trades\<close>

record Order =
  oid :: OrderId
  osymbol :: Symbol
  oside :: Side
  otype :: OrderType
  oprice :: Price
  oquantity :: Quantity
  ofilledQty :: Quantity
  otimestamp :: Timestamp
  ostatus :: OrderStatus

definition Order_new ::
  "OrderId \<Rightarrow> Symbol \<Rightarrow> Side \<Rightarrow> OrderType \<Rightarrow> Price \<Rightarrow> Quantity \<Rightarrow> Timestamp \<Rightarrow> Order" where
  "Order_new i s sd ty p q ts =
     \<lparr>oid = i, osymbol = s, oside = sd, otype = ty, oprice = p,
      oquantity = q, ofilledQty = 0, otimestamp = ts, ostatus = PENDING\<rparr>"

definition remainingQty :: "Order \<Rightarrow> Quantity" where
  "remainingQty o1 = oquantity o1 - ofilledQty o1"

definition isFilled :: "Order \<Rightarrow> bool" where
  "isFilled o1 \<longleftrightarrow> oquantity o1 \<le> ofilledQty o1"

record Trade =
  tsymbol :: Symbol
  tprice :: Price
  tquantity :: Quantity
  makerOrderId :: OrderId
  takerOrderId :: OrderId
  ttimestamp :: Timestamp

section \<open>The shared world\<close>

type_synonym OrderRef = nat

record world =
  heap :: "OrderRef \<Rightarrow> Order"
  clock :: "nat \<Rightarrow> Timestamp"
  ticks :: nat

definition nowNs :: "world \<Rightarrow> Timestamp \<times> world" where
  "nowNs w = (clock w (ticks w), w\<lparr>ticks := Suc (ticks w)\<rparr>)"

definition upd_order :: "OrderRef \<Rightarrow> (Order \<Rightarrow> Order) \<Rightarrow> world \<Rightarrow> world" where
  "upd_order r f w = w\<lparr>heap := (heap w)(r := f (heap w r))\<rparr>"

definition set_status :: "OrderRef \<Rightarrow> OrderStatus \<Rightarrow> world \<Rightarrow> world" where
  "set_status r s = upd_order r (\<lambda>o1. o1\<lparr>ostatus := s\<rparr>)"

definition add_filled :: "OrderRef \<Rightarrow> Quantity \<Rightarrow> world \<Rightarrow> world" where
  "add_filled r q = upd_order r (\<lambda>o1. o1\<lparr>ofilledQty := ofilledQty o1 + q\<rparr>)"

lemma heap_upd_order [world_simps]:
  "heap (upd_order r f w) x = (if x = r then f (heap w r) else heap w x)"
  by (simp add: upd_order_def)

lemma heap_set_status [world_simps]:
  "heap (set_status r s w) x = (if x = r then (heap w r)\<lparr>ostatus := s\<rparr> else heap w x)"
  by (simp add: set_status_def world_simps)

lemma heap_add_filled [world_simps]:
  "heap (add_filled r q w) x =
     (if x = r then (heap w r)\<lparr>ofilledQty := ofilledQty (heap w r) + q\<rparr> else heap w x)"
  by (simp add: add_filled_def world_simps)

lemma set_status_twice [simp]: "set_status r s (set_status r s' w) = set_status r s w"
  by (simp add: set_status_def upd_order_def)

lemma nowNs_simps [world_simps]:
  "heap (snd (nowNs w)) = heap w"
  "clock (snd (nowNs w)) = clock w"
  "ticks (snd (nowNs w)) = Suc (ticks w)"
  "fst (nowNs w) = clock w (ticks w)"
  by (simp_all add: nowNs_def)

lemma clock_upd [world_simps]:
  "clock (upd_order r f w) = clock w" "ticks (upd_order r f w) = ticks w"
  "clock (set_status r s w) = clock w" "ticks (set_status r s w) = ticks w"
  "clock (add_filled r q w) = clock w" "ticks (add_filled r q w) = ticks w"
  by (simp_all add: upd_order_def set_status_def add_filled_def)

section \<open>Order arithmetic\<close>

lemma remaining_status [world_simps]:
  "remainingQty (o1\<lparr>ostatus := s\<rparr>) = remainingQty o1"
  "isFilled (o1\<lparr>ostatus := s\<rparr>) = isFilled o1"
  by (simp_all add: remainingQty_def isFilled_def)

lemma remaining_unat:
  "ofilledQty o1 \<le> oquantity o1 \<Longrightarrow>
     unat (remainingQty o1) = unat (oquantity o1) - unat (ofilledQty o1)"
  by (simp add: remainingQty_def unat_arith_simps)

lemma isFilled_iff_remaining:
  "ofilledQty o1 \<le> oquantity o1 \<Longrightarrow> isFilled o1 \<longleftrightarrow> remainingQty o1 = 0"
  by (auto simp: isFilled_def remainingQty_def)

lemma fill_within:
  assumes "ofilledQty o1 \<le> oquantity o1" and "q \<le> remainingQty o1"
  shows "unat (ofilledQty o1 + q) = unat (ofilledQty o1) + unat q"
    and "ofilledQty o1 + q \<le> oquantity o1"
    and "unat (remainingQty (o1\<lparr>ofilledQty := ofilledQty o1 + q\<rparr>))
           = unat (remainingQty o1) - unat q"
proof -
  have le: "unat (ofilledQty o1) + unat q \<le> unat (oquantity o1)"
    using assms by (simp add: remaining_unat word_le_nat_alt)
  then have "unat (ofilledQty o1) + unat q < 2 ^ 64"
    using unat_u64_less [of "oquantity o1"] by linarith
  then show sum: "unat (ofilledQty o1 + q) = unat (ofilledQty o1) + unat q"
    by (rule unat_plus_less)
  show bound: "ofilledQty o1 + q \<le> oquantity o1"
    using le sum by (simp add: word_le_nat_alt)
  show "unat (remainingQty (o1\<lparr>ofilledQty := ofilledQty o1 + q\<rparr>)) = unat (remainingQty o1) - unat q"
    using assms(1) bound sum by (simp add: remaining_unat)
qed

end
