(* ===== verification/Price_Level.thy ===== *)
theory Price_Level
  imports Core_Types
begin

text \<open>
  \<^verbatim>\<open>include/core/PriceLevel.hpp\<close>: the FIFO queue of the orders resting at one price, with a
  cached total quantity.  The queue holds order references; every operation that reads an
  order takes the heap.  \<open>level_wf\<close> is the class invariant: the queue is not empty, every
  order in it rests at this price and on this side with something left to fill, and the
  cached total is the sum of what is left, without wrap-around.
\<close>

section \<open>The class\<close>

record PriceLevel =
  lprice :: Price
  orders :: "OrderRef list"
  totalQty :: Quantity

definition PriceLevel_new :: "Price \<Rightarrow> PriceLevel" where
  "PriceLevel_new p = \<lparr>lprice = p, orders = [], totalQty = 0\<rparr>"

definition level_addOrder :: "(OrderRef \<Rightarrow> Order) \<Rightarrow> OrderRef \<Rightarrow> PriceLevel \<Rightarrow> PriceLevel" where
  "level_addOrder h r L =
     L\<lparr>totalQty := totalQty L + remainingQty (h r), orders := orders L @ [r]\<rparr>"

text \<open>The scan of \<^verbatim>\<open>removeOrder\<close>: the first order with this id, and the queue without it.\<close>

fun erase_first :: "(OrderRef \<Rightarrow> Order) \<Rightarrow> OrderId \<Rightarrow> OrderRef list \<Rightarrow> (OrderRef \<times> OrderRef list) option" where
  "erase_first h i [] = None"
| "erase_first h i (r # rs) =
     (if oid (h r) = i then Some (r, rs)
      else case erase_first h i rs of None \<Rightarrow> None | Some (x, ys) \<Rightarrow> Some (x, r # ys))"

definition level_removeOrder ::
  "(OrderRef \<Rightarrow> Order) \<Rightarrow> OrderId \<Rightarrow> PriceLevel \<Rightarrow> bool \<times> PriceLevel" where
  "level_removeOrder h i L =
     (case erase_first h i (orders L) of
        None \<Rightarrow> (False, L)
      | Some (r, rs) \<Rightarrow> (True, L\<lparr>totalQty := totalQty L - remainingQty (h r), orders := rs\<rparr>))"

definition level_front :: "PriceLevel \<Rightarrow> OrderRef option" where
  "level_front L = (case orders L of [] \<Rightarrow> None | r # _ \<Rightarrow> Some r)"

definition level_popFront :: "(OrderRef \<Rightarrow> Order) \<Rightarrow> PriceLevel \<Rightarrow> PriceLevel" where
  "level_popFront h L =
     (case orders L of
        [] \<Rightarrow> L
      | r # rs \<Rightarrow> L\<lparr>totalQty := totalQty L - remainingQty (h r), orders := rs\<rparr>)"

definition level_updateTotalQty :: "Quantity \<Rightarrow> PriceLevel \<Rightarrow> PriceLevel" where
  "level_updateTotalQty filled L =
     L\<lparr>totalQty := (if filled \<le> totalQty L then totalQty L - filled else 0)\<rparr>"

definition level_empty :: "PriceLevel \<Rightarrow> bool" where
  "level_empty L \<longleftrightarrow> orders L = []"

definition level_orderCount :: "PriceLevel \<Rightarrow> u64" where
  "level_orderCount L = of_nat (length (orders L))"

section \<open>The class invariant\<close>

definition rest_qty :: "(OrderRef \<Rightarrow> Order) \<Rightarrow> OrderRef list \<Rightarrow> nat" where
  "rest_qty h rs = (\<Sum>r\<leftarrow>rs. unat (remainingQty (h r)))"

lemma rest_qty_simps [simp]:
  "rest_qty h [] = 0"
  "rest_qty h (r # rs) = unat (remainingQty (h r)) + rest_qty h rs"
  "rest_qty h (rs @ rs') = rest_qty h rs + rest_qty h rs'"
  by (simp_all add: rest_qty_def)

definition resting_ok :: "Side \<Rightarrow> Price \<Rightarrow> Order \<Rightarrow> bool" where
  "resting_ok sd p o1 \<longleftrightarrow> oprice o1 = p \<and> oside o1 = sd \<and> ofilledQty o1 < oquantity o1"

definition level_wf :: "Side \<Rightarrow> (OrderRef \<Rightarrow> Order) \<Rightarrow> PriceLevel \<Rightarrow> bool" where
  "level_wf sd h L \<longleftrightarrow>
     orders L \<noteq> [] \<and> (\<forall>r\<in>set (orders L). resting_ok sd (lprice L) (h r))
       \<and> unat (totalQty L) = rest_qty h (orders L)"

lemma resting_remaining_pos: "resting_ok sd p o1 \<Longrightarrow> 0 < unat (remainingQty o1)"
  by (auto simp: resting_ok_def remaining_unat [OF less_imp_le] word_less_nat_alt)

lemma resting_status [world_simps]: "resting_ok sd p (o1\<lparr>ostatus := s\<rparr>) = resting_ok sd p o1"
  by (simp add: resting_ok_def)

lemma rest_qty_cong: "(\<And>r. r \<in> set rs \<Longrightarrow> h' r = h r) \<Longrightarrow> rest_qty h' rs = rest_qty h rs"
  by (induction rs) auto

lemma level_wf_cong:
  assumes "\<And>r. r \<in> set (orders L) \<Longrightarrow> h' r = h r"
  shows "level_wf sd h' L = level_wf sd h L"
  using assms rest_qty_cong [of "orders L" h' h] by (auto simp: level_wf_def)

lemma rest_qty_pos:
  assumes "level_wf sd h L" shows "0 < rest_qty h (orders L)"
  using assms resting_remaining_pos
  by (cases "orders L") (auto simp: level_wf_def)

lemma totalQty_pos: "level_wf sd h L \<Longrightarrow> 0 < totalQty L"
  using rest_qty_pos [of sd h L] by (auto simp: level_wf_def word_gt_0_unat)

section \<open>What the operations do\<close>

lemma erase_first_some:
  "erase_first h i rs = Some (r, rs') \<Longrightarrow>
     oid (h r) = i \<and> (\<exists>xs ys. rs = xs @ r # ys \<and> rs' = xs @ ys \<and> (\<forall>x\<in>set xs. oid (h x) \<noteq> i))"
proof (induction rs arbitrary: rs')
  case (Cons x rs)
  show ?case
  proof (cases "oid (h x) = i")
    case True
    with Cons.prems show ?thesis by (intro conjI exI [of _ "[]"] exI [of _ rs]) auto
  next
    case False
    with Cons.prems obtain ys' where e: "erase_first h i rs = Some (r, ys')" and rs': "rs' = x # ys'"
      by (auto split: option.splits)
    from Cons.IH [OF e] obtain xs ys where
      "oid (h r) = i" "rs = xs @ r # ys" "ys' = xs @ ys" "\<forall>x\<in>set xs. oid (h x) \<noteq> i"
      by blast
    with False rs' show ?thesis by (intro conjI exI [of _ "x # xs"] exI [of _ ys]) auto
  qed
qed simp

lemma erase_first_none: "erase_first h i rs = None \<longleftrightarrow> (\<forall>r\<in>set rs. oid (h r) \<noteq> i)"
  by (induction rs) (auto split: option.splits)

lemma level_addOrder_wf:
  assumes L: "level_wf sd h L \<or> orders L = [] \<and> totalQty L = 0"
    and r: "resting_ok sd (lprice L) (h r)"
    and fits: "rest_qty h (orders L) + unat (remainingQty (h r)) < 2 ^ 64"
  shows "level_wf sd h (level_addOrder h r L)"
proof -
  have "unat (totalQty L) = rest_qty h (orders L)"
    using L by (auto simp: level_wf_def)
  with fits have "unat (totalQty L + remainingQty (h r))
      = rest_qty h (orders L) + unat (remainingQty (h r))"
    by (simp add: unat_plus_less)
  with L r show ?thesis
    by (auto simp: level_wf_def level_addOrder_def)
qed

lemma level_removeOrder_found:
  assumes "level_wf sd h L" and "\<exists>r\<in>set (orders L). oid (h r) = i"
  shows "\<exists>xs r ys. orders L = xs @ r # ys \<and> oid (h r) = i \<and> (\<forall>x\<in>set xs. oid (h x) \<noteq> i)
    \<and> level_removeOrder h i L
        = (True, L\<lparr>totalQty := totalQty L - remainingQty (h r), orders := xs @ ys\<rparr>)
    \<and> unat (totalQty L - remainingQty (h r)) = rest_qty h (xs @ ys)"
proof -
  from assms(2) obtain r rs where e: "erase_first h i (orders L) = Some (r, rs)"
    using erase_first_none [of h i "orders L"] by (cases "erase_first h i (orders L)") auto
  from erase_first_some [OF e] obtain xs ys where
    s: "orders L = xs @ r # ys" "rs = xs @ ys" "oid (h r) = i" "\<forall>x\<in>set xs. oid (h x) \<noteq> i"
    by blast
  have t: "unat (totalQty L) = rest_qty h xs + unat (remainingQty (h r)) + rest_qty h ys"
    using assms(1) s(1) by (simp add: level_wf_def)
  then have "unat (totalQty L - remainingQty (h r)) = rest_qty h (xs @ ys)"
    by (simp add: unat_minus_le word_le_nat_alt)
  with e s show ?thesis
    by (intro exI [of _ xs] exI [of _ r] exI [of _ ys]) (simp add: level_removeOrder_def)
qed

lemma level_removeOrder_missing:
  "\<forall>r\<in>set (orders L). oid (h r) \<noteq> i \<Longrightarrow> level_removeOrder h i L = (False, L)"
  by (simp add: level_removeOrder_def erase_first_none [THEN iffD2])

end
