(* ===== verification/Order_Book.thy ===== *)
theory Order_Book
  imports Std_Map Price_Level "HOL-Library.AList" "HOL-Library.Monad_Syntax"
begin

text \<open>
  \<^verbatim>\<open>include/core/OrderBook.hpp\<close> and \<^verbatim>\<open>src/core/OrderBook.cpp\<close>: the operations of the order
  book, in the order of the source, with nothing proved yet but their unfolding.

  \<^item> A side is a \<^verbatim>\<open>std::map\<close> from prices to levels in the order of its comparator: \<open>side_lt BUY\<close> is
    \<^verbatim>\<open>std::greater\<close> (bids), \<open>side_lt SELL\<close> is \<^verbatim>\<open>std::less\<close> (asks).
  \<^item> \<open>index_\<close> is an \<^verbatim>\<open>unordered_map\<close>: the list of its entries, updated with the operations of
    the library theory AList.  The code never depends on its iteration order.
  \<^item> A \<^verbatim>\<open>std::function<bool(Price)>\<close> is an option, \<open>None\<close> for the \<^verbatim>\<open>nullptr\<close> market orders pass.
  \<^item> The matching loop is a partial function: \<open>None\<close> is a run with no defined outcome, because
    it dereferences the null pointer an empty level's \<^verbatim>\<open>front()\<close> returns, or because it never
    ends (which aliasing between the incoming order and the book can cause).
\<close>

section \<open>State\<close>

record BookLevel =
  blprice :: Price
  blqty :: Quantity
  blcount :: u64

record OrderLocation =
  loc_side :: Side
  loc_price :: Price

type_synonym book_side = "(Price, PriceLevel) smap"
type_synonym book_index = "(OrderId \<times> OrderLocation) list"
type_synonym crosses_fn = "(Price \<Rightarrow> bool) option"

record OrderBook =
  book_symbol :: Symbol
  bids :: book_side
  asks :: book_side
  index :: book_index

fun side_lt :: "Side \<Rightarrow> Price \<Rightarrow> Price \<Rightarrow> bool" where
  "side_lt BUY a b \<longleftrightarrow> b < a"
| "side_lt SELL a b \<longleftrightarrow> a < b"

definition OrderBook_new :: "Symbol \<Rightarrow> OrderBook" where
  "OrderBook_new s = \<lparr>book_symbol = s, bids = [], asks = [], index = []\<rparr>"

section \<open>Cancellation and queries\<close>

definition cancel_on_side ::
  "Side \<Rightarrow> (OrderRef \<Rightarrow> Order) \<Rightarrow> OrderId \<Rightarrow> Price \<Rightarrow> book_side \<Rightarrow> book_side" where
  "cancel_on_side sd h i p s =
     (case smap_find (side_lt sd) p s of
        None \<Rightarrow> s
      | Some L \<Rightarrow>
          let L' = snd (level_removeOrder h i L)
          in if level_empty L' then smap_erase (side_lt sd) p s
             else smap_set (side_lt sd) p L' s)"

definition book_cancelOrder :: "(OrderRef \<Rightarrow> Order) \<Rightarrow> OrderId \<Rightarrow> OrderBook \<Rightarrow> bool \<times> OrderBook" where
  "book_cancelOrder h i b =
     (case map_of (index b) i of
        None \<Rightarrow> (False, b)
      | Some l \<Rightarrow>
          let b' = (if loc_side l = BUY
                    then b\<lparr>bids := cancel_on_side BUY h i (loc_price l) (bids b)\<rparr>
                    else b\<lparr>asks := cancel_on_side SELL h i (loc_price l) (asks b)\<rparr>)
          in (True, b'\<lparr>index := AList.delete i (index b')\<rparr>))"

definition hasOrder :: "OrderId \<Rightarrow> OrderBook \<Rightarrow> bool" where
  "hasOrder i b \<longleftrightarrow> map_of (index b) i \<noteq> None"

definition side_best :: "book_side \<Rightarrow> Price option" where
  "side_best s = (case s of [] \<Rightarrow> None | (p, L) # _ \<Rightarrow> Some p)"

definition bestBid :: "OrderBook \<Rightarrow> Price option" where
  "bestBid b = side_best (bids b)"

definition bestAsk :: "OrderBook \<Rightarrow> Price option" where
  "bestAsk b = side_best (asks b)"

text \<open>The outer option is the overflow of the signed subtraction, the inner one \<^verbatim>\<open>nullopt\<close>.\<close>

definition spread :: "OrderBook \<Rightarrow> Price option option" where
  "spread b =
     (case (bestBid b, bestAsk b) of
        (Some bid, Some ask) \<Rightarrow> map_option Some (i64_sub ask bid)
      | _ \<Rightarrow> Some None)"

fun top_levels :: "u64 \<Rightarrow> BookLevel list \<Rightarrow> book_side \<Rightarrow> BookLevel list" where
  "top_levels n result [] = result"
| "top_levels n result ((p, L) # m) =
     (if unat n \<le> length result then result
      else top_levels n
             (result @ [\<lparr>blprice = p, blqty = totalQty L, blcount = level_orderCount L\<rparr>]) m)"

definition topBids :: "u64 \<Rightarrow> OrderBook \<Rightarrow> BookLevel list" where
  "topBids n b = top_levels n [] (bids b)"

definition topAsks :: "u64 \<Rightarrow> OrderBook \<Rightarrow> BookLevel list" where
  "topAsks n b = top_levels n [] (asks b)"

fun sum_levels :: "Quantity \<Rightarrow> book_side \<Rightarrow> Quantity" where
  "sum_levels tot [] = tot"
| "sum_levels tot ((p, L) # m) = sum_levels (tot + totalQty L) m"

definition totalBidQty :: "OrderBook \<Rightarrow> Quantity" where
  "totalBidQty b = sum_levels 0 (bids b)"

definition totalAskQty :: "OrderBook \<Rightarrow> Quantity" where
  "totalAskQty b = sum_levels 0 (asks b)"

section \<open>Matching\<close>

definition makeTrade :: "Symbol \<Rightarrow> Order \<Rightarrow> Order \<Rightarrow> Quantity \<Rightarrow> world \<Rightarrow> Trade \<times> world" where
  "makeTrade s maker taker q w =
     (let (t, w') = nowNs w
      in (\<lparr>tsymbol = s, tprice = oprice maker, tquantity = q,
           makerOrderId = oid maker, takerOrderId = oid taker, ttimestamp = t\<rparr>, w'))"

text \<open>The variables the loop of \<^verbatim>\<open>drainSide\<close> works on.\<close>

record drain =
  d_side :: book_side
  d_index :: book_index
  d_world :: world
  d_trades :: "Trade list"

definition drain_continues :: "OrderRef \<Rightarrow> crosses_fn \<Rightarrow> drain \<Rightarrow> bool" where
  "drain_continues inc crosses s \<longleftrightarrow>
     0 < remainingQty (heap (d_world s) inc) \<and>
     (case d_side s of
        [] \<Rightarrow> False
      | (p, L) # _ \<Rightarrow> (case crosses of None \<Rightarrow> True | Some f \<Rightarrow> f p))"

definition drain_body :: "Symbol \<Rightarrow> OrderRef \<Rightarrow> drain \<Rightarrow> drain option" where
  "drain_body sy inc s =
     (case d_side s of
        [] \<Rightarrow> None
      | (p, L) # rest \<Rightarrow>
          (case level_front L of
             None \<Rightarrow> None
           | Some maker \<Rightarrow>
               let w0 = d_world s;
                   fillQty = min (remainingQty (heap w0 inc)) (remainingQty (heap w0 maker));
                   (t, w1) = makeTrade sy (heap w0 maker) (heap w0 inc) fillQty w0;
                   w2 = add_filled maker fillQty w1;
                   w3 = add_filled inc fillQty w2;
                   L1 = level_updateTotalQty fillQty L;
                   (w4, ix, L2) =
                     (if isFilled (heap w3 maker)
                      then let w' = set_status maker FILLED w3
                           in (w', AList.delete (oid (heap w' maker)) (d_index s),
                               level_popFront (heap w') L1)
                      else (set_status maker PARTIALLY_FILLED w3, d_index s, L1))
               in Some \<lparr>d_side = (if level_empty L2 then rest else (p, L2) # rest),
                        d_index = ix, d_world = w4, d_trades = d_trades s @ [t]\<rparr>))"

partial_function (option) drainSide ::
  "Symbol \<Rightarrow> OrderRef \<Rightarrow> crosses_fn \<Rightarrow> drain \<Rightarrow> drain option" where
  "drainSide sy inc crosses s =
     (if drain_continues inc crosses s
      then Option.bind (drain_body sy inc s) (drainSide sy inc crosses)
      else Some s)"

definition restOrder :: "Side \<Rightarrow> OrderRef \<Rightarrow> (OrderRef \<Rightarrow> Order) \<Rightarrow> book_side \<Rightarrow> book_side" where
  "restOrder sd inc h s =
     (let p = oprice (h inc)
      in case smap_find (side_lt sd) p s of
           None \<Rightarrow> smap_emplace (side_lt sd) p (level_addOrder h inc (PriceLevel_new p)) s
         | Some L \<Rightarrow> smap_set (side_lt sd) p (level_addOrder h inc L) s)"

definition index_order :: "OrderRef \<Rightarrow> (OrderRef \<Rightarrow> Order) \<Rightarrow> book_index \<Rightarrow> book_index" where
  "index_order inc h ix =
     AList.update (oid (h inc)) \<lparr>loc_side = oside (h inc), loc_price = oprice (h inc)\<rparr> ix"

definition drain_asks ::
  "OrderRef \<Rightarrow> crosses_fn \<Rightarrow> OrderBook \<Rightarrow> world \<Rightarrow> (Trade list \<times> OrderBook \<times> world) option" where
  "drain_asks inc crosses b w = do {
     s \<leftarrow> drainSide (book_symbol b) inc crosses
            \<lparr>d_side = asks b, d_index = index b, d_world = w, d_trades = []\<rparr>;
     Some (d_trades s, b\<lparr>asks := d_side s, index := d_index s\<rparr>, d_world s)
   }"

definition drain_bids ::
  "OrderRef \<Rightarrow> crosses_fn \<Rightarrow> OrderBook \<Rightarrow> world \<Rightarrow> (Trade list \<times> OrderBook \<times> world) option" where
  "drain_bids inc crosses b w = do {
     s \<leftarrow> drainSide (book_symbol b) inc crosses
            \<lparr>d_side = bids b, d_index = index b, d_world = w, d_trades = []\<rparr>;
     Some (d_trades s, b\<lparr>bids := d_side s, index := d_index s\<rparr>, d_world s)
   }"

text \<open>The lambdas \<^verbatim>\<open>crosses\<close> of the limit-like orders: against the asks for a buy, the bids for a sell.\<close>

fun limit_crosses :: "Side \<Rightarrow> Price \<Rightarrow> Price \<Rightarrow> bool" where
  "limit_crosses BUY limit p \<longleftrightarrow> p \<le> limit"
| "limit_crosses SELL limit p \<longleftrightarrow> limit \<le> p"

definition drain_at_limit ::
  "OrderRef \<Rightarrow> OrderBook \<Rightarrow> world \<Rightarrow> (Trade list \<times> OrderBook \<times> world) option" where
  "drain_at_limit inc b w =
     (let o1 = heap w inc
      in if oside o1 = BUY then drain_asks inc (Some (limit_crosses BUY (oprice o1))) b w
         else drain_bids inc (Some (limit_crosses SELL (oprice o1))) b w)"

definition matchLimit ::
  "OrderRef \<Rightarrow> OrderBook \<Rightarrow> world \<Rightarrow> (Trade list \<times> OrderBook \<times> world) option" where
  "matchLimit inc b w = do {
     (trades, b1, w1) \<leftarrow> drain_at_limit inc b w;
     let w2 = set_status inc
                (if ofilledQty (heap w1 inc) = 0 then ACCEPTED
                 else if isFilled (heap w1 inc) then FILLED else PARTIALLY_FILLED) w1;
     let b2 = (if isFilled (heap w2 inc) then b1
               else if oside (heap w2 inc) = BUY
               then b1\<lparr>bids := restOrder BUY inc (heap w2) (bids b1),
                       index := index_order inc (heap w2) (index b1)\<rparr>
               else b1\<lparr>asks := restOrder SELL inc (heap w2) (asks b1),
                       index := index_order inc (heap w2) (index b1)\<rparr>);
     Some (trades, b2, w2)
   }"

definition matchMarket ::
  "OrderRef \<Rightarrow> OrderBook \<Rightarrow> world \<Rightarrow> (Trade list \<times> OrderBook \<times> world) option" where
  "matchMarket inc b w = do {
     (trades, b1, w1) \<leftarrow> (if oside (heap w inc) = BUY then drain_asks inc None b w
                          else drain_bids inc None b w);
     Some (trades, b1,
           set_status inc (if isFilled (heap w1 inc) then FILLED else PARTIALLY_FILLED) w1)
   }"

fun availableFill :: "crosses_fn \<Rightarrow> Quantity \<Rightarrow> Quantity \<Rightarrow> book_side \<Rightarrow> Quantity" where
  "availableFill crosses wanted available [] = available"
| "availableFill crosses wanted available ((p, L) # m) =
     (if (case crosses of None \<Rightarrow> False | Some f \<Rightarrow> \<not> f p) then available
      else let available' = available + totalQty L
           in if wanted \<le> available' then available'
              else availableFill crosses wanted available' m)"

definition matchIoc ::
  "OrderRef \<Rightarrow> OrderBook \<Rightarrow> world \<Rightarrow> (Trade list \<times> OrderBook \<times> world) option" where
  "matchIoc inc b w = do {
     (trades, b1, w1) \<leftarrow> drain_at_limit inc b w;
     Some (trades, b1,
           set_status inc
             (if isFilled (heap w1 inc) then FILLED
              else if 0 < ofilledQty (heap w1 inc) then PARTIALLY_FILLED else CANCELLED) w1)
   }"

definition fok_canFill :: "Order \<Rightarrow> OrderBook \<Rightarrow> bool" where
  "fok_canFill o1 b \<longleftrightarrow>
     (if oside o1 = BUY
      then oquantity o1
             \<le> availableFill (Some (limit_crosses BUY (oprice o1))) (oquantity o1) 0 (asks b)
      else oquantity o1
             \<le> availableFill (Some (limit_crosses SELL (oprice o1))) (oquantity o1) 0 (bids b))"

definition matchFok ::
  "OrderRef \<Rightarrow> OrderBook \<Rightarrow> world \<Rightarrow> (Trade list \<times> OrderBook \<times> world) option" where
  "matchFok inc b w =
     (if \<not> fok_canFill (heap w inc) b then Some ([], b, set_status inc CANCELLED w)
      else do {
        (trades, b1, w1) \<leftarrow> drain_at_limit inc b w;
        Some (trades, b1, set_status inc FILLED w1)
      })"

definition book_addOrder ::
  "OrderRef \<Rightarrow> OrderBook \<Rightarrow> world \<Rightarrow> (Trade list \<times> OrderBook \<times> world) option" where
  "book_addOrder inc b w =
     (let w' = set_status inc ACCEPTED w
      in case otype (heap w' inc) of
           MARKET \<Rightarrow> matchMarket inc b w'
         | IOC \<Rightarrow> matchIoc inc b w'
         | FOK \<Rightarrow> matchFok inc b w'
         | _ \<Rightarrow> matchLimit inc b w')"

section \<open>The debug check\<close>

definition side_orders_open :: "(OrderRef \<Rightarrow> Order) \<Rightarrow> book_side \<Rightarrow> bool" where
  "side_orders_open h s \<longleftrightarrow>
     list_all (\<lambda>(p, L). list_all (\<lambda>r. remainingQty (h r) \<noteq> 0) (orders L)) s"

definition checkInvariants :: "(OrderRef \<Rightarrow> Order) \<Rightarrow> OrderBook \<Rightarrow> bool" where
  "checkInvariants h b \<longleftrightarrow>
     \<not> (case (bestBid b, bestAsk b) of (Some bid, Some ask) \<Rightarrow> ask \<le> bid | _ \<Rightarrow> False) \<and>
     side_orders_open h (bids b) \<and>
     side_orders_open h (asks b) \<and>
     list_all (\<lambda>(i, l). if loc_side l = BUY
                        then smap_find (side_lt BUY) (loc_price l) (bids b) \<noteq> None
                        else smap_find (side_lt SELL) (loc_price l) (asks b) \<noteq> None)
       (index b)"

end
