(* ===== verification/Matching_Spec.thy ===== *)
theory Matching_Spec
  imports Order_Book
begin

text \<open>
  What an order book promises, without levels, caches, indexes, words or a heap.  A side is
  the list of its open orders in priority order, each with its price, its id and the
  quantity still open; an incoming quantity is filled greedily along the part of that list
  whose prices are acceptable; a remainder that may rest is inserted behind every order
  of the same or a better price.  The order book of \<^verbatim>\<open>OrderBook.cpp\<close> is later shown to compute
  exactly this.
\<close>

section \<open>Greedy filling\<close>

type_synonym entry = "(Price \<times> OrderId) \<times> nat"

abbreviation open_qty :: "('k \<times> nat) list \<Rightarrow> nat" where
  "open_qty xs \<equiv> sum_list (map snd xs)"

fun greedy :: "nat \<Rightarrow> ('k \<times> nat) list \<Rightarrow> ('k \<times> nat) list \<times> ('k \<times> nat) list" where
  "greedy q [] = ([], [])"
| "greedy q ((k, n) # xs) =
     (if q = 0 then ([], (k, n) # xs)
      else if n \<le> q then (let (f, r) = greedy (q - n) xs in ((k, n) # f, r))
      else ([(k, q)], (k, n - q) # xs))"

lemma greedy_0 [simp]: "greedy 0 xs = ([], xs)"
  by (cases xs) auto

lemma greedy_total: "open_qty (fst (greedy q xs)) = min q (open_qty xs)"
  by (induction q xs rule: greedy.induct) (auto split: prod.splits)

lemma greedy_conserves: "open_qty (fst (greedy q xs)) + open_qty (snd (greedy q xs)) = open_qty xs"
  by (induction q xs rule: greedy.induct) (auto split: prod.splits)

text \<open>The orders hit are an initial segment of the priority list, all but the last in full.\<close>

lemma greedy_prefix:
  "map fst (fst (greedy q xs)) = take (length (fst (greedy q xs))) (map fst xs)"
  by (induction q xs rule: greedy.induct) (auto split: prod.splits)

lemma greedy_butlast:
  "butlast (fst (greedy q xs)) = take (length (fst (greedy q xs)) - 1) xs"
proof (induction q xs rule: greedy.induct)
  case (2 q k n xs)
  then show ?case
    by (cases "fst (greedy (q - n) xs)") (auto split: prod.splits simp: Let_def)
qed simp

lemma greedy_leftover:
  "\<exists>j. snd (greedy q xs) = drop j xs \<or>
       (\<exists>n. j < length xs \<and> 0 < n \<and> n < snd (xs ! j) \<and>
            snd (greedy q xs) = (fst (xs ! j), n) # drop (Suc j) xs)"
proof (induction q xs rule: greedy.induct)
  case (1 q)
  then show ?case by simp
next
  case (2 q k n xs)
  show ?case
  proof (cases "q \<noteq> 0 \<and> n \<le> q")
    case True
    with 2 obtain j where
      "snd (greedy (q - n) xs) = drop j xs \<or>
       (\<exists>n'. j < length xs \<and> 0 < n' \<and> n' < snd (xs ! j) \<and>
            snd (greedy (q - n) xs) = (fst (xs ! j), n') # drop (Suc j) xs)"
      by auto
    with True show ?thesis
      by (intro exI [of _ "Suc j"]) (auto split: prod.splits)
  next
    case False
    then show ?thesis by (intro exI [of _ 0]) auto
  qed
qed

lemma greedy_fills_pos:
  "\<forall>e\<in>set xs. 0 < snd e \<Longrightarrow> \<forall>e\<in>set (fst (greedy q xs)). 0 < snd e"
  by (induction q xs rule: greedy.induct) (auto split: prod.splits)

section \<open>Matching one side\<close>

definition match_side :: "(Price \<Rightarrow> bool) \<Rightarrow> nat \<Rightarrow> entry list \<Rightarrow> entry list \<times> entry list" where
  "match_side ok q xs =
     (let (f, r) = greedy q (takeWhile (\<lambda>e. ok (fst (fst e))) xs)
      in (f, r @ dropWhile (\<lambda>e. ok (fst (fst e))) xs))"

lemma match_side_stop:
  "q = 0 \<or> xs = [] \<or> \<not> ok (fst (fst (hd xs))) \<Longrightarrow> match_side ok q xs = ([], xs)"
  by (cases xs) (auto simp: match_side_def)

lemma match_side_pop:
  "0 < q \<Longrightarrow> n \<le> q \<Longrightarrow> ok (fst k) \<Longrightarrow>
     match_side ok q ((k, n) # xs) =
       ((k, n) # fst (match_side ok (q - n) xs), snd (match_side ok (q - n) xs))"
  by (auto simp: match_side_def split: prod.splits)

lemma match_side_partial:
  "0 < q \<Longrightarrow> q < n \<Longrightarrow> ok (fst k) \<Longrightarrow>
     match_side ok q ((k, n) # xs) = ([(k, q)], (k, n - q) # xs)"
  by (auto simp: match_side_def)

lemma match_side_total:
  "open_qty (fst (match_side ok q xs)) = min q (open_qty (takeWhile (\<lambda>e. ok (fst (fst e))) xs))"
  by (simp add: match_side_def case_prod_beta Let_def greedy_total)

lemma match_side_conserves:
  "open_qty (fst (match_side ok q xs)) + open_qty (snd (match_side ok q xs)) = open_qty xs"
proof -
  let ?t = "takeWhile (\<lambda>e. ok (fst (fst e))) xs" and ?d = "dropWhile (\<lambda>e. ok (fst (fst e))) xs"
  have "open_qty xs = open_qty ?t + open_qty ?d"
    by (rule sum_list_takeWhile_dropWhile)
  with greedy_conserves [of q ?t] show ?thesis
    by (simp add: match_side_def case_prod_beta Let_def)
qed

lemma match_side_cut:
  "(k, n) \<in> set (fst (match_side ok q xs)) \<Longrightarrow> ok (fst k)"
proof -
  assume a: "(k, n) \<in> set (fst (match_side ok q xs))"
  let ?t = "takeWhile (\<lambda>e. ok (fst (fst e))) xs"
  from a have "k \<in> set (map fst (fst (greedy q ?t)))"
    by (force simp: match_side_def split: prod.splits)
  then have "k \<in> set (map fst ?t)"
    by (subst (asm) greedy_prefix) (rule in_set_takeD)
  then show ?thesis by (auto dest: set_takeWhileD)
qed

text \<open>A quantity that is not used up has taken everything acceptable.\<close>

lemma greedy_exhausts: "open_qty xs < q \<Longrightarrow> greedy q xs = (xs, [])"
  by (induction q xs rule: greedy.induct) (auto split: prod.splits)

lemma match_side_exhausts:
  assumes "open_qty (fst (match_side ok q xs)) < q"
  shows "snd (match_side ok q xs) = dropWhile (\<lambda>e. ok (fst (fst e))) xs"
proof -
  from assms have "open_qty (takeWhile (\<lambda>e. ok (fst (fst e))) xs) < q"
    by (simp add: match_side_total)
  then show ?thesis by (simp add: match_side_def greedy_exhausts)
qed

section \<open>The abstract book\<close>

text \<open>
  What prices an incoming order of a side accepts, and which of two prices of resting orders of
  a side is better.  These say the same as the lambdas and comparators of the code.
\<close>

fun acceptable :: "Side \<Rightarrow> Price \<Rightarrow> Price \<Rightarrow> bool" where
  "acceptable BUY limit p \<longleftrightarrow> p \<le> limit"
| "acceptable SELL limit p \<longleftrightarrow> limit \<le> p"

fun better_price :: "Side \<Rightarrow> Price \<Rightarrow> Price \<Rightarrow> bool" where
  "better_price BUY p x \<longleftrightarrow> x < p"
| "better_price SELL p x \<longleftrightarrow> p < x"

lemma acceptable_code [simp]: "acceptable sd = limit_crosses sd"
  by (cases sd) (auto simp: fun_eq_iff)

lemma better_price_code [simp]: "better_price sd = side_lt sd"
  by (cases sd) (auto simp: fun_eq_iff)

text \<open>Price-time priority: a new order goes behind every order whose price is not worse.\<close>

definition insert_rest :: "(Price \<Rightarrow> Price \<Rightarrow> bool) \<Rightarrow> entry \<Rightarrow> entry list \<Rightarrow> entry list" where
  "insert_rest lt e xs =
     takeWhile (\<lambda>x. \<not> lt (fst (fst e)) (fst (fst x))) xs @ e #
     dropWhile (\<lambda>x. \<not> lt (fst (fst e)) (fst (fst x))) xs"

record abook =
  abids :: "entry list"
  aasks :: "entry list"

definition rest_remainder :: "Side \<Rightarrow> Price \<Rightarrow> OrderId \<Rightarrow> nat \<Rightarrow> entry list \<Rightarrow> entry list" where
  "rest_remainder sd p i n xs =
     (if n = 0 then xs else insert_rest (better_price sd) ((p, i), n) xs)"

text \<open>Executing quantity \<open>q\<close> of an incoming order of side \<open>sd\<close> against the other side.\<close>

definition spec_execute :: "Side \<Rightarrow> (Price \<Rightarrow> bool) \<Rightarrow> nat \<Rightarrow> abook \<Rightarrow> entry list \<times> abook" where
  "spec_execute sd ok q ab =
     (if sd = BUY
      then let (f, r) = match_side ok q (aasks ab) in (f, ab\<lparr>aasks := r\<rparr>)
      else let (f, r) = match_side ok q (abids ab) in (f, ab\<lparr>abids := r\<rparr>))"

definition spec_rest :: "Side \<Rightarrow> Price \<Rightarrow> OrderId \<Rightarrow> nat \<Rightarrow> abook \<Rightarrow> abook" where
  "spec_rest sd p i n ab =
     (if sd = BUY then ab\<lparr>abids := rest_remainder BUY p i n (abids ab)\<rparr>
      else ab\<lparr>aasks := rest_remainder SELL p i n (aasks ab)\<rparr>)"

definition spec_liquidity :: "Side \<Rightarrow> (Price \<Rightarrow> bool) \<Rightarrow> abook \<Rightarrow> nat" where
  "spec_liquidity sd ok ab =
     open_qty (filter (\<lambda>e. ok (fst (fst e))) (if sd = BUY then aasks ab else abids ab))"

fun spec_add :: "Side \<Rightarrow> OrderType \<Rightarrow> Price \<Rightarrow> OrderId \<Rightarrow> nat \<Rightarrow> abook \<Rightarrow> entry list \<times> abook" where
  "spec_add sd MARKET p i q ab = spec_execute sd (\<lambda>_. True) q ab"
| "spec_add sd IOC p i q ab = spec_execute sd (acceptable sd p) q ab"
| "spec_add sd FOK p i q ab =
     (if q \<le> spec_liquidity sd (acceptable sd p) ab
      then spec_execute sd (acceptable sd p) q ab else ([], ab))"
| "spec_add sd _ p i q ab =
     (let (f, ab') = spec_execute sd (acceptable sd p) q ab
      in (f, spec_rest sd p i (q - open_qty f) ab'))"

definition spec_cancel :: "OrderId \<Rightarrow> abook \<Rightarrow> abook" where
  "spec_cancel i ab =
     ab\<lparr>abids := filter (\<lambda>e. snd (fst e) \<noteq> i) (abids ab),
        aasks := filter (\<lambda>e. snd (fst e) \<noteq> i) (aasks ab)\<rparr>"

section \<open>Fills of an addition\<close>

lemma greedy_fills_from: "e \<in> set (fst (greedy q xs)) \<Longrightarrow> fst e \<in> fst ` set xs"
proof -
  assume "e \<in> set (fst (greedy q xs))"
  then have "fst e \<in> set (map fst (fst (greedy q xs)))" by simp
  then have "fst e \<in> set (map fst xs)" by (subst (asm) greedy_prefix) (rule in_set_takeD)
  then show ?thesis by simp
qed

lemma match_side_fills:
  assumes "e \<in> set (fst (match_side ok q xs))"
  shows "fst e \<in> fst ` set xs" and "ok (fst (fst e))"
    and "\<forall>x\<in>set xs. 0 < snd x \<Longrightarrow> 0 < snd e"
proof -
  let ?t = "takeWhile (\<lambda>e. ok (fst (fst e))) xs"
  have e: "e \<in> set (fst (greedy q ?t))" using assms by (simp add: match_side_def case_prod_beta Let_def)
  then have "fst e \<in> fst ` set ?t" by (rule greedy_fills_from)
  then show "fst e \<in> fst ` set xs" by (auto dest: set_takeWhileD)
  show "ok (fst (fst e))" using assms match_side_cut [of "fst e" "snd e"] by simp
  show "0 < snd e" if "\<forall>x\<in>set xs. 0 < snd x"
    using e greedy_fills_pos [of ?t q] that by (auto dest: set_takeWhileD)
qed

definition other_side :: "Side \<Rightarrow> abook \<Rightarrow> entry list" where
  "other_side sd ab = (if sd = BUY then aasks ab else abids ab)"

lemma spec_execute_fills:
  assumes "e \<in> set (fst (spec_execute sd ok q ab))"
  shows "fst e \<in> fst ` set (other_side sd ab)" and "ok (fst (fst e))"
    and "\<forall>x\<in>set (other_side sd ab). 0 < snd x \<Longrightarrow> 0 < snd e"
  using assms match_side_fills [of e ok q "other_side sd ab"]
  by (auto simp: spec_execute_def other_side_def case_prod_beta split: if_splits)

text \<open>The price limit of an order: market orders have none.\<close>

definition price_ok :: "Side \<Rightarrow> OrderType \<Rightarrow> Price \<Rightarrow> Price \<Rightarrow> bool" where
  "price_ok sd ty p x \<longleftrightarrow> ty = MARKET \<or> acceptable sd p x"

lemma spec_add_fills:
  assumes "e \<in> set (fst (spec_add sd ty p i q ab))"
  shows "fst e \<in> fst ` set (other_side sd ab)" and "price_ok sd ty p (fst (fst e))"
    and "\<forall>x\<in>set (other_side sd ab). 0 < snd x \<Longrightarrow> 0 < snd e"
  using assms spec_execute_fills [of e sd "limit_crosses sd p" q ab]
    spec_execute_fills [of e sd "\<lambda>_. True" q ab]
  by (cases ty; auto simp: price_ok_def Let_def case_prod_beta split: if_splits)+

section \<open>Priority and conservation of an addition\<close>

lemma take_takeWhile: "n \<le> length (takeWhile P xs) \<Longrightarrow> take n (takeWhile P xs) = take n xs"
  by (metis append_eq_append_conv_if takeWhile_dropWhile_id take_append take_all diff_is_0_eq' take0 append_Nil2)

lemma greedy_length: "length (fst (greedy q xs)) \<le> length xs"
  by (induction q xs rule: greedy.induct) (auto split: prod.splits)

lemma match_side_priority:
  "map fst (fst (match_side ok q xs)) = take (length (fst (match_side ok q xs))) (map fst xs)"
  "butlast (fst (match_side ok q xs)) = take (length (fst (match_side ok q xs)) - 1) xs"
proof -
  let ?t = "takeWhile (\<lambda>e. ok (fst (fst e))) xs"
  have f: "fst (match_side ok q xs) = fst (greedy q ?t)" by (simp add: match_side_def case_prod_beta Let_def)
  have n: "length (fst (greedy q ?t)) \<le> length ?t" by (rule greedy_length)
  then show "map fst (fst (match_side ok q xs)) = take (length (fst (match_side ok q xs))) (map fst xs)"
    unfolding f greedy_prefix by (simp add: take_map take_takeWhile)
  from n have "length (fst (greedy q ?t)) - 1 \<le> length ?t" by simp
  then show "butlast (fst (match_side ok q xs)) = take (length (fst (match_side ok q xs)) - 1) xs"
    unfolding f greedy_butlast by (rule take_takeWhile)
qed

lemma spec_execute_priority:
  "map fst (fst (spec_execute sd ok q ab))
     = take (length (fst (spec_execute sd ok q ab))) (map fst (other_side sd ab))"
  "butlast (fst (spec_execute sd ok q ab))
     = take (length (fst (spec_execute sd ok q ab)) - 1) (other_side sd ab)"
  using match_side_priority by (simp_all add: spec_execute_def other_side_def case_prod_beta)

lemma spec_add_priority:
  "map fst (fst (spec_add sd ty p i q ab))
     = take (length (fst (spec_add sd ty p i q ab))) (map fst (other_side sd ab))"
  "butlast (fst (spec_add sd ty p i q ab))
     = take (length (fst (spec_add sd ty p i q ab)) - 1) (other_side sd ab)"
  by (cases ty; simp add: spec_execute_priority Let_def case_prod_beta)+

definition own_side :: "Side \<Rightarrow> abook \<Rightarrow> entry list" where
  "own_side sd ab = (if sd = BUY then abids ab else aasks ab)"

lemma insert_rest_total: "open_qty (insert_rest lt e xs) = open_qty xs + snd e"
  using sum_list_takeWhile_dropWhile [of snd xs "\<lambda>x. \<not> lt (fst (fst e)) (fst (fst x))"]
  by (simp add: insert_rest_def)

lemma spec_execute_conserves:
  "open_qty (fst (spec_execute sd ok q ab)) + open_qty (other_side sd (snd (spec_execute sd ok q ab)))
     = open_qty (other_side sd ab)"
  "own_side sd (snd (spec_execute sd ok q ab)) = own_side sd ab"
  using match_side_conserves
  by (simp_all add: spec_execute_def other_side_def own_side_def case_prod_beta)

lemma spec_rest_conserves:
  "other_side sd (spec_rest sd p i n ab) = other_side sd ab"
  "open_qty (own_side sd (spec_rest sd p i n ab)) = open_qty (own_side sd ab) + n"
  by (cases sd; simp add: spec_rest_def other_side_def own_side_def rest_remainder_def insert_rest_total)+

lemma spec_add_conserves:
  "open_qty (fst (spec_add sd ty p i q ab)) + open_qty (other_side sd (snd (spec_add sd ty p i q ab)))
     = open_qty (other_side sd ab)"
  "open_qty (own_side sd (snd (spec_add sd ty p i q ab)))
     = open_qty (own_side sd ab)
        + (if ty = LIMIT \<or> ty = CANCEL then q - open_qty (fst (spec_add sd ty p i q ab)) else 0)"
  by (cases ty; simp add: spec_execute_conserves spec_rest_conserves Let_def case_prod_beta)+

section \<open>Accounting per order\<close>

definition id_qty :: "OrderId \<Rightarrow> entry list \<Rightarrow> nat" where
  "id_qty i xs = open_qty (filter (\<lambda>e. snd (fst e) = i) xs)"

lemma id_qty_simps [simp]:
  "id_qty i [] = 0"
  "id_qty i (e # xs) = (if snd (fst e) = i then snd e else 0) + id_qty i xs"
  "id_qty i (xs @ ys) = id_qty i xs + id_qty i ys"
  by (simp_all add: id_qty_def)

lemma id_qty_none: "i \<notin> (\<lambda>e. snd (fst e)) ` set xs \<Longrightarrow> id_qty i xs = 0"
  by (induction xs) auto

lemma greedy_id_qty: "id_qty i (fst (greedy q xs)) + id_qty i (snd (greedy q xs)) = id_qty i xs"
  for xs :: "entry list"
  by (induction q xs rule: greedy.induct) (auto split: prod.splits)

lemma match_side_id_qty: "id_qty i (fst (match_side ok q xs)) + id_qty i (snd (match_side ok q xs)) = id_qty i xs"
proof -
  let ?P = "\<lambda>e. ok (fst (fst e))"
  have "id_qty i (takeWhile ?P xs) + id_qty i (dropWhile ?P xs) = id_qty i xs"
    by (metis id_qty_simps(3) takeWhile_dropWhile_id)
  with greedy_id_qty [of i q "takeWhile ?P xs"] show ?thesis
    by (simp add: match_side_def case_prod_beta Let_def)
qed

definition abook_id_qty :: "OrderId \<Rightarrow> abook \<Rightarrow> nat" where
  "abook_id_qty i ab = id_qty i (abids ab) + id_qty i (aasks ab)"

lemma spec_execute_id_qty:
  "id_qty i (fst (spec_execute sd ok q ab)) + abook_id_qty i (snd (spec_execute sd ok q ab)) = abook_id_qty i ab"
  using match_side_id_qty [of i ok q "abids ab"] match_side_id_qty [of i ok q "aasks ab"]
  by (simp add: spec_execute_def abook_id_qty_def case_prod_beta)

lemma insert_rest_id_qty: "snd (fst e) \<noteq> i \<Longrightarrow> id_qty i (insert_rest lt e xs) = id_qty i xs"
  unfolding insert_rest_def id_qty_simps
  by (simp flip: id_qty_simps(3))

lemma spec_rest_id_qty: "i \<noteq> j \<Longrightarrow> abook_id_qty i (spec_rest sd p j n ab) = abook_id_qty i ab"
  by (simp add: spec_rest_def abook_id_qty_def rest_remainder_def insert_rest_id_qty)

lemma spec_add_id_qty:
  "i \<noteq> j \<Longrightarrow> id_qty i (fst (spec_add sd ty p j q ab)) + abook_id_qty i (snd (spec_add sd ty p j q ab))
     = abook_id_qty i ab"
  using spec_execute_id_qty [of i sd "acceptable sd p" q ab] spec_execute_id_qty [of i sd "\<lambda>_. True" q ab]
  by (cases ty) (simp_all add: spec_rest_id_qty Let_def case_prod_beta)

end
