(* ===== verification/Book_Inv.thy ===== *)
theory Book_Inv
  imports Matching_Spec
begin

text \<open>
  The invariant of an order book and its abstraction.  \<open>abs_side\<close> reads a side as the
  priority list of \<open>Matching_Spec\<close>; \<open>side_wf\<close> is the invariant of one side, \<open>book_wf\<close> of the
  book: ordered sides, well-formed levels, order ids (hence references) pairwise distinct,
  an index that locates exactly the resting orders, an uncrossed market, and an open
  quantity on each side that fits in 64 bits.
\<close>

section \<open>Sides\<close>

definition side_refs :: "book_side \<Rightarrow> OrderRef list" where
  "side_refs s = concat (map (\<lambda>(p, L). orders L) s)"

definition entry_of :: "(OrderRef \<Rightarrow> Order) \<Rightarrow> OrderRef \<Rightarrow> entry" where
  "entry_of h r = ((oprice (h r), oid (h r)), unat (remainingQty (h r)))"

definition abs_side :: "(OrderRef \<Rightarrow> Order) \<Rightarrow> book_side \<Rightarrow> entry list" where
  "abs_side h s = map (entry_of h) (side_refs s)"

definition side_wf :: "Side \<Rightarrow> (OrderRef \<Rightarrow> Order) \<Rightarrow> book_side \<Rightarrow> bool" where
  "side_wf sd h s \<longleftrightarrow>
     ordered (side_lt sd) s \<and> (\<forall>(p, L)\<in>set s. lprice L = p \<and> level_wf sd h L)"

lemma side_refs_simps [simp]:
  "side_refs [] = []"
  "side_refs ((p, L) # s) = orders L @ side_refs s"
  "side_refs (s @ s') = side_refs s @ side_refs s'"
  by (simp_all add: side_refs_def)

lemma entry_of_simps [simp]:
  "fst (entry_of h r) = (oprice (h r), oid (h r))"
  "snd (entry_of h r) = unat (remainingQty (h r))"
  by (simp_all add: entry_of_def)

lemma abs_side_simps [simp]:
  "abs_side h [] = []"
  "abs_side h ((p, L) # s) = map (entry_of h) (orders L) @ abs_side h s"
  "abs_side h (s @ s') = abs_side h s @ abs_side h s'"
  by (simp_all add: abs_side_def)

lemma abs_side_cong: "(\<And>r. r \<in> set (side_refs s) \<Longrightarrow> h' r = h r) \<Longrightarrow> abs_side h' s = abs_side h s"
  by (simp add: abs_side_def entry_of_def)

lemma set_side_refs: "r \<in> set (side_refs s) \<longleftrightarrow> (\<exists>(p, L)\<in>set s. r \<in> set (orders L))"
  by (auto simp: side_refs_def)

lemma open_qty_abs_side: "open_qty (abs_side h s) = rest_qty h (side_refs s)"
  by (simp add: abs_side_def rest_qty_def comp_def)

lemma side_wf_Nil [simp]: "side_wf sd h []"
  by (simp add: side_wf_def)

lemma side_wf_Cons:
  "side_wf sd h ((p, L) # s) \<longleftrightarrow>
     lprice L = p \<and> level_wf sd h L \<and> (\<forall>e\<in>set s. side_lt sd p (fst e)) \<and> side_wf sd h s"
  by (auto simp: side_wf_def)

lemma side_wf_append:
  "side_wf sd h (s @ s') \<longleftrightarrow>
     side_wf sd h s \<and> side_wf sd h s' \<and> (\<forall>e\<in>set s. \<forall>e'\<in>set s'. side_lt sd (fst e) (fst e'))"
  by (simp add: side_wf_def sorted_wrt_append ball_Un) blast

lemma side_wf_cong:
  assumes "\<And>r. r \<in> set (side_refs s) \<Longrightarrow> h' r = h r"
  shows "side_wf sd h' s = side_wf sd h s"
proof -
  have "level_wf sd h' L = level_wf sd h L" if "(p, L) \<in> set s" for p L
    using that assms by (intro level_wf_cong) (auto simp: set_side_refs)
  then show ?thesis by (auto simp: side_wf_def)
qed

lemma side_wf_resting:
  assumes "side_wf sd h s" and "r \<in> set (side_refs s)"
  shows "\<exists>L. (oprice (h r), L) \<in> set s \<and> r \<in> set (orders L) \<and> resting_ok sd (oprice (h r)) (h r)"
proof -
  from assms(2) obtain p L where "(p, L) \<in> set s" "r \<in> set (orders L)"
    by (auto simp: set_side_refs)
  with assms(1) have "resting_ok sd p (h r)"
    by (auto simp: side_wf_def level_wf_def)
  then show ?thesis
    using \<open>(p, L) \<in> set s\<close> \<open>r \<in> set (orders L)\<close> by (auto simp: resting_ok_def)
qed

lemma side_wf_remaining_pos:
  "side_wf sd h s \<Longrightarrow> r \<in> set (side_refs s) \<Longrightarrow> 0 < unat (remainingQty (h r))"
  using side_wf_resting resting_remaining_pos by blast

section \<open>The comparators meet their contract\<close>

interpretation side_cmp: comparator "side_lt sd" for sd
  by unfold_locales (cases sd; auto)+

definition opposite :: "Side \<Rightarrow> Side" where
  "opposite sd = (if sd = BUY then SELL else BUY)"

lemma opposite_simps [simp]: "opposite BUY = SELL" "opposite SELL = BUY"
  by (simp_all add: opposite_def)

interpretation limit_cut: price_cut "side_lt (opposite sd)" "limit_crosses sd p" for sd p
  by unfold_locales (cases sd; auto)

interpretation market_cut: price_cut "side_lt sd" "\<lambda>_. True" for sd
  by unfold_locales auto

section \<open>The index\<close>

definition loc_of :: "Order \<Rightarrow> OrderLocation" where
  "loc_of o1 = \<lparr>loc_side = oside o1, loc_price = oprice o1\<rparr>"

definition index_ok :: "(OrderRef \<Rightarrow> Order) \<Rightarrow> book_index \<Rightarrow> OrderRef list \<Rightarrow> bool" where
  "index_ok h ix rs \<longleftrightarrow>
     distinct (map fst ix) \<and> set ix = (\<lambda>r. (oid (h r), loc_of (h r))) ` set rs"

lemma index_ok_cong:
  assumes "set rs' = set rs"
    and "\<And>r. r \<in> set rs \<Longrightarrow> oid (h' r) = oid (h r) \<and> loc_of (h' r) = loc_of (h r)"
  shows "index_ok h' ix rs' = index_ok h ix rs"
proof -
  have "(\<lambda>r. (oid (h' r), loc_of (h' r))) ` set rs = (\<lambda>r. (oid (h r), loc_of (h r))) ` set rs"
    using assms(2) by (intro image_cong) auto
  with assms(1) show ?thesis by (simp add: index_ok_def)
qed

lemma index_ok_lookup:
  assumes "index_ok h ix rs"
  shows "map_of ix i = Some l \<longleftrightarrow> (\<exists>r\<in>set rs. oid (h r) = i \<and> l = loc_of (h r))"
proof -
  have "map_of ix i = Some l \<longleftrightarrow> (i, l) \<in> set ix"
    using assms by (simp add: index_ok_def)
  also have "\<dots> \<longleftrightarrow> (\<exists>r\<in>set rs. oid (h r) = i \<and> l = loc_of (h r))"
    using assms by (auto simp: index_ok_def)
  finally show ?thesis .
qed

lemma index_ok_delete:
  assumes ok: "index_ok h ix (xs @ r # ys)" and d: "distinct (map (\<lambda>r. oid (h r)) (xs @ r # ys))"
  shows "index_ok h (AList.delete (oid (h r)) ix) (xs @ ys)"
proof -
  have "set (AList.delete (oid (h r)) ix) = {e \<in> set ix. fst e \<noteq> oid (h r)}"
    by (auto simp: AList.delete_eq)
  also have "\<dots> = (\<lambda>r. (oid (h r), loc_of (h r))) ` set (xs @ ys)"
    using ok d by (auto simp: index_ok_def image_iff)
  finally show ?thesis
    using ok by (simp add: index_ok_def distinct_delete)
qed

lemma update_fresh: "k \<notin> fst ` set al \<Longrightarrow> AList.update k v al = al @ [(k, v)]"
  by (induction al) auto

lemma index_ok_insert:
  assumes ok: "index_ok h ix rs" and new: "oid (h r) \<notin> (\<lambda>r. oid (h r)) ` set rs"
    and rs': "set rs' = insert r (set rs)"
  shows "index_ok h (index_order r h ix) rs'"
proof -
  have "fst ` set ix = (\<lambda>r. oid (h r)) ` set rs"
    using ok by (auto simp: index_ok_def image_iff)
  with new have "index_order r h ix = ix @ [(oid (h r), loc_of (h r))]"
    by (simp add: index_order_def update_fresh loc_of_def)
  with ok new rs' \<open>fst ` set ix = _\<close> show ?thesis
    by (auto simp: index_ok_def)
qed

section \<open>Books\<close>

definition book_refs :: "OrderBook \<Rightarrow> OrderRef list" where
  "book_refs b = side_refs (bids b) @ side_refs (asks b)"

definition uncrossed :: "OrderBook \<Rightarrow> bool" where
  "uncrossed b \<longleftrightarrow> (\<forall>x\<in>set (bids b). \<forall>y\<in>set (asks b). fst x < fst y)"

definition book_wf :: "(OrderRef \<Rightarrow> Order) \<Rightarrow> OrderBook \<Rightarrow> bool" where
  "book_wf h b \<longleftrightarrow>
     side_wf BUY h (bids b) \<and> side_wf SELL h (asks b) \<and>
     distinct (map (\<lambda>r. oid (h r)) (book_refs b)) \<and>
     index_ok h (index b) (book_refs b) \<and> uncrossed b \<and>
     rest_qty h (side_refs (bids b)) < 2 ^ 64 \<and> rest_qty h (side_refs (asks b)) < 2 ^ 64"

definition abs_book :: "(OrderRef \<Rightarrow> Order) \<Rightarrow> OrderBook \<Rightarrow> abook" where
  "abs_book h b = \<lparr>abids = abs_side h (bids b), aasks = abs_side h (asks b)\<rparr>"

lemma book_wf_new: "book_wf h (OrderBook_new s)"
  by (simp add: book_wf_def OrderBook_new_def book_refs_def index_ok_def uncrossed_def)

lemma book_wf_refs_distinct: "book_wf h b \<Longrightarrow> distinct (book_refs b)"
  by (auto simp: book_wf_def distinct_map)

lemma book_wf_cong:
  assumes "\<And>r. r \<in> set (book_refs b) \<Longrightarrow> h' r = h r"
  shows "book_wf h' b = book_wf h b"
proof -
  have "side_wf BUY h' (bids b) = side_wf BUY h (bids b)"
    "side_wf SELL h' (asks b) = side_wf SELL h (asks b)"
    using assms by (auto intro!: side_wf_cong simp: book_refs_def)
  moreover have "map (\<lambda>r. oid (h' r)) (book_refs b) = map (\<lambda>r. oid (h r)) (book_refs b)"
    using assms by simp
  moreover have "index_ok h' (index b) (book_refs b) = index_ok h (index b) (book_refs b)"
    using assms by (intro index_ok_cong) auto
  moreover have "rest_qty h' (side_refs (bids b)) = rest_qty h (side_refs (bids b))"
    "rest_qty h' (side_refs (asks b)) = rest_qty h (side_refs (asks b))"
    using assms by (auto intro!: rest_qty_cong simp: book_refs_def)
  ultimately show ?thesis by (simp only: book_wf_def)
qed

lemma abs_book_cong:
  assumes "\<And>r. r \<in> set (book_refs b) \<Longrightarrow> h' r = h r"
  shows "abs_book h' b = abs_book h b"
proof -
  have "abs_side h' (bids b) = abs_side h (bids b)" "abs_side h' (asks b) = abs_side h (asks b)"
    using assms by (auto intro!: abs_side_cong simp: book_refs_def)
  then show ?thesis by (simp only: abs_book_def)
qed

lemma hasOrder_iff:
  "book_wf h b \<Longrightarrow> hasOrder i b \<longleftrightarrow> i \<in> (\<lambda>r. oid (h r)) ` set (book_refs b)"
  using index_ok_lookup [of h "index b" "book_refs b" i]
  by (auto simp: book_wf_def hasOrder_def image_iff)

end
