(* ===== verification/Book_Drain.thy ===== *)
theory Book_Drain
  imports Book_Inv
begin

text \<open>
  The matching loop \<^verbatim>\<open>OrderBook::drainSide\<close> refines the greedy specification: on a well-formed
  side that does not hold the incoming order it always ends, never dereferences a null
  front, and its trades and the side it leaves are those of \<open>match_side\<close>.  \<open>drain_run\<close> is
  what a run may touch: makers change only in filled quantity and status, everything else
  in the heap stays, and the trades carry the book's symbol, the taker's id and the
  successive clock readings.
\<close>

section \<open>One iteration\<close>

lemma drain_body_pop:
  fixes s inc m
  defines "h \<equiv> heap (d_world s)"
  assumes side: "d_side s = (p, L) # rest" "orders L = m # rs" and "m \<noteq> inc"
    and n: "remainingQty (h m) \<le> remainingQty (h inc)"
    and tot: "remainingQty (h m) \<le> totalQty L"
  shows "\<exists>w'. drain_body sy inc s = Some
      \<lparr>d_side = (if rs = [] then rest
                 else (p, L\<lparr>totalQty := totalQty L - remainingQty (h m), orders := rs\<rparr>) # rest),
       d_index = AList.delete (oid (h m)) (d_index s), d_world = w',
       d_trades = d_trades s @ [\<lparr>tsymbol = sy, tprice = oprice (h m), tquantity = remainingQty (h m),
         makerOrderId = oid (h m), takerOrderId = oid (h inc),
         ttimestamp = clock (d_world s) (ticks (d_world s))\<rparr>]\<rparr>
    \<and> heap w' = h(m := (h m)\<lparr>ofilledQty := oquantity (h m), ostatus := FILLED\<rparr>,
                  inc := (h inc)\<lparr>ofilledQty := ofilledQty (h inc) + remainingQty (h m)\<rparr>)
    \<and> clock w' = clock (d_world s) \<and> ticks w' = Suc (ticks (d_world s))"
proof -
  have full: "ofilledQty (h m) + remainingQty (h m) = oquantity (h m)"
    by (simp add: remainingQty_def)
  let ?w3 = "add_filled inc (remainingQty (h m))
      (add_filled m (remainingQty (h m)) (snd (nowNs (d_world s))))"
  have mn: "min (remainingQty (h inc)) (remainingQty (h m)) = remainingQty (h m)"
    using n by (simp add: min_def)
  have filled: "isFilled ((h m)\<lparr>ofilledQty := ofilledQty (h m) + remainingQty (h m)\<rparr>)"
    using full by (simp add: isFilled_def)
  let ?w' = "set_status m FILLED ?w3"
  have hp: "heap ?w' = h(m := (h m)\<lparr>ofilledQty := oquantity (h m), ostatus := FILLED\<rparr>,
                  inc := (h inc)\<lparr>ofilledQty := ofilledQty (h inc) + remainingQty (h m)\<rparr>)"
    using \<open>m \<noteq> inc\<close> full by (auto simp: fun_eq_iff world_simps h_def)
  have z: "remainingQty ((h m)\<lparr>ofilledQty := ofilledQty (h m) + remainingQty (h m), ostatus := FILLED\<rparr>) = 0"
    using full by (simp add: remainingQty_def)
  show ?thesis
    using side mn filled z tot \<open>m \<noteq> inc\<close>
    by (intro exI [of _ ?w'] conjI hp)
       (simp_all add: drain_body_def level_front_def makeTrade_def Let_def case_prod_beta
         level_updateTotalQty_def level_popFront_def level_empty_def h_def [symmetric] world_simps)
qed

lemma drain_body_partial:
  fixes s inc m
  defines "h \<equiv> heap (d_world s)"
  assumes side: "d_side s = (p, L) # rest" "orders L = m # rs" and "m \<noteq> inc"
    and n: "remainingQty (h inc) < remainingQty (h m)"
    and fl: "ofilledQty (h m) \<le> oquantity (h m)"
    and tot: "remainingQty (h m) \<le> totalQty L"
  shows "\<exists>w'. drain_body sy inc s = Some
      \<lparr>d_side = (p, L\<lparr>totalQty := totalQty L - remainingQty (h inc)\<rparr>) # rest,
       d_index = d_index s, d_world = w',
       d_trades = d_trades s @ [\<lparr>tsymbol = sy, tprice = oprice (h m), tquantity = remainingQty (h inc),
         makerOrderId = oid (h m), takerOrderId = oid (h inc),
         ttimestamp = clock (d_world s) (ticks (d_world s))\<rparr>]\<rparr>
    \<and> heap w' = h(m := (h m)\<lparr>ofilledQty := ofilledQty (h m) + remainingQty (h inc),
                             ostatus := PARTIALLY_FILLED\<rparr>,
                  inc := (h inc)\<lparr>ofilledQty := oquantity (h inc)\<rparr>)
    \<and> clock w' = clock (d_world s) \<and> ticks w' = Suc (ticks (d_world s))"
proof -
  let ?a = "remainingQty (h inc)"
  have full: "ofilledQty (h inc) + ?a = oquantity (h inc)"
    by (simp add: remainingQty_def)
  let ?w3 = "add_filled inc ?a (add_filled m ?a (snd (nowNs (d_world s))))"
  have mn: "min ?a (remainingQty (h m)) = ?a"
    using n by (simp add: min_def less_imp_le)
  have "unat (ofilledQty (h m) + ?a) = unat (ofilledQty (h m)) + unat ?a"
    using fl n by (intro fill_within) auto
  with n fl have filled: "\<not> isFilled ((h m)\<lparr>ofilledQty := ofilledQty (h m) + ?a\<rparr>)"
    by (simp add: isFilled_def word_le_nat_alt word_less_nat_alt remaining_unat)
  let ?w' = "set_status m PARTIALLY_FILLED ?w3"
  have hp: "heap ?w' = h(m := (h m)\<lparr>ofilledQty := ofilledQty (h m) + ?a, ostatus := PARTIALLY_FILLED\<rparr>,
                  inc := (h inc)\<lparr>ofilledQty := oquantity (h inc)\<rparr>)"
    using \<open>m \<noteq> inc\<close> full by (auto simp: fun_eq_iff world_simps h_def)
  have "?a \<le> totalQty L" using n tot by (simp add: less_le_trans less_imp_le)
  then show ?thesis
    using side mn filled \<open>m \<noteq> inc\<close>
    by (intro exI [of _ ?w'] conjI hp)
       (simp_all add: drain_body_def level_front_def makeTrade_def Let_def case_prod_beta
         level_updateTotalQty_def level_empty_def h_def [symmetric] world_simps)
qed

section \<open>What a run may touch\<close>

definition abs_trade :: "Trade \<Rightarrow> entry" where
  "abs_trade t = ((tprice t, makerOrderId t), unat (tquantity t))"

definition same_static :: "Order \<Rightarrow> Order \<Rightarrow> bool" where
  "same_static x y \<longleftrightarrow> x = y\<lparr>ofilledQty := ofilledQty x, ostatus := ostatus x\<rparr>"

lemma same_static_refl [simp]: "same_static x x"
  by (simp add: same_static_def)

lemma same_static_trans: "same_static x y \<Longrightarrow> same_static y z \<Longrightarrow> same_static x z"
  by (cases x; cases y; cases z) (simp add: same_static_def)

lemma same_staticD:
  "same_static x y \<Longrightarrow> oid x = oid y \<and> oprice x = oprice y \<and> oside x = oside y \<and>
     oquantity x = oquantity y \<and> otype x = otype y \<and> osymbol x = osymbol y \<and> loc_of x = loc_of y"
  by (cases x; cases y) (simp add: same_static_def loc_of_def)

definition drain_trades ::
  "Symbol \<Rightarrow> OrderId \<Rightarrow> (nat \<Rightarrow> Timestamp) \<Rightarrow> nat \<Rightarrow> Trade list \<Rightarrow> entry list \<Rightarrow> bool" where
  "drain_trades sy taker clk k ts fs \<longleftrightarrow>
     map abs_trade ts = fs \<and> (\<forall>t\<in>set ts. tsymbol t = sy \<and> takerOrderId t = taker) \<and>
     map ttimestamp ts = map clk [k..<k + length ts]"

lemma drain_trades_Nil [simp]: "drain_trades sy taker clk k [] fs \<longleftrightarrow> fs = []"
  by (auto simp: drain_trades_def)

lemma drain_trades_append:
  assumes "drain_trades sy taker clk k ts fs" and "drain_trades sy taker clk (k + length ts) us gs"
  shows "drain_trades sy taker clk k (ts @ us) (fs @ gs)"
proof -
  have "[k..<k + length (ts @ us)] = [k..<k + length ts] @ [k + length ts..<k + length ts + length us]"
    using upt_add_eq_append [of k "k + length ts" "length us"] by (simp add: add.assoc)
  with assms show ?thesis by (auto simp: drain_trades_def)
qed

definition drain_mem :: "OrderRef \<Rightarrow> drain \<Rightarrow> drain \<Rightarrow> bool" where
  "drain_mem inc s s' \<longleftrightarrow>
     (let h = heap (d_world s); h' = heap (d_world s'); rs = side_refs (d_side s) in
      clock (d_world s') = clock (d_world s) \<and>
      h' inc = (h inc)\<lparr>ofilledQty := ofilledQty (h' inc)\<rparr> \<and>
      (\<forall>r. r \<noteq> inc \<longrightarrow> r \<notin> set rs \<longrightarrow> h' r = h r) \<and>
      (\<forall>r\<in>set rs. same_static (h' r) (h r)) \<and>
      (\<exists>gone. rs = gone @ side_refs (d_side s') \<and>
         (\<forall>r\<in>set gone. isFilled (h' r) \<and> ostatus (h' r) = FILLED)) \<and>
      (\<forall>r\<in>set (side_refs (d_side s')). h' r = h r \<or> ostatus (h' r) = PARTIALLY_FILLED) \<and>
      fst ` set (d_side s') \<subseteq> fst ` set (d_side s))"

lemma drain_mem_refl: "drain_mem inc s s"
  by (simp add: drain_mem_def Let_def)

lemma drain_mem_trans:
  assumes 1: "drain_mem inc s s1" and 2: "drain_mem inc s1 s2"
    and d: "distinct (side_refs (d_side s))" and inc: "inc \<notin> set (side_refs (d_side s))"
  shows "drain_mem inc s s2"
proof -
  define h h1 h2 where "h = heap (d_world s)" and "h1 = heap (d_world s1)" and "h2 = heap (d_world s2)"
  note defs = drain_mem_def Let_def h_def [symmetric] h1_def [symmetric] h2_def [symmetric]
  from 1 obtain g1 where g1: "side_refs (d_side s) = g1 @ side_refs (d_side s1)"
    "\<forall>r\<in>set g1. isFilled (h1 r) \<and> ostatus (h1 r) = FILLED"
    unfolding defs by blast
  from 2 obtain g2 where g2: "side_refs (d_side s1) = g2 @ side_refs (d_side s2)"
    "\<forall>r\<in>set g2. isFilled (h2 r) \<and> ostatus (h2 r) = FILLED"
    unfolding defs by blast
  have frame1: "h1 r = h r" if "r \<noteq> inc" "r \<notin> set (side_refs (d_side s))" for r
    using 1 that unfolding defs by blast
  have frame2: "h2 r = h1 r" if "r \<noteq> inc" "r \<notin> set (side_refs (d_side s1))" for r
    using 2 that unfolding defs by blast
  have st: "same_static (h2 r) (h r)" if r: "r \<in> set (side_refs (d_side s))" for r
  proof -
    have "same_static (h1 r) (h r)" using 1 r unfolding defs by blast
    moreover have "same_static (h2 r) (h1 r)"
      using 2 r inc frame2 [of r] unfolding defs by (cases "r \<in> set (side_refs (d_side s1))") auto
    ultimately show ?thesis by (rule same_static_trans [rotated])
  qed
  have "h2 r = h1 r" if "r \<in> set g1" for r
    using that d inc g1(1) by (intro frame2) auto
  with g1(2) g2(2) have gone: "\<forall>r\<in>set (g1 @ g2). isFilled (h2 r) \<and> ostatus (h2 r) = FILLED"
    by auto
  have left: "h2 r = h r \<or> ostatus (h2 r) = PARTIALLY_FILLED" if "r \<in> set (side_refs (d_side s2))" for r
  proof -
    have "h2 r = h1 r \<or> ostatus (h2 r) = PARTIALLY_FILLED" using 2 that unfolding defs by blast
    moreover have "h1 r = h r \<or> ostatus (h1 r) = PARTIALLY_FILLED"
      using 1 that g2(1) unfolding defs by auto
    ultimately show ?thesis by auto
  qed
  have cl: "clock (d_world s2) = clock (d_world s)" using 1 2 unfolding defs by simp
  have i1: "h1 inc = (h inc)\<lparr>ofilledQty := ofilledQty (h1 inc)\<rparr>" using 1 unfolding defs by blast
  have i2: "h2 inc = (h1 inc)\<lparr>ofilledQty := ofilledQty (h2 inc)\<rparr>" using 2 unfolding defs by blast
  have tk: "h2 inc = (h inc)\<lparr>ofilledQty := ofilledQty (h2 inc)\<rparr>"
    by (subst i2, subst i1) simp
  have ks: "fst ` set (d_side s2) \<subseteq> fst ` set (d_side s)" using 1 2 unfolding defs by blast
  have fr: "h2 r = h r" if "r \<noteq> inc" "r \<notin> set (side_refs (d_side s))" for r
    using that frame1 frame2 g1(1) by auto
  have sfx: "side_refs (d_side s) = (g1 @ g2) @ side_refs (d_side s2)" using g1(1) g2(1) by simp
  show ?thesis
    unfolding defs using cl tk fr st sfx gone left ks by blast
qed

section \<open>The loop invariant\<close>

text \<open>\<open>others\<close> are the orders of the other side, which the loop must not disturb.\<close>

definition drain_inv :: "Side \<Rightarrow> OrderRef \<Rightarrow> OrderRef list \<Rightarrow> drain \<Rightarrow> bool" where
  "drain_inv sd inc others s \<longleftrightarrow>
     (let h = heap (d_world s); rs = side_refs (d_side s) @ others in
      side_wf sd h (d_side s) \<and> inc \<notin> set rs \<and> distinct (map (\<lambda>r. oid (h r)) rs) \<and>
      index_ok h (d_index s) rs \<and> ofilledQty (h inc) \<le> oquantity (h inc))"

abbreviation d_heap :: "drain \<Rightarrow> OrderRef \<Rightarrow> Order" where
  "d_heap s \<equiv> heap (d_world s)"

text \<open>What one iteration does, seen through the abstraction: \<open>fill\<close> is the trade it makes.\<close>

definition drain_step_ok ::
  "Symbol \<Rightarrow> Side \<Rightarrow> OrderRef \<Rightarrow> OrderRef list \<Rightarrow> drain \<Rightarrow> entry \<Rightarrow> drain \<Rightarrow> bool" where
  "drain_step_ok sy sd inc others s fill s1 \<longleftrightarrow>
     drain_inv sd inc others s1 \<and> drain_mem inc s s1 \<and>
     (\<exists>t. d_trades s1 = d_trades s @ [t] \<and> ticks (d_world s1) = Suc (ticks (d_world s)) \<and>
          drain_trades sy (oid (d_heap s inc)) (clock (d_world s)) (ticks (d_world s)) [t] [fill])"

lemma drain_step_pop:
  assumes inv: "drain_inv sd inc others s"
    and side: "d_side s = (p, L) # rest" "orders L = m # rs"
    and n: "remainingQty (d_heap s m) \<le> remainingQty (d_heap s inc)"
  shows "\<exists>s1. drain_body sy inc s = Some s1
    \<and> drain_step_ok sy sd inc others s (entry_of (d_heap s) m) s1
    \<and> side_refs (d_side s1) = rs @ side_refs rest
    \<and> abs_side (d_heap s1) (d_side s1) = map (entry_of (d_heap s)) (rs @ side_refs rest)
    \<and> unat (remainingQty (d_heap s1 inc))
        = unat (remainingQty (d_heap s inc)) - unat (remainingQty (d_heap s m))"
proof -
  define h where "h = d_heap s"
  have wf: "lprice L = p" "level_wf sd h L" "side_wf sd h rest" "\<forall>e\<in>set rest. side_lt sd p (fst e)"
    and inc: "inc \<notin> set (m # rs @ side_refs rest @ others)"
    and dist: "distinct (map (\<lambda>r. oid (h r)) (m # rs @ side_refs rest @ others))"
    and ix: "index_ok h (d_index s) (m # rs @ side_refs rest @ others)"
    and fl: "ofilledQty (h inc) \<le> oquantity (h inc)"
    using inv side by (auto simp: drain_inv_def Let_def side_wf_Cons h_def [symmetric])
  have mi: "m \<noteq> inc" using inc by auto
  have tot: "unat (totalQty L) = unat (remainingQty (h m)) + rest_qty h rs"
    using wf(2) side(2) by (simp add: level_wf_def)
  then have le: "remainingQty (h m) \<le> totalQty L" by (simp add: word_le_nat_alt)
  from drain_body_pop [of s p L rest m rs inc sy, folded h_def, OF side mi n [folded h_def] le]
  obtain w' where body: "drain_body sy inc s = Some
      \<lparr>d_side = (if rs = [] then rest
                 else (p, L\<lparr>totalQty := totalQty L - remainingQty (h m), orders := rs\<rparr>) # rest),
       d_index = AList.delete (oid (h m)) (d_index s), d_world = w',
       d_trades = d_trades s @ [\<lparr>tsymbol = sy, tprice = oprice (h m), tquantity = remainingQty (h m),
         makerOrderId = oid (h m), takerOrderId = oid (h inc),
         ttimestamp = clock (d_world s) (ticks (d_world s))\<rparr>]\<rparr>" (is "_ = Some ?s1")
    and hw: "heap w' = h(m := (h m)\<lparr>ofilledQty := oquantity (h m), ostatus := FILLED\<rparr>,
                  inc := (h inc)\<lparr>ofilledQty := ofilledQty (h inc) + remainingQty (h m)\<rparr>)"
    and ck: "clock w' = clock (d_world s)" "ticks w' = Suc (ticks (d_world s))"
    by blast
  have dr: "distinct (m # rs @ side_refs rest @ others)"
    using dist by (auto simp: distinct_map)
  have same: "heap w' r = h r" if "r \<in> set (rs @ side_refs rest @ others)" for r
    using that dr inc by (auto simp: hw)
  have refs1: "side_refs (d_side ?s1) = rs @ side_refs rest" by simp
  have wfs: "side_wf sd (heap w') (d_side ?s1)"
  proof -
    have "side_wf sd (heap w') rest = side_wf sd h rest"
      using same by (intro side_wf_cong) auto
    moreover have "level_wf sd (heap w') (L\<lparr>totalQty := totalQty L - remainingQty (h m), orders := rs\<rparr>)"
      if "rs \<noteq> []"
    proof -
      have "level_wf sd h (L\<lparr>totalQty := totalQty L - remainingQty (h m), orders := rs\<rparr>)"
        using that wf(2) side(2) tot le by (simp add: level_wf_def unat_minus_le)
      then show ?thesis
        using same by (subst level_wf_cong [of _ _ h]) auto
    qed
    ultimately show ?thesis using wf by (simp add: side_wf_Cons)
  qed
  have ixs: "index_ok (heap w') (d_index ?s1) (rs @ side_refs rest @ others)"
  proof -
    have "index_ok h (d_index ?s1) (rs @ side_refs rest @ others)"
      using index_ok_delete [of h "d_index s" "[]" m "rs @ side_refs rest @ others"] ix dist by simp
    then show ?thesis using same by (subst index_ok_cong [of _ "rs @ side_refs rest @ others" _ h]) auto
  qed
  have ids: "distinct (map (\<lambda>r. oid (heap w' r)) (rs @ side_refs rest @ others))"
    using dist same by (simp cong: map_cong)
  note fill = fill_within [OF fl n [folded h_def]]
  have inv1: "drain_inv sd inc others ?s1"
    unfolding drain_inv_def Let_def
    using wfs ixs ids inc fill(2) by (auto simp: refs1 hw)
  have mem: "drain_mem inc s ?s1"
    using mi inc dr side
    by (auto simp: drain_mem_def Let_def refs1 ck hw h_def [symmetric] same_static_def isFilled_def
        intro!: exI [of _ "[m]"])
  have ok: "drain_step_ok sy sd inc others s (entry_of h m) ?s1"
    using inv1 mem ck by (simp add: drain_step_ok_def drain_trades_def abs_trade_def entry_of_def
        h_def [symmetric])
  have "abs_side (heap w') (d_side ?s1) = map (entry_of h) (rs @ side_refs rest)"
    unfolding abs_side_def refs1 using same by (auto simp: entry_of_def)
  with body ok refs1 fill(3) mi show ?thesis
    by (intro exI [of _ ?s1]) (simp add: h_def [symmetric] hw)
qed

lemma drain_step_partial:
  assumes inv: "drain_inv sd inc others s"
    and side: "d_side s = (p, L) # rest" "orders L = m # rs"
    and n: "remainingQty (d_heap s inc) < remainingQty (d_heap s m)"
  shows "\<exists>s1. drain_body sy inc s = Some s1
    \<and> drain_step_ok sy sd inc others s
        ((oprice (d_heap s m), oid (d_heap s m)), unat (remainingQty (d_heap s inc))) s1
    \<and> abs_side (d_heap s1) (d_side s1)
        = ((oprice (d_heap s m), oid (d_heap s m)),
           unat (remainingQty (d_heap s m)) - unat (remainingQty (d_heap s inc)))
          # map (entry_of (d_heap s)) (rs @ side_refs rest)
    \<and> remainingQty (d_heap s1 inc) = 0"
proof -
  define h where "h = d_heap s"
  have wf: "lprice L = p" "level_wf sd h L" "side_wf sd h rest" "\<forall>e\<in>set rest. side_lt sd p (fst e)"
    and inc: "inc \<notin> set (m # rs @ side_refs rest @ others)"
    and dist: "distinct (map (\<lambda>r. oid (h r)) (m # rs @ side_refs rest @ others))"
    and ix: "index_ok h (d_index s) (m # rs @ side_refs rest @ others)"
    using inv side by (auto simp: drain_inv_def Let_def side_wf_Cons h_def [symmetric])
  have mi: "m \<noteq> inc" using inc by auto
  have mok: "resting_ok sd p (h m)" using wf side(2) by (simp add: level_wf_def)
  then have flm: "ofilledQty (h m) \<le> oquantity (h m)" by (simp add: resting_ok_def less_imp_le)
  have tot: "unat (totalQty L) = unat (remainingQty (h m)) + rest_qty h rs"
    using wf(2) side(2) by (simp add: level_wf_def)
  then have le: "remainingQty (h m) \<le> totalQty L" by (simp add: word_le_nat_alt)
  let ?a = "remainingQty (h inc)"
  from drain_body_partial [of s p L rest m rs inc sy, folded h_def, OF side mi n [folded h_def] flm le]
  obtain w' where body: "drain_body sy inc s = Some
      \<lparr>d_side = (p, L\<lparr>totalQty := totalQty L - ?a\<rparr>) # rest,
       d_index = d_index s, d_world = w',
       d_trades = d_trades s @ [\<lparr>tsymbol = sy, tprice = oprice (h m), tquantity = ?a,
         makerOrderId = oid (h m), takerOrderId = oid (h inc),
         ttimestamp = clock (d_world s) (ticks (d_world s))\<rparr>]\<rparr>" (is "_ = Some ?s1")
    and hw: "heap w' = h(m := (h m)\<lparr>ofilledQty := ofilledQty (h m) + ?a, ostatus := PARTIALLY_FILLED\<rparr>,
                  inc := (h inc)\<lparr>ofilledQty := oquantity (h inc)\<rparr>)"
    and ck: "clock w' = clock (d_world s)" "ticks w' = Suc (ticks (d_world s))"
    by blast
  have dr: "distinct (m # rs @ side_refs rest @ others)"
    using dist by (auto simp: distinct_map)
  have same: "heap w' r = h r" if "r \<in> set (rs @ side_refs rest @ others)" for r
    using that dr inc by (auto simp: hw)
  have refs1: "side_refs (d_side ?s1) = m # rs @ side_refs rest" using side(2) by simp
  note part = fill_within [OF flm less_imp_le [OF n [folded h_def]]]
  have remm: "unat (remainingQty (heap w' m)) = unat (remainingQty (h m)) - unat ?a"
    using part(3) mi by (simp add: hw remainingQty_def)
  have mok': "resting_ok sd p (heap w' m)"
    using mok part n mi
    by (simp add: hw resting_ok_def word_less_nat_alt h_def remaining_unat)
  have wfs: "side_wf sd (heap w') (d_side ?s1)"
  proof -
    have "side_wf sd (heap w') rest = side_wf sd h rest"
      using same by (intro side_wf_cong) auto
    moreover have "rest_qty (heap w') rs = rest_qty h rs"
      using same by (intro rest_qty_cong) auto
    moreover have "unat (totalQty L - ?a) = unat (totalQty L) - unat ?a"
      using le n by (intro unat_minus_le) (simp add: h_def less_imp_le less_le_trans)
    moreover have "\<forall>r\<in>set rs. resting_ok sd p (heap w' r)"
      using wf side(2) same by (auto simp: level_wf_def)
    moreover have "unat ?a < unat (remainingQty (h m))"
      using n by (simp add: word_less_nat_alt h_def)
    ultimately show ?thesis
      using wf side mok' tot remm by (simp add: side_wf_Cons level_wf_def)
  qed
  have loc: "oid (heap w' r) = oid (h r) \<and> loc_of (heap w' r) = loc_of (h r)" for r
    by (simp add: hw loc_of_def)
  have ixs: "index_ok (heap w') (d_index ?s1) (m # rs @ side_refs rest @ others)"
    using ix loc by (subst index_ok_cong [of _ "m # rs @ side_refs rest @ others" _ h]) auto
  have ids: "distinct (map (\<lambda>r. oid (heap w' r)) (m # rs @ side_refs rest @ others))"
    using dist loc by (simp cong: map_cong)
  have inv1: "drain_inv sd inc others ?s1"
    unfolding drain_inv_def Let_def
    using wfs ixs ids inc side by (auto simp: hw)
  have mem: "drain_mem inc s ?s1"
    using mi inc dr side
    by (auto simp: drain_mem_def Let_def ck hw h_def [symmetric] same_static_def)
  have ok: "drain_step_ok sy sd inc others s ((oprice (h m), oid (h m)), unat ?a) ?s1"
    using inv1 mem ck by (simp add: drain_step_ok_def drain_trades_def abs_trade_def
        h_def [symmetric])
  have "abs_side (heap w') (d_side ?s1) = ((oprice (h m), oid (h m)), unat (remainingQty (h m)) - unat ?a)
      # map (entry_of h) (rs @ side_refs rest)"
    unfolding abs_side_def refs1 using same remm loc mi by (auto simp: entry_of_def hw)
  with body ok show ?thesis
    by (intro exI [of _ ?s1]) (simp add: h_def [symmetric] hw remainingQty_def)
qed

section \<open>The whole loop\<close>

definition crosses_pred :: "crosses_fn \<Rightarrow> Price \<Rightarrow> bool" where
  "crosses_pred crosses = (case crosses of None \<Rightarrow> (\<lambda>_. True) | Some f \<Rightarrow> f)"

lemma crosses_pred_simps [simp]:
  "crosses_pred None = (\<lambda>_. True)" "crosses_pred (Some f) = f"
  by (simp_all add: crosses_pred_def)

definition drain_result ::
  "Symbol \<Rightarrow> Side \<Rightarrow> OrderRef \<Rightarrow> OrderRef list \<Rightarrow> drain \<Rightarrow> entry list \<times> entry list \<Rightarrow> drain \<Rightarrow> bool" where
  "drain_result sy sd inc others s m s' \<longleftrightarrow>
     drain_inv sd inc others s' \<and> drain_mem inc s s' \<and>
     abs_side (d_heap s') (d_side s') = snd m \<and>
     unat (remainingQty (d_heap s' inc)) = unat (remainingQty (d_heap s inc)) - open_qty (fst m) \<and>
     (\<exists>ts. d_trades s' = d_trades s @ ts \<and> ticks (d_world s') = ticks (d_world s) + length ts \<and>
          drain_trades sy (oid (d_heap s inc)) (clock (d_world s)) (ticks (d_world s)) ts (fst m))"

lemma drain_result_refl:
  assumes "drain_inv sd inc others s"
  shows "drain_result sy sd inc others s ([], abs_side (d_heap s) (d_side s)) s"
  using assms by (simp add: drain_result_def drain_mem_refl)

lemma drain_result_step:
  assumes inv: "drain_inv sd inc others s"
    and step: "drain_step_ok sy sd inc others s fill s1"
    and res: "drain_result sy sd inc others s1 m s'"
    and q: "unat (remainingQty (d_heap s1 inc)) = unat (remainingQty (d_heap s inc)) - snd fill"
  shows "drain_result sy sd inc others s (fill # fst m, snd m) s'"
proof -
  from step obtain t where mem: "drain_mem inc s s1" and t: "d_trades s1 = d_trades s @ [t]"
    "ticks (d_world s1) = Suc (ticks (d_world s))"
    "drain_trades sy (oid (d_heap s inc)) (clock (d_world s)) (ticks (d_world s)) [t] [fill]"
    by (auto simp: drain_step_ok_def)
  from mem have cl: "clock (d_world s1) = clock (d_world s)"
    and inc1: "d_heap s1 inc = (d_heap s inc)\<lparr>ofilledQty := ofilledQty (d_heap s1 inc)\<rparr>"
    unfolding drain_mem_def Let_def by blast+
  have oid1: "oid (d_heap s1 inc) = oid (d_heap s inc)" by (subst inc1) simp
  from res obtain ts where ts: "d_trades s' = d_trades s1 @ ts"
    "ticks (d_world s') = ticks (d_world s1) + length ts"
    "drain_trades sy (oid (d_heap s inc)) (clock (d_world s)) (Suc (ticks (d_world s))) ts (fst m)"
    using cl t(2) oid1 by (auto simp: drain_result_def)
  have "drain_trades sy (oid (d_heap s inc)) (clock (d_world s)) (ticks (d_world s))
      ([t] @ ts) ([fill] @ fst m)"
    using t(3) ts(3) by (intro drain_trades_append) simp_all
  moreover have "drain_mem inc s s'"
    using mem res inv by (intro drain_mem_trans [of inc s s1 s'])
      (auto simp: drain_result_def drain_inv_def Let_def distinct_map)
  ultimately show ?thesis
    using res q t(1,2) ts(1,2) by (auto simp: drain_result_def)
qed

theorem drainSide_refines:
  assumes "drain_inv sd inc others s"
  shows "\<exists>s'. drainSide sy inc crosses s = Some s' \<and>
     drain_result sy sd inc others s
       (match_side (crosses_pred crosses) (unat (remainingQty (d_heap s inc)))
          (abs_side (d_heap s) (d_side s))) s'"
  using assms
proof (induction "length (side_refs (d_side s))" arbitrary: s rule: less_induct)
  case less
  let ?h = "d_heap s" and ?a = "unat (remainingQty (d_heap s inc))"
  show ?case
  proof (cases "drain_continues inc crosses s")
    case False
    have "?a = 0 \<or> abs_side ?h (d_side s) = [] \<or>
        \<not> crosses_pred crosses (fst (fst (hd (abs_side ?h (d_side s)))))"
      using False less.prems
      by (cases "d_side s")
         (auto simp: drain_continues_def drain_inv_def Let_def side_wf_Cons level_wf_def resting_ok_def
           word_gt_0_unat neq_Nil_conv split: option.splits)
    with False less.prems show ?thesis
      by (simp add: drainSide.simps match_side_stop drain_result_refl)
  next
    case True
    then obtain p L rest where side: "d_side s = (p, L) # rest" and ok: "crosses_pred crosses p"
      and a: "0 < ?a"
      by (auto simp: drain_continues_def word_gt_0_unat split: list.splits option.splits)
    obtain m rs where os: "orders L = m # rs" and mp: "oprice (?h m) = p"
      using less.prems side
      by (auto simp: drain_inv_def Let_def side_wf_Cons level_wf_def resting_ok_def neq_Nil_conv)
    have abs: "abs_side ?h (d_side s) = entry_of ?h m # map (entry_of ?h) (rs @ side_refs rest)"
      using side os by (simp add: abs_side_def)
    show ?thesis
    proof (cases "remainingQty (?h m) \<le> remainingQty (?h inc)")
      case n: True
      from drain_step_pop [OF less.prems side os n, of sy] obtain s1 where
        s1: "drain_body sy inc s = Some s1" "drain_step_ok sy sd inc others s (entry_of ?h m) s1"
          "side_refs (d_side s1) = rs @ side_refs rest"
          "abs_side (d_heap s1) (d_side s1) = map (entry_of ?h) (rs @ side_refs rest)"
          "unat (remainingQty (d_heap s1 inc)) = ?a - unat (remainingQty (?h m))"
        by blast
      have "drain_inv sd inc others s1" using s1(2) by (simp add: drain_step_ok_def)
      with less.hyps [of s1] s1(3) side os obtain s' where
        s': "drainSide sy inc crosses s1 = Some s'"
          "drain_result sy sd inc others s1 (match_side (crosses_pred crosses)
             (unat (remainingQty (d_heap s1 inc))) (abs_side (d_heap s1) (d_side s1))) s'"
        by auto
      from drain_result_step [OF less.prems s1(2) s'(2)] s1(4,5) True n s'(1) s1(1) ok mp a
      show ?thesis
        by (auto simp: drainSide.simps [of sy inc crosses s] abs match_side_pop entry_of_def
            word_le_nat_alt)
    next
      case n: False
      from drain_step_partial [OF less.prems side os, of sy] n obtain s1 where
        s1: "drain_body sy inc s = Some s1" "drain_step_ok sy sd inc others s
             ((oprice (?h m), oid (?h m)), ?a) s1" "remainingQty (d_heap s1 inc) = 0"
          "abs_side (d_heap s1) (d_side s1) = ((oprice (?h m), oid (?h m)),
             unat (remainingQty (?h m)) - ?a) # map (entry_of ?h) (rs @ side_refs rest)"
        by (auto simp: not_le)
      have stop: "drainSide sy inc crosses s1 = Some s1"
        using s1(3) by (simp add: drainSide.simps drain_continues_def)
      have "drain_inv sd inc others s1" using s1(2) by (simp add: drain_step_ok_def)
      from drain_result_step [OF less.prems s1(2) drain_result_refl [OF this]] s1 stop True n ok mp a
      show ?thesis
        by (auto simp: drainSide.simps [of sy inc crosses s] abs match_side_partial entry_of_def
            word_le_nat_alt)
    qed
  qed
qed

end
