(* ===== verification/Book_Ops.thy ===== *)
theory Book_Ops
  imports Book_Drain
begin

text \<open>
  The two other ways the book changes, on one side: \<^verbatim>\<open>restOrder\<close> appends the incoming order to
  the level of its price (creating it), which is \<open>insert_rest\<close> of the specification, and
  \<^verbatim>\<open>cancelOrder\<close> takes exactly the order with the given id out.  Then the scan
  \<^verbatim>\<open>availableFill\<close> of fill-or-kill orders, which decides whether the acceptable liquidity
  suffices.
\<close>

section \<open>Resting\<close>

lemma insert_rest_split:
  assumes "\<forall>e\<in>set xs. \<not> lt p (fst (fst e))" and "\<forall>e\<in>set ys. lt p (fst (fst e))"
  shows "insert_rest lt ((p, i), n) (xs @ ys) = xs @ ((p, i), n) # ys"
  using assms by (simp add: insert_rest_def takeWhile_append dropWhile_append takeWhile_none dropWhile_none)

lemma side_price:
  assumes "side_wf sd h s" and "e \<in> set (abs_side h s)"
  shows "\<exists>L. (fst (fst e), L) \<in> set s"
  using assms side_wf_resting by (fastforce simp: abs_side_def)

lemma abs_side_keys:
  assumes "side_wf sd h s" and "\<forall>x\<in>set s. P (fst x)"
  shows "\<forall>e\<in>set (abs_side h s). P (fst (fst e))"
proof
  fix e assume "e \<in> set (abs_side h s)"
  with assms(1) side_price obtain L where "(fst (fst e), L) \<in> set s" by blast
  with assms(2) show "P (fst (fst e))" by fastforce
qed

lemma level_price:
  "level_wf sd h L \<Longrightarrow> e \<in> set (map (entry_of h) (orders L)) \<Longrightarrow> fst (fst e) = lprice L"
  by (auto simp: level_wf_def resting_ok_def)

lemma restOrder_correct:
  assumes wf: "side_wf sd h s" and inc: "resting_ok sd (oprice (h inc)) (h inc)"
    and fits: "rest_qty h (side_refs s) + unat (remainingQty (h inc)) < 2 ^ 64"
  shows "side_wf sd h (restOrder sd inc h s)
    \<and> abs_side h (restOrder sd inc h s) = insert_rest (side_lt sd) (entry_of h inc) (abs_side h s)
    \<and> (\<exists>xs ys. side_refs s = xs @ ys \<and> side_refs (restOrder sd inc h s) = xs @ inc # ys)
    \<and> fst ` set (restOrder sd inc h s) = insert (oprice (h inc)) (fst ` set s)"
proof -
  define p where "p = oprice (h inc)"
  have ord: "ordered (side_lt sd) s" using wf by (simp add: side_wf_def)
  have e: "entry_of h inc = ((p, oid (h inc)), unat (remainingQty (h inc)))"
    by (simp add: entry_of_def p_def)
  show ?thesis
  proof (cases "smap_find (side_lt sd) p s")
    case None
    from side_cmp.find_split_none [OF ord None] obtain xs ys where
      s: "s = xs @ ys" "\<forall>x\<in>set xs. side_lt sd (fst x) p" "\<forall>y\<in>set ys. side_lt sd p (fst y)"
      and em: "\<And>v. smap_emplace (side_lt sd) p v s = xs @ (p, v) # ys"
      by blast
    let ?L = "level_addOrder h inc (PriceLevel_new p)"
    have r: "restOrder sd inc h s = xs @ (p, ?L) # ys"
      using None em by (simp add: restOrder_def p_def [symmetric])
    have L: "level_wf sd h ?L" "lprice ?L = p" "orders ?L = [inc]"
      using inc level_addOrder_wf [of sd h "PriceLevel_new p" inc] fits
      by (auto simp: PriceLevel_new_def p_def level_addOrder_def)
    have "\<forall>x\<in>set (abs_side h xs). \<not> side_lt sd p (fst (fst x))"
      using wf s side_cmp.lt_asym by (intro abs_side_keys) (auto simp: side_wf_append)
    moreover have "\<forall>y\<in>set (abs_side h ys). side_lt sd p (fst (fst y))"
      using wf s by (intro abs_side_keys) (auto simp: side_wf_append)
    moreover note s(1) L(3)
    ultimately have "abs_side h (restOrder sd inc h s)
        = insert_rest (side_lt sd) (entry_of h inc) (abs_side h s)"
      unfolding r e by (simp add: insert_rest_split) (simp add: e)
    moreover have "side_wf sd h (restOrder sd inc h s)"
      unfolding r using wf s L(1,2)
      by (auto simp: side_wf_append side_wf_Cons intro: side_cmp.lt_trans)
    moreover have "\<exists>xs ys. side_refs s = xs @ ys \<and> side_refs (restOrder sd inc h s) = xs @ inc # ys"
      unfolding r using s(1) L(3) by (intro exI [of _ "side_refs xs"] exI [of _ "side_refs ys"]) simp
    moreover have "fst ` set (restOrder sd inc h s) = insert (oprice (h inc)) (fst ` set s)"
      unfolding r using s(1) by (auto simp: p_def)
    ultimately show ?thesis by blast
  next
    case (Some L)
    from side_cmp.find_split_some [OF ord Some] obtain xs ys where
      s: "s = xs @ (p, L) # ys" "\<forall>x\<in>set xs. side_lt sd (fst x) p" "\<forall>y\<in>set ys. side_lt sd p (fst y)"
      and st: "\<And>v. smap_set (side_lt sd) p v s = xs @ (p, v) # ys"
      by blast
    let ?L = "level_addOrder h inc L"
    have r: "restOrder sd inc h s = xs @ (p, ?L) # ys"
      using Some st by (simp add: restOrder_def p_def [symmetric])
    have L: "level_wf sd h L" "lprice L = p" using wf s(1) by (auto simp: side_wf_append side_wf_Cons)
    then have L': "level_wf sd h ?L" "lprice ?L = p" "orders ?L = orders L @ [inc]"
      using inc fits s(1) level_addOrder_wf [of sd h L inc]
      by (auto simp: p_def level_addOrder_def)
    have "\<forall>x\<in>set (abs_side h xs). \<not> side_lt sd p (fst (fst x))"
      using wf s side_cmp.lt_asym by (intro abs_side_keys) (auto simp: side_wf_append)
    moreover have "\<not> side_lt sd p (fst (fst x))" if "x \<in> set (map (entry_of h) (orders L))" for x
      using level_price [OF L(1) that] L(2) side_cmp.lt_irrefl by simp
    ultimately have before: "\<forall>x\<in>set (abs_side h xs @ map (entry_of h) (orders L)).
        \<not> side_lt sd p (fst (fst x))"
      unfolding set_append ball_Un by blast
    have after: "\<forall>y\<in>set (abs_side h ys). side_lt sd p (fst (fst y))"
      using wf s by (intro abs_side_keys) (auto simp: side_wf_append side_wf_Cons)
    from insert_rest_split [where lt = "side_lt sd" and p = p
        and xs = "abs_side h xs @ map (entry_of h) (orders L)" and ys = "abs_side h ys"
        and i = "oid (h inc)" and n = "unat (remainingQty (h inc))", OF before after] s(1) L'(3)
    have "abs_side h (restOrder sd inc h s) = insert_rest (side_lt sd) (entry_of h inc) (abs_side h s)"
      unfolding r e by (simp add: e)
    moreover have "side_wf sd h (restOrder sd inc h s)"
      unfolding r using wf s L'(1,2) by (auto simp: side_wf_append side_wf_Cons)
    moreover have "\<exists>xs ys. side_refs s = xs @ ys \<and> side_refs (restOrder sd inc h s) = xs @ inc # ys"
      unfolding r using s(1) L'(3)
      by (intro exI [of _ "side_refs xs @ orders L"] exI [of _ "side_refs ys"]) simp
    moreover have "fst ` set (restOrder sd inc h s) = insert (oprice (h inc)) (fst ` set s)"
      unfolding r using s(1) by (auto simp: p_def)
    ultimately show ?thesis by blast
  qed
qed

section \<open>Cancelling\<close>

lemma cancel_on_side_correct:
  assumes wf: "side_wf sd h s" and r: "r \<in> set (side_refs s)"
    and dist: "distinct (map (\<lambda>r. oid (h r)) (side_refs s))"
  shows "\<exists>A B. side_refs s = A @ r # B
    \<and> side_refs (cancel_on_side sd h (oid (h r)) (oprice (h r)) s) = A @ B
    \<and> side_wf sd h (cancel_on_side sd h (oid (h r)) (oprice (h r)) s)
    \<and> fst ` set (cancel_on_side sd h (oid (h r)) (oprice (h r)) s) \<subseteq> fst ` set s"
proof -
  define i p s' where "i = oid (h r)" and "p = oprice (h r)" and "s' = cancel_on_side sd h i p s"
  have ord: "ordered (side_lt sd) s" using wf by (simp add: side_wf_def)
  from side_wf_resting [OF wf r] obtain L where L: "(p, L) \<in> set s" "r \<in> set (orders L)"
    by (auto simp: p_def)
  then have find: "smap_find (side_lt sd) p s = Some L"
    using side_cmp.find_map_of [OF ord] side_cmp.ordered_distinct [OF ord]
    by (simp add: map_of_is_SomeI)
  from side_cmp.find_split_some [OF ord find] obtain xs ys where
    s: "s = xs @ (p, L) # ys"
    and st: "\<And>v. smap_set (side_lt sd) p v s = xs @ (p, v) # ys"
    and er: "smap_erase (side_lt sd) p s = xs @ ys"
    by blast
  have lw: "level_wf sd h L" "lprice L = p" using wf s by (auto simp: side_wf_append side_wf_Cons)
  from level_removeOrder_found [OF lw(1), of i] L(2) obtain us r' vs where
    o: "orders L = us @ r' # vs" "oid (h r') = i"
      "level_removeOrder h i L = (True, L\<lparr>totalQty := totalQty L - remainingQty (h r'), orders := us @ vs\<rparr>)"
      "unat (totalQty L - remainingQty (h r')) = rest_qty h (us @ vs)"
    by (auto simp: i_def)
  have "inj_on (\<lambda>r. oid (h r)) (set (side_refs s))" using dist by (simp add: distinct_map)
  with r o s have [simp]: "r' = r" by (auto simp: i_def inj_on_def)
  let ?L = "L\<lparr>totalQty := totalQty L - remainingQty (h r), orders := us @ vs\<rparr>"
  have s': "s' = (if us @ vs = [] then xs @ ys else xs @ (p, ?L) # ys)"
    using find o(3) st er by (simp add: s'_def cancel_on_side_def level_empty_def Let_def)
  have "level_wf sd h ?L" if "us @ vs \<noteq> []"
    using that lw o(1,4) by (auto simp: level_wf_def)
  then have "side_wf sd h s'"
    using wf s lw(2) by (auto simp: s' side_wf_append side_wf_Cons)
  moreover have "side_refs s = (side_refs xs @ us) @ r # (vs @ side_refs ys)"
    "side_refs s' = (side_refs xs @ us) @ (vs @ side_refs ys)"
    using s o(1) by (auto simp: s')
  moreover have "fst ` set s' \<subseteq> fst ` set s" using s by (auto simp: s')
  ultimately show ?thesis unfolding s'_def i_def p_def by blast
qed

section \<open>The fill-or-kill scan\<close>

lemma takeWhile_level:
  assumes "level_wf sd h L" "lprice L = p"
  shows "takeWhile (\<lambda>e. ok (fst (fst e))) (map (entry_of h) (orders L) @ xs)
     = (if ok p then map (entry_of h) (orders L) @ takeWhile (\<lambda>e. ok (fst (fst e))) xs else [])"
proof -
  have price: "fst (fst e) = p" if "e \<in> set (map (entry_of h) (orders L))" for e
    using level_price [OF assms(1) that] assms(2) by simp
  show ?thesis
  proof (cases "ok p")
    case True
    with price show ?thesis by (subst takeWhile_append2) (auto simp: comp_def)
  next
    case False
    with price have "\<not> ok (oprice (h (hd (orders L))))"
      using assms by (auto simp: level_wf_def resting_ok_def)
    with False assms(1) show ?thesis by (cases "orders L") (auto simp: level_wf_def)
  qed
qed

lemma availableFill_decides:
  assumes "side_wf sd h s" and "unat av + rest_qty h (side_refs s) < 2 ^ 64"
  shows "q \<le> availableFill (Some ok) q av s \<longleftrightarrow>
     unat q \<le> unat av + open_qty (takeWhile (\<lambda>e. ok (fst (fst e))) (abs_side h s))"
  using assms
proof (induction s arbitrary: av)
  case Nil
  then show ?case by (simp add: word_le_nat_alt)
next
  case (Cons e s)
  obtain p L where e: "e = (p, L)" by (cases e)
  have L: "level_wf sd h L" "lprice L = p" "side_wf sd h s"
    using Cons.prems(1) e by (simp_all add: side_wf_Cons)
  have t: "unat (totalQty L) = rest_qty h (orders L)" using L(1) by (simp add: level_wf_def)
  have q: "open_qty (map (entry_of h) (orders L)) = rest_qty h (orders L)"
    by (simp add: rest_qty_def comp_def)
  have add: "unat (av + totalQty L) = unat av + rest_qty h (orders L)"
    using Cons.prems(2) e t by (subst unat_plus_less) auto
  show ?case
  proof (cases "ok p")
    case False
    then show ?thesis by (simp add: e takeWhile_level [OF L(1,2)] word_le_nat_alt)
  next
    case True
    have IH: "q \<le> availableFill (Some ok) q (av + totalQty L) s \<longleftrightarrow>
        unat q \<le> unat (av + totalQty L) + open_qty (takeWhile (\<lambda>e. ok (fst (fst e))) (abs_side h s))"
      using Cons.prems(2) e add by (intro Cons.IH L(3)) simp
    with True add q show ?thesis
      by (auto simp: e takeWhile_level [OF L(1,2)] Let_def word_le_nat_alt)
  qed
qed

lemma takeWhile_abs_side:
  "side_wf sd h s \<Longrightarrow> takeWhile (\<lambda>e. ok (fst (fst e))) (abs_side h s) = abs_side h (takeWhile (\<lambda>e. ok (fst e)) s)"
  by (induction s) (auto simp: side_wf_Cons takeWhile_level)

lemma filter_abs_side:
  assumes "side_wf sd h s"
  shows "filter (\<lambda>e. ok (fst (fst e))) (abs_side h s) = abs_side h (filter (\<lambda>e. ok (fst e)) s)"
  using assms
proof (induction s)
  case (Cons e s)
  obtain p L where e: "e = (p, L)" by (cases e)
  have "filter (\<lambda>e. ok (fst (fst e))) (map (entry_of h) (orders L))
      = (if ok p then map (entry_of h) (orders L) else [])"
    using Cons.prems e level_price [of sd h L] by (auto simp: side_wf_Cons comp_def intro: filter_True)
  with Cons e show ?case by (simp add: side_wf_Cons)
qed simp

lemma abs_side_stop:
  assumes wf: "side_wf (opposite sd) h s"
  shows "\<forall>e\<in>set (dropWhile (\<lambda>e. limit_crosses sd p (fst (fst e))) (abs_side h s)).
    \<not> limit_crosses sd p (fst (fst e))"
proof -
  let ?ok = "limit_crosses sd p"
  have ord: "ordered (side_lt (opposite sd)) s" using wf by (simp add: side_wf_def)
  have "takeWhile (\<lambda>e. ?ok (fst (fst e))) (abs_side h s) = filter (\<lambda>e. ?ok (fst (fst e))) (abs_side h s)"
    using wf limit_cut.takeWhile_cut [OF ord] by (simp add: takeWhile_abs_side filter_abs_side)
  from dropWhile_filter [OF this] show ?thesis by simp
qed

end
