(* ===== verification/Book_Correct.thy ===== *)
theory Book_Correct
  imports Book_Ops
begin

text \<open>
  The public operations of the order book refine the abstract book: \<open>execute_correct\<close> lifts
  the matching loop to the whole book, \<open>book_addOrder_correct\<close> covers the four order types of
  \<^verbatim>\<open>OrderBook::addOrder\<close> and \<open>book_cancel_correct\<close> covers \<^verbatim>\<open>OrderBook::cancelOrder\<close>.  Each also says
  that the book invariant survives, what the operation writes to the shared orders, and
  that it returns at all.
\<close>

section \<open>Executing against the other side\<close>

definition execute_on ::
  "Side \<Rightarrow> OrderRef \<Rightarrow> crosses_fn \<Rightarrow> OrderBook \<Rightarrow> world \<Rightarrow> (Trade list \<times> OrderBook \<times> world) option" where
  "execute_on sd inc crosses b w =
     (if sd = BUY then drain_asks inc crosses b w else drain_bids inc crosses b w)"

lemma drain_at_limit_execute:
  "drain_at_limit inc b w =
     execute_on (oside (heap w inc)) inc (Some (limit_crosses (oside (heap w inc)) (oprice (heap w inc)))) b w"
  by (cases "oside (heap w inc)") (simp_all add: drain_at_limit_def execute_on_def)

text \<open>What an execution writes to the shared orders.\<close>

definition exec_mem ::
  "OrderRef \<Rightarrow> (OrderRef \<Rightarrow> Order) \<Rightarrow> OrderRef list \<Rightarrow> (OrderRef \<Rightarrow> Order) \<Rightarrow> OrderRef list \<Rightarrow> bool" where
  "exec_mem inc h rs h1 rs1 \<longleftrightarrow>
     h1 inc = (h inc)\<lparr>ofilledQty := ofilledQty (h1 inc)\<rparr> \<and>
     (\<forall>r. r \<noteq> inc \<longrightarrow> r \<notin> set rs \<longrightarrow> h1 r = h r) \<and>
     (\<forall>r\<in>set rs. same_static (h1 r) (h r)) \<and>
     set rs1 \<subseteq> set rs \<and>
     (\<forall>r\<in>set rs - set rs1. isFilled (h1 r) \<and> ostatus (h1 r) = FILLED) \<and>
     (\<forall>r\<in>set rs1. h1 r = h r \<or> ostatus (h1 r) = PARTIALLY_FILLED)"

definition trades_ok :: "Symbol \<Rightarrow> OrderId \<Rightarrow> world \<Rightarrow> Trade list \<Rightarrow> world \<Rightarrow> bool" where
  "trades_ok sy taker w ts w1 \<longleftrightarrow>
     (\<forall>t\<in>set ts. tsymbol t = sy \<and> takerOrderId t = taker) \<and>
     map ttimestamp ts = map (clock w) [ticks w..<ticks w1] \<and>
     clock w1 = clock w \<and> ticks w1 = ticks w + length ts"

definition executes ::
  "Side \<Rightarrow> (Price \<Rightarrow> bool) \<Rightarrow> OrderRef \<Rightarrow> OrderBook \<Rightarrow> world \<Rightarrow> Trade list \<Rightarrow> OrderBook \<Rightarrow> world \<Rightarrow> bool" where
  "executes sd ok inc b w ts b1 w1 \<longleftrightarrow>
     book_wf (heap w1) b1 \<and> book_symbol b1 = book_symbol b \<and>
     (map abs_trade ts, abs_book (heap w1) b1)
        = spec_execute sd ok (unat (remainingQty (heap w inc))) (abs_book (heap w) b) \<and>
     unat (remainingQty (heap w1 inc))
        = unat (remainingQty (heap w inc)) - open_qty (map abs_trade ts) \<and>
     ofilledQty (heap w1 inc) \<le> oquantity (heap w inc) \<and>
     exec_mem inc (heap w) (book_refs b) (heap w1) (book_refs b1) \<and>
     trades_ok (book_symbol b) (oid (heap w inc)) w ts w1"

lemma drain_side_core:
  fixes w S Other ix inc
  defines "s0 \<equiv> \<lparr>d_side = S, d_index = ix, d_world = w, d_trades = []\<rparr>"
  assumes S: "side_wf sd (heap w) S" and Other: "side_wf sd' (heap w) Other"
    and dist: "distinct (map (\<lambda>r. oid (heap w r)) (side_refs S @ side_refs Other))"
    and ix: "index_ok (heap w) ix (side_refs S @ side_refs Other)"
    and inc: "inc \<notin> set (side_refs S @ side_refs Other)"
    and fl: "ofilledQty (heap w inc) \<le> oquantity (heap w inc)"
  shows "\<exists>s'. drainSide sy inc crosses s0 = Some s' \<and>
     drain_result sy sd inc (side_refs Other) s0
       (match_side (crosses_pred crosses) (unat (remainingQty (heap w inc))) (abs_side (heap w) S)) s' \<and>
     (\<forall>r\<in>set (side_refs Other). d_heap s' r = heap w r) \<and> side_wf sd' (d_heap s') Other"
proof -
  have "drain_inv sd inc (side_refs Other) s0"
    using S dist ix inc fl by (simp add: drain_inv_def s0_def Let_def)
  from drainSide_refines [OF this, of sy crosses] obtain s' where
    s': "drainSide sy inc crosses s0 = Some s'"
      "drain_result sy sd inc (side_refs Other) s0
       (match_side (crosses_pred crosses) (unat (remainingQty (heap w inc))) (abs_side (heap w) S)) s'"
    by (auto simp: s0_def)
  from s'(2) have mem: "drain_mem inc s0 s'" by (simp add: drain_result_def)
  have "inj_on (\<lambda>r. oid (heap w r)) (set (side_refs S @ side_refs Other))"
    and "distinct (side_refs S @ side_refs Other)"
    using dist by (simp_all only: distinct_map)
  then have frame: "\<forall>r\<in>set (side_refs Other). d_heap s' r = heap w r"
    using mem inc by (auto simp: drain_mem_def Let_def s0_def)
  then have "side_wf sd' (d_heap s') Other"
    using Other side_wf_cong [of Other "d_heap s'" "heap w" sd'] by simp
  with s' frame show ?thesis by blast
qed

lemma drain_result_mem:
  assumes res: "drain_result sy sd inc others s m s'"
    and rs: "set rs = set (side_refs (d_side s)) \<union> set others"
    and rs1: "set rs1 = set (side_refs (d_side s')) \<union> set others"
    and others: "\<forall>r\<in>set others. d_heap s' r = d_heap s r"
  shows "exec_mem inc (d_heap s) rs (d_heap s') rs1"
  using res others unfolding drain_result_def drain_mem_def Let_def exec_mem_def rs rs1
  by (elim conjE exE) (auto simp: rs rs1)

lemma drain_result_trades:
  assumes "drain_result sy sd inc others s m s'" and "d_trades s = []"
  shows "trades_ok sy (oid (d_heap s inc)) (d_world s) (d_trades s') (d_world s')
    \<and> map abs_trade (d_trades s') = fst m"
  using assms by (auto simp: drain_result_def trades_ok_def drain_trades_def drain_mem_def Let_def)

lemma exec_mem_taker: "exec_mem inc h rs h1 rs1 \<Longrightarrow> oquantity (h1 inc) = oquantity (h inc)"
  unfolding exec_mem_def by (elim conjE) (metis Order.select_convs(6) Order.surjective Order.update_convs(7))

lemma match_side_shrinks:
  "abs_side h1 S1 = snd (match_side ok q (abs_side h S)) \<Longrightarrow>
     rest_qty h1 (side_refs S1) \<le> rest_qty h (side_refs S)"
  using match_side_conserves [of ok q "abs_side h S"] by (simp flip: open_qty_abs_side)

lemma drain_result_wf:
  assumes "drain_result sy sd inc others s m s'"
  shows "side_wf sd (d_heap s') (d_side s')"
    and "distinct (map (\<lambda>r. oid (d_heap s' r)) (side_refs (d_side s') @ others))"
    and "index_ok (d_heap s') (d_index s') (side_refs (d_side s') @ others)"
    and "ofilledQty (d_heap s' inc) \<le> oquantity (d_heap s' inc)"
    and "fst ` set (d_side s') \<subseteq> fst ` set (d_side s)"
  using assms by (auto simp: drain_result_def drain_inv_def drain_mem_def Let_def)

lemma uncrossed_subset:
  assumes "uncrossed b" and "fst ` set (bids b') \<subseteq> fst ` set (bids b)"
    and "fst ` set (asks b') \<subseteq> fst ` set (asks b)"
  shows "uncrossed b'"
  unfolding uncrossed_def
proof (intro ballI)
  fix x y assume "x \<in> set (bids b')" "y \<in> set (asks b')"
  with assms(2,3) have "fst x \<in> fst ` set (bids b)" "fst y \<in> fst ` set (asks b)"
    by blast+
  then obtain x' y' where "x' \<in> set (bids b)" "fst x = fst x'" "y' \<in> set (asks b)" "fst y = fst y'"
    by (elim imageE)
  with assms(1) show "fst x < fst y" by (simp add: uncrossed_def)
qed

lemma index_ok_swap: "index_ok h ix (xs @ ys) \<Longrightarrow> index_ok h ix (ys @ xs)"
  by (simp add: index_ok_def Un_commute)

lemma execute_correct:
  assumes wf: "book_wf (heap w) b" and inc: "inc \<notin> set (book_refs b)"
    and fl: "ofilledQty (heap w inc) \<le> oquantity (heap w inc)"
  shows "\<exists>ts b1 w1. execute_on sd inc crosses b w = Some (ts, b1, w1)
    \<and> executes sd (crosses_pred crosses) inc b w ts b1 w1
    \<and> (if sd = BUY then bids b1 = bids b \<and> abs_side (heap w1) (bids b) = abs_side (heap w) (bids b)
       else asks b1 = asks b \<and> abs_side (heap w1) (asks b) = abs_side (heap w) (asks b))"
proof (cases sd)
  case BUY
  let ?s0 = "\<lparr>d_side = asks b, d_index = index b, d_world = w, d_trades = []\<rparr>"
  let ?m = "match_side (crosses_pred crosses) (unat (remainingQty (heap w inc))) (abs_side (heap w) (asks b))"
  have "index_ok (heap w) (index b) (side_refs (asks b) @ side_refs (bids b))"
    using wf index_ok_swap by (auto simp: book_wf_def book_refs_def)
  with wf inc fl drain_side_core [of SELL w "asks b" BUY "bids b" "index b" inc "book_symbol b" crosses]
  obtain s' where s': "drainSide (book_symbol b) inc crosses ?s0 = Some s'"
    "drain_result (book_symbol b) SELL inc (side_refs (bids b)) ?s0 ?m s'"
    "\<forall>r\<in>set (side_refs (bids b)). d_heap s' r = heap w r" "side_wf BUY (d_heap s') (bids b)"
    by (auto simp: book_wf_def book_refs_def)
  let ?b1 = "b\<lparr>asks := d_side s', index := d_index s'\<rparr>"
  note R = drain_result_wf [OF s'(2)]
  have mem: "exec_mem inc (heap w) (book_refs b) (d_heap s') (book_refs ?b1)"
    using drain_result_mem [OF s'(2), of "book_refs b" "book_refs ?b1"] s'(3)
    by (auto simp: book_refs_def)
  note tr = drain_result_trades [OF s'(2)]
  have frame: "rest_qty (d_heap s') (side_refs (bids b)) = rest_qty (heap w) (side_refs (bids b))"
    "abs_side (d_heap s') (bids b) = abs_side (heap w) (bids b)"
    using s'(3) by (auto intro: rest_qty_cong abs_side_cong)
  have less: "rest_qty (d_heap s') (side_refs (d_side s')) < 2 ^ 64"
    using match_side_shrinks [where h = "heap w" and S = "asks b"] s'(2) wf
    by (fastforce simp: drain_result_def book_wf_def intro: le_less_trans)
  have "book_wf (d_heap s') ?b1"
    using R s'(4) wf frame less uncrossed_subset [of b ?b1]
      index_ok_swap [of "d_heap s'" "d_index s'" "side_refs (d_side s')"]
    by (auto simp: book_wf_def book_refs_def)
  then have "executes sd (crosses_pred crosses) inc b w (d_trades s') ?b1 (d_world s')"
    using tr s'(2) R(4) frame mem exec_mem_taker [OF mem] BUY
    by (auto simp: executes_def spec_execute_def abs_book_def drain_result_def case_prod_beta)
  with s'(1) frame BUY show ?thesis by (simp add: execute_on_def drain_asks_def)
next
  case SELL
  let ?s0 = "\<lparr>d_side = bids b, d_index = index b, d_world = w, d_trades = []\<rparr>"
  let ?m = "match_side (crosses_pred crosses) (unat (remainingQty (heap w inc))) (abs_side (heap w) (bids b))"
  from wf inc fl drain_side_core [of BUY w "bids b" SELL "asks b" "index b" inc "book_symbol b" crosses]
  obtain s' where s': "drainSide (book_symbol b) inc crosses ?s0 = Some s'"
    "drain_result (book_symbol b) BUY inc (side_refs (asks b)) ?s0 ?m s'"
    "\<forall>r\<in>set (side_refs (asks b)). d_heap s' r = heap w r" "side_wf SELL (d_heap s') (asks b)"
    by (auto simp: book_wf_def book_refs_def)
  let ?b1 = "b\<lparr>bids := d_side s', index := d_index s'\<rparr>"
  note R = drain_result_wf [OF s'(2)]
  have mem: "exec_mem inc (heap w) (book_refs b) (d_heap s') (book_refs ?b1)"
    using drain_result_mem [OF s'(2), of "book_refs b" "book_refs ?b1"] s'(3)
    by (auto simp: book_refs_def)
  note tr = drain_result_trades [OF s'(2)]
  have frame: "rest_qty (d_heap s') (side_refs (asks b)) = rest_qty (heap w) (side_refs (asks b))"
    "abs_side (d_heap s') (asks b) = abs_side (heap w) (asks b)"
    using s'(3) by (auto intro: rest_qty_cong abs_side_cong)
  have less: "rest_qty (d_heap s') (side_refs (d_side s')) < 2 ^ 64"
    using match_side_shrinks [where h = "heap w" and S = "bids b"] s'(2) wf
    by (fastforce simp: drain_result_def book_wf_def intro: le_less_trans)
  have "book_wf (d_heap s') ?b1"
    using R s'(4) wf frame less uncrossed_subset [of b ?b1]
    by (auto simp: book_wf_def book_refs_def)
  then have "executes sd (crosses_pred crosses) inc b w (d_trades s') ?b1 (d_world s')"
    using tr s'(2) R(4) frame mem exec_mem_taker [OF mem] SELL
    by (auto simp: executes_def spec_execute_def abs_book_def drain_result_def case_prod_beta)
  with s'(1) frame SELL show ?thesis by (simp add: execute_on_def drain_bids_def)
qed

end
