(* ===== verification/Book_Add.thy ===== *)
theory Book_Add
  imports Book_Correct
begin

text \<open>
  \<^verbatim>\<open>OrderBook::addOrder\<close> for the four order types and \<^verbatim>\<open>OrderBook::cancelOrder\<close>: functional
  refinement of \<open>spec_add\<close> and \<open>spec_cancel\<close>, the status the incoming order ends with,
  preservation of the book invariant, and the frame of each operation.
\<close>

section \<open>Writing a status outside the book\<close>

lemma book_wf_set_status:
  "inc \<notin> set (book_refs b) \<Longrightarrow> book_wf (heap (set_status inc S w)) b = book_wf (heap w) b"
  by (rule book_wf_cong) (auto simp: world_simps)

lemma abs_book_set_status:
  "inc \<notin> set (book_refs b) \<Longrightarrow> abs_book (heap (set_status inc S w)) b = abs_book (heap w) b"
  by (rule abs_book_cong) (auto simp: world_simps)

section \<open>Resting the remainder on the book\<close>

definition rest_book :: "OrderRef \<Rightarrow> (OrderRef \<Rightarrow> Order) \<Rightarrow> OrderBook \<Rightarrow> OrderBook" where
  "rest_book inc h b =
     (if oside (h inc) = BUY
      then b\<lparr>bids := restOrder BUY inc h (bids b), index := index_order inc h (index b)\<rparr>
      else b\<lparr>asks := restOrder SELL inc h (asks b), index := index_order inc h (index b)\<rparr>)"

definition own_refs :: "Side \<Rightarrow> OrderBook \<Rightarrow> OrderRef list" where
  "own_refs sd b = (if sd = BUY then side_refs (bids b) else side_refs (asks b))"

definition no_cross :: "Side \<Rightarrow> Price \<Rightarrow> OrderBook \<Rightarrow> bool" where
  "no_cross sd p b \<longleftrightarrow>
     (if sd = BUY then \<forall>y\<in>set (asks b). p < fst y else \<forall>x\<in>set (bids b). fst x < p)"

lemma rest_book_correct:
  assumes wf: "book_wf h b" and ids: "oid (h inc) \<notin> (\<lambda>r. oid (h r)) ` set (book_refs b)"
    and inc: "resting_ok (oside (h inc)) (oprice (h inc)) (h inc)"
    and fits: "rest_qty h (own_refs (oside (h inc)) b) + unat (remainingQty (h inc)) < 2 ^ 64"
    and nc: "no_cross (oside (h inc)) (oprice (h inc)) b"
  shows "book_wf h (rest_book inc h b) \<and> set (book_refs (rest_book inc h b)) = insert inc (set (book_refs b))
    \<and> abs_book h (rest_book inc h b)
        = spec_rest (oside (h inc)) (oprice (h inc)) (oid (h inc)) (unat (remainingQty (h inc))) (abs_book h b)"
proof (cases "oside (h inc)")
  case BUY
  let ?b = "rest_book inc h b"
  have "resting_ok BUY (oprice (h inc)) (h inc)" using inc BUY by simp
  from restOrder_correct [of BUY h "bids b", OF _ this] wf fits BUY obtain xs ys where
    r: "side_wf BUY h (bids ?b)" "side_refs (bids b) = xs @ ys" "side_refs (bids ?b) = xs @ inc # ys"
      "abs_side h (bids ?b) = insert_rest (side_lt BUY) (entry_of h inc) (abs_side h (bids b))"
      "fst ` set (bids ?b) = insert (oprice (h inc)) (fst ` set (bids b))"
    by (auto simp: rest_book_def own_refs_def book_wf_def)
  have a: "asks ?b = asks b" using BUY by (simp add: rest_book_def)
  have refs: "set (book_refs ?b) = insert inc (set (book_refs b))"
    using r(2,3) a by (auto simp: book_refs_def)
  have "index_ok h (index ?b) (book_refs ?b)"
    using wf ids refs BUY index_ok_insert [of h "index b" "book_refs b" inc "book_refs ?b"]
    by (simp add: rest_book_def book_wf_def)
  moreover have "distinct (map (\<lambda>r. oid (h r)) (book_refs ?b))"
    using wf ids r(2,3) a by (auto simp: book_wf_def book_refs_def)
  moreover have "uncrossed ?b"
  proof -
    have "\<forall>k\<in>fst ` set (bids ?b). \<forall>y\<in>set (asks b). k < fst y"
      using wf nc BUY unfolding r(5) by (auto simp: book_wf_def uncrossed_def no_cross_def)
    then show ?thesis by (simp add: uncrossed_def a)
  qed
  ultimately have "book_wf h ?b"
    using wf fits r a BUY by (auto simp: book_wf_def own_refs_def)
  moreover have "unat (remainingQty (h inc)) \<noteq> 0" using resting_remaining_pos [OF inc] by simp
  ultimately show ?thesis
    using refs r(4) a BUY
    by (simp add: abs_book_def spec_rest_def rest_remainder_def entry_of_def)
next
  case SELL
  let ?b = "rest_book inc h b"
  have "resting_ok SELL (oprice (h inc)) (h inc)" using inc SELL by simp
  from restOrder_correct [of SELL h "asks b", OF _ this] wf fits SELL obtain xs ys where
    r: "side_wf SELL h (asks ?b)" "side_refs (asks b) = xs @ ys" "side_refs (asks ?b) = xs @ inc # ys"
      "abs_side h (asks ?b) = insert_rest (side_lt SELL) (entry_of h inc) (abs_side h (asks b))"
      "fst ` set (asks ?b) = insert (oprice (h inc)) (fst ` set (asks b))"
    by (auto simp: rest_book_def own_refs_def book_wf_def)
  have a: "bids ?b = bids b" using SELL by (simp add: rest_book_def)
  have refs: "set (book_refs ?b) = insert inc (set (book_refs b))"
    using r(2,3) a by (auto simp: book_refs_def)
  have "index_ok h (index ?b) (book_refs ?b)"
    using wf ids refs SELL index_ok_insert [of h "index b" "book_refs b" inc "book_refs ?b"]
    by (simp add: rest_book_def book_wf_def)
  moreover have "distinct (map (\<lambda>r. oid (h r)) (book_refs ?b))"
    using wf ids r(2,3) a by (auto simp: book_wf_def book_refs_def)
  moreover have "uncrossed ?b"
  proof -
    have "\<forall>x\<in>set (bids b). \<forall>k\<in>fst ` set (asks ?b). fst x < k"
      using wf nc SELL unfolding r(5) by (auto simp: book_wf_def uncrossed_def no_cross_def)
    then show ?thesis by (simp add: uncrossed_def a)
  qed
  ultimately have "book_wf h ?b"
    using wf fits r a SELL by (auto simp: book_wf_def own_refs_def)
  moreover have "unat (remainingQty (h inc)) \<noteq> 0" using resting_remaining_pos [OF inc] by simp
  ultimately show ?thesis
    using refs r(4) a SELL
    by (simp add: abs_book_def spec_rest_def rest_remainder_def entry_of_def)
qed

section \<open>An order that is not used up has nothing left to cross\<close>

lemma side_key_entry:
  assumes "side_wf sd h s" and "y \<in> set s"
  shows "\<exists>e\<in>set (abs_side h s). fst (fst e) = fst y"
proof -
  obtain p L where y: "y = (p, L)" by (cases y)
  with assms have "lprice L = p" "level_wf sd h L" by (auto simp: side_wf_def)
  then have r: "hd (orders L) \<in> set (orders L)" "oprice (h (hd (orders L))) = p"
    by (auto simp: level_wf_def resting_ok_def)
  then have "hd (orders L) \<in> set (side_refs s)" using assms(2) y by (auto simp: set_side_refs)
  with r y show ?thesis by (intro bexI [of _ "entry_of h (hd (orders L))"]) (auto simp: abs_side_def)
qed

lemma executes_exhausts:
  assumes ex: "executes sd (limit_crosses sd p) inc b w ts b1 w1"
    and wf: "book_wf (heap w) b"
    and left: "0 < unat (remainingQty (heap w1 inc))"
  shows "no_cross sd p b1"
proof (cases sd)
  case BUY
  have "open_qty (fst (match_side (limit_crosses BUY p) (unat (remainingQty (heap w inc))) (abs_side (heap w) (asks b))))
      < unat (remainingQty (heap w inc))"
    using ex left BUY by (auto simp del: map_map simp: executes_def spec_execute_def abs_book_def case_prod_beta)
  from match_side_exhausts [OF this] ex BUY
  have stop: "abs_side (heap w1) (asks b1) = dropWhile (\<lambda>e. limit_crosses BUY p (fst (fst e))) (abs_side (heap w) (asks b))"
    by (auto simp: executes_def spec_execute_def abs_book_def case_prod_beta)
  have "side_wf SELL (heap w1) (asks b1)" using ex by (simp add: executes_def book_wf_def)
  from side_key_entry [OF this] have "\<not> limit_crosses BUY p (fst y)" if "y \<in> set (asks b1)" for y
    using that abs_side_stop [of BUY "heap w" "asks b" p] wf stop by (metis book_wf_def opposite_simps)
  with BUY show ?thesis by (auto simp: no_cross_def not_le [symmetric])
next
  case SELL
  have "open_qty (fst (match_side (limit_crosses SELL p) (unat (remainingQty (heap w inc))) (abs_side (heap w) (bids b))))
      < unat (remainingQty (heap w inc))"
    using ex left SELL by (auto simp del: map_map simp: executes_def spec_execute_def abs_book_def case_prod_beta)
  from match_side_exhausts [OF this] ex SELL
  have stop: "abs_side (heap w1) (bids b1) = dropWhile (\<lambda>e. limit_crosses SELL p (fst (fst e))) (abs_side (heap w) (bids b))"
    by (auto simp: executes_def spec_execute_def abs_book_def case_prod_beta)
  have "side_wf BUY (heap w1) (bids b1)" using ex by (simp add: executes_def book_wf_def)
  from side_key_entry [OF this] have "\<not> limit_crosses SELL p (fst y)" if "y \<in> set (bids b1)" for y
    using that abs_side_stop [of SELL "heap w" "bids b" p] wf stop by (metis book_wf_def opposite_simps)
  with SELL show ?thesis by (auto simp: no_cross_def not_le [symmetric])
qed

section \<open>Adding an order\<close>

fun status_after :: "OrderType \<Rightarrow> nat \<Rightarrow> nat \<Rightarrow> OrderStatus" where
  "status_after MARKET q f = (if f = q then FILLED else PARTIALLY_FILLED)"
| "status_after IOC q f = (if f = q then FILLED else if 0 < f then PARTIALLY_FILLED else CANCELLED)"
| "status_after FOK q f = (if f = q then FILLED else CANCELLED)"
| "status_after _ q f = (if f = 0 then ACCEPTED else if f = q then FILLED else PARTIALLY_FILLED)"

definition may_rest :: "OrderType \<Rightarrow> bool" where
  "may_rest ty \<longleftrightarrow> ty = LIMIT \<or> ty = CANCEL"

definition can_add :: "(OrderRef \<Rightarrow> Order) \<Rightarrow> OrderRef \<Rightarrow> OrderBook \<Rightarrow> bool" where
  "can_add h inc b \<longleftrightarrow>
     oid (h inc) \<notin> (\<lambda>r. oid (h r)) ` set (book_refs b) \<and> ofilledQty (h inc) = 0 \<and>
     (may_rest (otype (h inc)) \<longrightarrow>
        rest_qty h (own_refs (oside (h inc)) b) + unat (oquantity (h inc)) < 2 ^ 64)"

definition add_mem ::
  "OrderRef \<Rightarrow> (OrderRef \<Rightarrow> Order) \<Rightarrow> OrderRef list \<Rightarrow> (OrderRef \<Rightarrow> Order) \<Rightarrow> OrderRef list \<Rightarrow> bool" where
  "add_mem inc h rs h' rs' \<longleftrightarrow>
     (\<forall>r. r \<noteq> inc \<longrightarrow> r \<notin> set rs \<longrightarrow> h' r = h r) \<and>
     (\<forall>r\<in>set rs. same_static (h' r) (h r)) \<and>
     set rs' - {inc} \<subseteq> set rs \<and>
     (\<forall>r\<in>set rs - set rs'. isFilled (h' r) \<and> ostatus (h' r) = FILLED) \<and>
     (\<forall>r\<in>set rs \<inter> set rs'. h' r = h r \<or> ostatus (h' r) = PARTIALLY_FILLED)"

definition added ::
  "OrderRef \<Rightarrow> OrderBook \<Rightarrow> world \<Rightarrow> Trade list \<Rightarrow> OrderBook \<Rightarrow> world \<Rightarrow> bool" where
  "added inc b w ts b' w' \<longleftrightarrow>
     (let o1 = heap w inc; q = unat (oquantity o1); f = open_qty (map abs_trade ts) in
      book_wf (heap w') b' \<and> book_symbol b' = book_symbol b \<and>
      (map abs_trade ts, abs_book (heap w') b')
         = spec_add (oside o1) (otype o1) (oprice o1) (oid o1) q (abs_book (heap w) b) \<and>
      f \<le> q \<and>
      heap w' inc = o1\<lparr>ofilledQty := of_nat f, ostatus := status_after (otype o1) q f\<rparr> \<and>
      (inc \<in> set (book_refs b') \<longleftrightarrow> may_rest (otype o1) \<and> f < q) \<and>
      add_mem inc (heap w) (book_refs b) (heap w') (book_refs b') \<and>
      trades_ok (book_symbol b) (oid o1) w ts w')"

lemma spec_execute_le: "open_qty (fst (spec_execute sd ok q ab)) \<le> q"
  by (simp del: map_map add: spec_execute_def case_prod_beta match_side_total)

lemma can_add_fresh: "can_add h inc b \<Longrightarrow> inc \<notin> set (book_refs b)"
  by (auto simp: can_add_def)

text \<open>The state of the incoming order after an execution that starts unfilled.\<close>

lemma executes_taker:
  assumes ex: "executes sd ok inc b w ts b1 w1" and z: "ofilledQty (heap w inc) = 0"
  shows "open_qty (map abs_trade ts) \<le> unat (oquantity (heap w inc))"
    and "heap w1 inc = (heap w inc)\<lparr>ofilledQty := of_nat (open_qty (map abs_trade ts))\<rparr>"
    and "unat (ofilledQty (heap w1 inc)) = open_qty (map abs_trade ts)"
    and "isFilled (heap w1 inc) \<longleftrightarrow> open_qty (map abs_trade ts) = unat (oquantity (heap w inc))"
    and "unat (remainingQty (heap w1 inc)) = unat (oquantity (heap w inc)) - open_qty (map abs_trade ts)"
proof -
  let ?f = "open_qty (map abs_trade ts)" and ?q = "unat (oquantity (heap w inc))"
  have q: "remainingQty (heap w inc) = oquantity (heap w inc)" using z by (simp add: remainingQty_def)
  have "map abs_trade ts = fst (spec_execute sd ok ?q (abs_book (heap w) b))"
    using ex q by (auto simp: executes_def dest: arg_cong [of _ _ fst])
  then show le: "?f \<le> ?q" by (simp only: spec_execute_le)
  show rem: "unat (remainingQty (heap w1 inc)) = ?q - ?f" using ex q by (simp add: executes_def)
  have mem: "exec_mem inc (heap w) (book_refs b) (heap w1) (book_refs b1)"
    using ex by (simp add: executes_def)
  then have up: "heap w1 inc = (heap w inc)\<lparr>ofilledQty := ofilledQty (heap w1 inc)\<rparr>"
    by (simp add: exec_mem_def)
  have qq: "oquantity (heap w1 inc) = oquantity (heap w inc)" by (rule exec_mem_taker [OF mem])
  have fq: "ofilledQty (heap w1 inc) \<le> oquantity (heap w1 inc)" using ex qq by (simp add: executes_def)
  then show f: "unat (ofilledQty (heap w1 inc)) = ?f"
    using rem le qq remaining_unat [OF fq] by (simp add: word_le_nat_alt)
  then have "ofilledQty (heap w1 inc) = of_nat ?f" by (rule unat_eq_of_nat)
  with up show "heap w1 inc = (heap w inc)\<lparr>ofilledQty := of_nat ?f\<rparr>" by simp
  show "isFilled (heap w1 inc) \<longleftrightarrow> ?f = ?q"
    using f le qq by (auto simp: isFilled_def word_le_nat_alt)
qed

lemma exec_add_mem:
  assumes "exec_mem inc h rs h1 rs1" and "inc \<notin> set rs"
    and "set rs' - {inc} = set rs1" and "\<And>r. r \<noteq> inc \<Longrightarrow> h' r = h1 r"
  shows "add_mem inc h rs h' rs'"
proof -
  from assms(2,3) have r: "set rs' \<inter> set rs = set rs1 \<inter> set rs" "set rs - set rs' = set rs - set rs1"
    by blast+
  have h': "h' r = h1 r" if "r \<in> set rs" for r using assms(2,4) that by metis
  show ?thesis
    using assms(1,3,4) h' unfolding exec_mem_def add_mem_def r(2) Int_commute [of "set rs"] r(1)
    by (simp add: subset_iff)
qed

lemma add_mem_before:
  assumes "add_mem inc h0 rs h' rs'" and "inc \<notin> set rs" and "\<And>r. r \<noteq> inc \<Longrightarrow> h0 r = h r"
  shows "add_mem inc h rs h' rs'"
proof -
  have e: "h r = h0 r" if "r \<in> set rs" for r using that assms(2,3) by metis
  show ?thesis using assms(1,3) e unfolding add_mem_def by simp
qed

lemma trades_ok_status:
  "trades_ok sy i (set_status inc S w) ts (set_status inc S' w1) = trades_ok sy i w ts w1"
  "trades_ok sy i (set_status inc S w) ts w1 = trades_ok sy i w ts w1"
  by (simp_all add: trades_ok_def world_simps)

lemma executes_status:
  assumes "inc \<notin> set (book_refs b)"
  shows "executes sd ok inc b (set_status inc S w) ts b1 w1 \<Longrightarrow>
    (map abs_trade ts, abs_book (heap w1) b1)
        = spec_execute sd ok (unat (remainingQty (heap w inc))) (abs_book (heap w) b) \<and>
    exec_mem inc (heap (set_status inc S w)) (book_refs b) (heap w1) (book_refs b1) \<and>
    inc \<notin> set (book_refs b1) \<and> book_wf (heap w1) b1 \<and> book_symbol b1 = book_symbol b \<and>
    trades_ok (book_symbol b) (oid (heap w inc)) w ts w1"
  using assms by (auto simp: executes_def abs_book_set_status world_simps trades_ok_status exec_mem_def)

text \<open>The order types that never rest only write the final status.\<close>

lemma added_no_rest:
  assumes ca: "can_add (heap w) inc b" and ty: "\<not> may_rest (otype (heap w inc))"
    and ex: "executes (oside (heap w inc)) ok inc b (set_status inc ACCEPTED w) ts b1 w1"
    and spec: "spec_add (oside (heap w inc)) (otype (heap w inc)) (oprice (heap w inc)) (oid (heap w inc))
        (unat (oquantity (heap w inc))) (abs_book (heap w) b)
      = spec_execute (oside (heap w inc)) ok (unat (oquantity (heap w inc))) (abs_book (heap w) b)"
    and st: "S = status_after (otype (heap w inc)) (unat (oquantity (heap w inc))) (open_qty (map abs_trade ts))"
  shows "added inc b w ts b1 (set_status inc S w1)"
proof -
  let ?o = "heap w inc" and ?f = "open_qty (map abs_trade ts)"
  have inc: "inc \<notin> set (book_refs b)" using ca by (rule can_add_fresh)
  have z: "ofilledQty ?o = 0" using ca by (simp add: can_add_def)
  then have q: "remainingQty ?o = oquantity ?o" by (simp add: remainingQty_def)
  have "ofilledQty (heap (set_status inc ACCEPTED w) inc) = 0" using z by (simp add: world_simps)
  note T = executes_taker [OF ex this]
  note E = executes_status [OF inc ex]
  have "add_mem inc (heap w) (book_refs b) (heap (set_status inc S w1)) (book_refs b1)"
  proof -
    have "exec_mem inc (heap (set_status inc ACCEPTED w)) (book_refs b) (heap w1) (book_refs b1)"
      using E by simp
    from exec_add_mem [OF this inc, of "book_refs b1" "heap (set_status inc S w1)"] E
    have "add_mem inc (heap (set_status inc ACCEPTED w)) (book_refs b) (heap (set_status inc S w1)) (book_refs b1)"
      by (simp add: world_simps)
    then show ?thesis using inc by (rule add_mem_before) (simp add: world_simps)
  qed
  then show ?thesis
    using E T(1,2) q spec st ty
    by (simp del: map_map add: added_def Let_def book_wf_set_status abs_book_set_status
        trades_ok_def world_simps)
qed

text \<open>Limit orders rest their remainder, if there is one.\<close>

lemma added_limit:
  assumes wf: "book_wf (heap w) b" and ca: "can_add (heap w) inc b"
    and ty: "may_rest (otype (heap w inc))"
    and ex: "executes (oside (heap w inc)) (limit_crosses (oside (heap w inc)) (oprice (heap w inc)))
               inc b (set_status inc ACCEPTED w) ts b1 w1"
    and own: "rest_qty (heap w1) (own_refs (oside (heap w inc)) b1)
               = rest_qty (heap w) (own_refs (oside (heap w inc)) b)"
    and S: "S = status_after (otype (heap w inc)) (unat (oquantity (heap w inc))) (open_qty (map abs_trade ts))"
    and w2: "w2 = set_status inc S w1"
    and b2: "b2 = (if isFilled (heap w2 inc) then b1 else rest_book inc (heap w2) b1)"
  shows "added inc b w ts b2 w2"
proof -
  let ?o = "heap w inc" and ?f = "open_qty (map abs_trade ts)"
  let ?q = "unat (oquantity ?o)"
  have inc: "inc \<notin> set (book_refs b)" using ca by (rule can_add_fresh)
  have z: "ofilledQty ?o = 0" using ca by (simp add: can_add_def)
  then have q: "remainingQty ?o = oquantity ?o" by (simp add: remainingQty_def)
  have "ofilledQty (heap (set_status inc ACCEPTED w) inc) = 0" using z by (simp add: world_simps)
  note T = executes_taker [OF ex this]
  note E = executes_status [OF inc ex]
  have inc1: "inc \<notin> set (book_refs b1)" using E by simp
  have h2: "heap w2 inc = ?o\<lparr>ofilledQty := of_nat ?f, ostatus := S\<rparr>"
    using T(2) by (simp del: map_map add: w2 world_simps)
  have wf1: "book_wf (heap w2) b1" "abs_book (heap w2) b1 = abs_book (heap w1) b1"
    using E inc1 by (simp_all add: w2 book_wf_set_status abs_book_set_status)
  have rem: "unat (remainingQty (heap w2 inc)) = ?q - ?f"
    using T(5) by (simp del: map_map add: w2 world_simps)
  have fill: "isFilled (heap w2 inc) \<longleftrightarrow> ?f = ?q"
    using T(4) by (simp del: map_map add: w2 world_simps)
  have rest: "book_wf (heap w2) b2 \<and> set (book_refs b2) = (if ?f < ?q then insert inc (set (book_refs b1)) else set (book_refs b1))
      \<and> abs_book (heap w2) b2 = spec_rest (oside ?o) (oprice ?o) (oid ?o) (?q - ?f) (abs_book (heap w1) b1)"
  proof (cases "?f = ?q")
    case True
    then show ?thesis using wf1 fill
      by (simp del: map_map add: b2 spec_rest_def rest_remainder_def)
  next
    case False
    with T(1) have lt: "?f < ?q" by (simp del: map_map add: world_simps)
    have st: "oside (heap w2 inc) = oside ?o" "oprice (heap w2 inc) = oprice ?o" "oid (heap w2 inc) = oid ?o"
      "oquantity (heap w2 inc) = oquantity ?o"
      by (simp_all add: h2)
    have "unat (ofilledQty (heap w2 inc)) = ?f"
      using T(3) by (simp del: map_map add: w2 world_simps)
    then have "ofilledQty (heap w2 inc) < oquantity ?o" using lt by (simp add: word_less_nat_alt)
    then have ok: "resting_ok (oside (heap w2 inc)) (oprice (heap w2 inc)) (heap w2 inc)"
      by (simp add: resting_ok_def st)
    have ids: "oid (heap w2 inc) \<notin> (\<lambda>r. oid (heap w2 r)) ` set (book_refs b1)"
    proof -
      have "oid (heap w2 r) = oid (heap w r) \<and> r \<in> set (book_refs b)" if "r \<in> set (book_refs b1)" for r
      proof -
        have r: "r \<in> set (book_refs b)" "r \<noteq> inc" using E that inc1 by (auto simp: exec_mem_def)
        then have "same_static (heap w1 r) (heap (set_status inc ACCEPTED w) r)"
          using E by (simp add: exec_mem_def)
        with r show ?thesis by (simp add: w2 world_simps same_staticD)
      qed
      then show ?thesis using ca by (auto simp: can_add_def st)
    qed
    have "rest_qty (heap w2) (own_refs (oside ?o) b1) = rest_qty (heap w) (own_refs (oside ?o) b)"
      using own inc1 by (subst own [symmetric], intro rest_qty_cong)
        (auto simp: w2 world_simps own_refs_def book_refs_def split: if_splits)
    moreover have "rest_qty (heap w) (own_refs (oside ?o) b) + ?q < 2 ^ 64"
      using ca ty by (simp add: can_add_def)
    moreover have "unat (remainingQty (heap w2 inc)) \<le> ?q" using rem by simp
    ultimately have fits: "rest_qty (heap w2) (own_refs (oside ?o) b1) + unat (remainingQty (heap w2 inc)) < 2 ^ 64"
      by linarith
    have "no_cross (oside ?o) (oprice ?o) b1"
      using executes_exhausts [OF ex] wf inc rem lt
      by (simp del: map_map add: book_wf_set_status w2 world_simps)
    with rest_book_correct [OF wf1(1) ids ok] fits lt rem fill wf1(2) False show ?thesis
      by (simp del: map_map add: b2 st)
  qed
  have "add_mem inc (heap w) (book_refs b) (heap w2) (book_refs b2)"
  proof -
    have "exec_mem inc (heap (set_status inc ACCEPTED w)) (book_refs b) (heap w1) (book_refs b1)"
      using E by simp
    from exec_add_mem [OF this inc, of "book_refs b2" "heap w2"] rest inc1
    have "add_mem inc (heap (set_status inc ACCEPTED w)) (book_refs b) (heap w2) (book_refs b2)"
      by (simp del: map_map add: w2 world_simps)
    then show ?thesis using inc by (rule add_mem_before) (simp add: world_simps)
  qed
  moreover have "book_symbol b2 = book_symbol b"
    using E by (simp add: b2 rest_book_def)
  moreover
  have se: "spec_execute (oside ?o) (limit_crosses (oside ?o) (oprice ?o)) ?q (abs_book (heap w) b)
      = (map abs_trade ts, abs_book (heap w1) b1)"
    using E q by simp
  have "(map abs_trade ts, abs_book (heap w2) b2)
      = spec_add (oside ?o) (otype ?o) (oprice ?o) (oid ?o) ?q (abs_book (heap w) b)"
    using se rest ty by (cases "otype ?o") (simp_all del: map_map add: may_rest_def Let_def)
  ultimately show ?thesis
    using E T(1) rest ty h2 S inc1
    by (simp del: map_map add: added_def Let_def trades_ok_def w2 world_simps split: if_splits)
qed

lemma execute_from_accepted:
  assumes wf: "book_wf (heap w) b" and ca: "can_add (heap w) inc b"
  shows "\<exists>ts b1 w1. execute_on (oside (heap w inc)) inc crosses b (set_status inc ACCEPTED w) = Some (ts, b1, w1)
    \<and> executes (oside (heap w inc)) (crosses_pred crosses) inc b (set_status inc ACCEPTED w) ts b1 w1
    \<and> rest_qty (heap w1) (own_refs (oside (heap w inc)) b1)
        = rest_qty (heap w) (own_refs (oside (heap w inc)) b)
    \<and> (ofilledQty (heap w1 inc) = 0 \<longleftrightarrow> open_qty (map abs_trade ts) = 0)
    \<and> (isFilled (heap w1 inc) \<longleftrightarrow> open_qty (map abs_trade ts) = unat (oquantity (heap w inc)))"
proof -
  let ?w0 = "set_status inc ACCEPTED w"
  have inc: "inc \<notin> set (book_refs b)" using ca by (rule can_add_fresh)
  have z: "ofilledQty (heap ?w0 inc) = 0" using ca by (simp add: can_add_def world_simps)
  have "book_wf (heap ?w0) b" using wf inc by (simp add: book_wf_set_status)
  from execute_correct [OF this inc, of "oside (heap w inc)" crosses] z obtain ts b1 w1 where
    ex: "execute_on (oside (heap w inc)) inc crosses b ?w0 = Some (ts, b1, w1)"
      "executes (oside (heap w inc)) (crosses_pred crosses) inc b ?w0 ts b1 w1"
    and own: "if oside (heap w inc) = BUY
       then bids b1 = bids b \<and> abs_side (heap w1) (bids b) = abs_side (heap ?w0) (bids b)
       else asks b1 = asks b \<and> abs_side (heap w1) (asks b) = abs_side (heap ?w0) (asks b)"
    by auto
  have "abs_side (heap ?w0) (bids b) = abs_side (heap w) (bids b)"
    "abs_side (heap ?w0) (asks b) = abs_side (heap w) (asks b)"
    using inc by (auto intro!: abs_side_cong simp: book_refs_def world_simps)
  with own have "rest_qty (heap w1) (own_refs (oside (heap w inc)) b1)
        = rest_qty (heap w) (own_refs (oside (heap w inc)) b)"
    by (auto simp: own_refs_def simp flip: open_qty_abs_side)
  moreover have "ofilledQty (heap w1 inc) = 0 \<longleftrightarrow> open_qty (map abs_trade ts) = 0"
    using executes_taker(3) [OF ex(2) z] by (metis unat_0 unat_eq_zero)
  ultimately show ?thesis
    using ex executes_taker(4) [OF ex(2) z] by (simp del: map_map add: world_simps)
qed

lemma matchLimit_correct:
  assumes "book_wf (heap w) b" and "can_add (heap w) inc b" and "may_rest (otype (heap w inc))"
  shows "\<exists>ts b' w'. matchLimit inc b (set_status inc ACCEPTED w) = Some (ts, b', w') \<and> added inc b w ts b' w'"
proof -
  let ?o = "heap w inc"
  from execute_from_accepted [OF assms(1,2), of "Some (limit_crosses (oside ?o) (oprice ?o))"]
  obtain ts b1 w1 where
    ex: "execute_on (oside ?o) inc (Some (limit_crosses (oside ?o) (oprice ?o))) b (set_status inc ACCEPTED w) = Some (ts, b1, w1)"
      "executes (oside ?o) (limit_crosses (oside ?o) (oprice ?o)) inc b (set_status inc ACCEPTED w) ts b1 w1"
    and own: "rest_qty (heap w1) (own_refs (oside ?o) b1) = rest_qty (heap w) (own_refs (oside ?o) b)"
    and fl: "ofilledQty (heap w1 inc) = 0 \<longleftrightarrow> open_qty (map abs_trade ts) = 0"
      "isFilled (heap w1 inc) \<longleftrightarrow> open_qty (map abs_trade ts) = unat (oquantity ?o)"
    by auto
  let ?S = "status_after (otype ?o) (unat (oquantity ?o)) (open_qty (map abs_trade ts))"
  let ?w2 = "set_status inc ?S w1"
  let ?b2 = "if isFilled (heap ?w2 inc) then b1 else rest_book inc (heap ?w2) b1"
  have "(if ofilledQty (heap w1 inc) = 0 then ACCEPTED
         else if isFilled (heap w1 inc) then FILLED else PARTIALLY_FILLED) = ?S"
    using fl assms(3) by (cases "otype ?o") (simp_all del: map_map add: may_rest_def)
  with ex(1) have "matchLimit inc b (set_status inc ACCEPTED w) = Some (ts, ?b2, ?w2)"
    by (simp del: map_map add: matchLimit_def drain_at_limit_execute world_simps rest_book_def Let_def)
  with added_limit [OF assms ex(2) own refl refl refl] show ?thesis by blast
qed

lemma matchMarket_correct:
  assumes "book_wf (heap w) b" and "can_add (heap w) inc b" and "otype (heap w inc) = MARKET"
  shows "\<exists>ts b' w'. matchMarket inc b (set_status inc ACCEPTED w) = Some (ts, b', w') \<and> added inc b w ts b' w'"
proof -
  let ?o = "heap w inc"
  from execute_from_accepted [OF assms(1,2), of None] obtain ts b1 w1 where
    ex: "execute_on (oside ?o) inc None b (set_status inc ACCEPTED w) = Some (ts, b1, w1)"
      "executes (oside ?o) (\<lambda>_. True) inc b (set_status inc ACCEPTED w) ts b1 w1"
    and fl: "isFilled (heap w1 inc) \<longleftrightarrow> open_qty (map abs_trade ts) = unat (oquantity ?o)"
    by auto
  let ?S = "status_after (otype ?o) (unat (oquantity ?o)) (open_qty (map abs_trade ts))"
  from ex(1) fl assms(3) have "matchMarket inc b (set_status inc ACCEPTED w) = Some (ts, b1, set_status inc ?S w1)"
    by (cases "oside ?o") (simp_all del: map_map add: matchMarket_def execute_on_def world_simps)
  with added_no_rest [OF assms(2) _ ex(2), of ?S] assms(3) show ?thesis
    by (simp del: map_map add: may_rest_def)
qed

lemma matchIoc_correct:
  assumes "book_wf (heap w) b" and "can_add (heap w) inc b" and "otype (heap w inc) = IOC"
  shows "\<exists>ts b' w'. matchIoc inc b (set_status inc ACCEPTED w) = Some (ts, b', w') \<and> added inc b w ts b' w'"
proof -
  let ?o = "heap w inc"
  from execute_from_accepted [OF assms(1,2), of "Some (limit_crosses (oside ?o) (oprice ?o))"]
  obtain ts b1 w1 where
    ex: "execute_on (oside ?o) inc (Some (limit_crosses (oside ?o) (oprice ?o))) b (set_status inc ACCEPTED w) = Some (ts, b1, w1)"
      "executes (oside ?o) (limit_crosses (oside ?o) (oprice ?o)) inc b (set_status inc ACCEPTED w) ts b1 w1"
    and fl: "ofilledQty (heap w1 inc) = 0 \<longleftrightarrow> open_qty (map abs_trade ts) = 0"
      "isFilled (heap w1 inc) \<longleftrightarrow> open_qty (map abs_trade ts) = unat (oquantity ?o)"
    by auto
  let ?S = "status_after (otype ?o) (unat (oquantity ?o)) (open_qty (map abs_trade ts))"
  have pos: "0 < ofilledQty (heap w1 inc) \<longleftrightarrow> 0 < open_qty (map abs_trade ts)"
    using fl(1) by (metis neq0_conv word_neq_0_conv)
  from ex(1) fl(2) pos assms(3)
  have "matchIoc inc b (set_status inc ACCEPTED w) = Some (ts, b1, set_status inc ?S w1)"
    by (simp del: map_map sum_list_eq_0_iff add: matchIoc_def drain_at_limit_execute world_simps)
  with added_no_rest [OF assms(2) _ ex(2), of ?S] assms(3) show ?thesis
    by (simp del: map_map add: may_rest_def)
qed

end
