(* ===== verification/Book_Refines.thy ===== *)
theory Book_Refines
  imports Book_Add
begin

text \<open>
  The two entry points of \<^verbatim>\<open>OrderBook\<close> that change state, each against the abstract book:
  \<^verbatim>\<open>addOrder\<close> implements \<open>spec_add\<close> for every order type (the fill-or-kill scan decides on the
  acceptable liquidity), \<^verbatim>\<open>cancelOrder\<close> implements \<open>spec_cancel\<close>.  Both are total on well-formed
  books and keep them well-formed.
\<close>

section \<open>Fill or kill\<close>

lemma acceptable_is_prefix:
  assumes "side_wf (opposite sd) h s"
  shows "takeWhile (\<lambda>e. limit_crosses sd p (fst (fst e))) (abs_side h s)
    = filter (\<lambda>e. limit_crosses sd p (fst (fst e))) (abs_side h s)"
  using assms limit_cut.takeWhile_cut [of sd s p]
  by (simp add: takeWhile_abs_side filter_abs_side side_wf_def)

lemma scan_decides:
  assumes "side_wf (opposite sd) h s" and "rest_qty h (side_refs s) < 2 ^ 64"
  shows "q \<le> availableFill (Some (limit_crosses sd p)) q 0 s \<longleftrightarrow>
    unat q \<le> open_qty (filter (\<lambda>e. limit_crosses sd p (fst (fst e))) (abs_side h s))"
  using availableFill_decides [OF assms(1), of 0 q "limit_crosses sd p"] assms(2)
  by (simp add: acceptable_is_prefix [OF assms(1)])

lemma canFill_liquidity:
  assumes "book_wf h b"
  shows "fok_canFill o1 b \<longleftrightarrow>
    unat (oquantity o1) \<le> spec_liquidity (oside o1) (limit_crosses (oside o1) (oprice o1)) (abs_book h b)"
proof (cases "oside o1")
  case BUY
  with assms show ?thesis
    using scan_decides [of BUY h "asks b" "oquantity o1" "oprice o1"]
    by (simp add: fok_canFill_def spec_liquidity_def abs_book_def book_wf_def)
next
  case SELL
  with assms show ?thesis
    using scan_decides [of SELL h "bids b" "oquantity o1" "oprice o1"]
    by (simp add: fok_canFill_def spec_liquidity_def abs_book_def book_wf_def)
qed

text \<open>When the acceptable liquidity suffices, the execution takes the whole quantity.\<close>

lemma execute_all:
  assumes wf: "book_wf h b" and q: "q \<le> spec_liquidity sd (limit_crosses sd p) (abs_book h b)"
  shows "open_qty (fst (spec_execute sd (limit_crosses sd p) q (abs_book h b))) = q"
proof (cases sd)
  case BUY
  with q wf acceptable_is_prefix [of BUY h "asks b" p] show ?thesis
    by (simp add: spec_execute_def case_prod_beta match_side_total spec_liquidity_def
        abs_book_def book_wf_def)
next
  case SELL
  with q wf acceptable_is_prefix [of SELL h "bids b" p] show ?thesis
    by (simp add: spec_execute_def case_prod_beta match_side_total spec_liquidity_def
        abs_book_def book_wf_def)
qed

lemma add_mem_refl: "(\<And>r. r \<noteq> inc \<Longrightarrow> h' r = h r) \<Longrightarrow> inc \<notin> set rs \<Longrightarrow> add_mem inc h rs h' rs"
proof -
  assume a: "\<And>r. r \<noteq> inc \<Longrightarrow> h' r = h r" and i: "inc \<notin> set rs"
  from i have "h' r = h r" if "r \<in> set rs" for r using a that by metis
  with a show ?thesis by (simp add: add_mem_def same_static_def)
qed

lemma added_killed:
  assumes "book_wf (heap w) b" and "can_add (heap w) inc b" and "otype (heap w inc) = FOK"
    and "\<not> unat (oquantity (heap w inc)) \<le> spec_liquidity (oside (heap w inc))
           (limit_crosses (oside (heap w inc)) (oprice (heap w inc))) (abs_book (heap w) b)"
  shows "added inc b w [] b (set_status inc CANCELLED w)"
proof -
  have inc: "inc \<notin> set (book_refs b)" using assms(2) by (rule can_add_fresh)
  have "add_mem inc (heap w) (book_refs b) (heap (set_status inc CANCELLED w)) (book_refs b)"
    using inc by (intro add_mem_refl) (auto simp: world_simps)
  with assms inc show ?thesis
    by (simp add: added_def Let_def can_add_def book_wf_set_status abs_book_set_status world_simps
        trades_ok_def may_rest_def)
qed

lemma matchFok_correct:
  assumes "book_wf (heap w) b" and "can_add (heap w) inc b" and "otype (heap w inc) = FOK"
  shows "\<exists>ts b' w'. matchFok inc b (set_status inc ACCEPTED w) = Some (ts, b', w') \<and> added inc b w ts b' w'"
proof -
  let ?o = "heap w inc" and ?w0 = "set_status inc ACCEPTED w"
  let ?ok = "limit_crosses (oside ?o) (oprice ?o)" and ?q = "unat (oquantity ?o)"
  have fill: "fok_canFill (heap ?w0 inc) b \<longleftrightarrow> ?q \<le> spec_liquidity (oside ?o) ?ok (abs_book (heap w) b)"
    using canFill_liquidity [OF assms(1), of "heap ?w0 inc"] by (simp add: world_simps)
  show ?thesis
  proof (cases "?q \<le> spec_liquidity (oside ?o) ?ok (abs_book (heap w) b)")
    case False
    from False fill added_killed [OF assms] show ?thesis
      by (intro exI [of _ "[]"] exI [of _ b] exI [of _ "set_status inc CANCELLED w"]) (simp add: matchFok_def)
  next
    case True
    from execute_from_accepted [OF assms(1,2), of "Some ?ok"] obtain ts b1 w1 where
      ex: "execute_on (oside ?o) inc (Some ?ok) b ?w0 = Some (ts, b1, w1)"
        "executes (oside ?o) ?ok inc b ?w0 ts b1 w1"
      by auto
    have "map abs_trade ts = fst (spec_execute (oside ?o) ?ok ?q (abs_book (heap w) b))"
      using executes_status [OF can_add_fresh [OF assms(2)] ex(2)] assms(2)
      by (auto simp: can_add_def remainingQty_def dest: arg_cong [of _ _ fst])
    then have all: "open_qty (map abs_trade ts) = ?q"
      using execute_all [OF assms(1) True] by (simp only:)
    from ex(1) True fill have "matchFok inc b ?w0 = Some (ts, b1, set_status inc FILLED w1)"
      by (simp del: map_map add: matchFok_def drain_at_limit_execute world_simps)
    with added_no_rest [OF assms(2) _ ex(2), of FILLED] assms(3) True all show ?thesis
      by (simp del: map_map add: may_rest_def)
  qed
qed

section \<open>The entry points\<close>

lemma book_addOrder_correct:
  assumes "book_wf (heap w) b" and "can_add (heap w) inc b"
  shows "\<exists>ts b' w'. book_addOrder inc b w = Some (ts, b', w') \<and> added inc b w ts b' w'"
proof -
  have ty: "otype (heap (set_status inc ACCEPTED w) inc) = otype (heap w inc)" by (simp add: world_simps)
  show ?thesis
    using matchLimit_correct [OF assms] matchMarket_correct [OF assms] matchIoc_correct [OF assms]
      matchFok_correct [OF assms]
    by (cases "otype (heap w inc)") (simp_all add: book_addOrder_def Let_def ty may_rest_def)
qed

text \<open>What \<^verbatim>\<open>cancelOrder\<close> leaves behind.\<close>

definition cancelled :: "(OrderRef \<Rightarrow> Order) \<Rightarrow> OrderId \<Rightarrow> OrderBook \<Rightarrow> OrderBook \<Rightarrow> bool" where
  "cancelled h i b b' \<longleftrightarrow>
     book_wf h b' \<and> book_symbol b' = book_symbol b \<and> abs_book h b' = spec_cancel i (abs_book h b) \<and>
     set (book_refs b') = {r \<in> set (book_refs b). oid (h r) \<noteq> i}"

lemma book_refs_side:
  assumes "book_wf h b" and "r \<in> set (book_refs b)"
  shows "if oside (h r) = BUY then r \<in> set (side_refs (bids b)) else r \<in> set (side_refs (asks b))"
  using assms side_wf_resting [of BUY h "bids b" r] side_wf_resting [of SELL h "asks b" r]
  by (auto simp: book_wf_def book_refs_def resting_ok_def)

lemma filter_oid_split:
  assumes "distinct (map (\<lambda>r. oid (h r)) (A @ r # B))"
  shows "filter (\<lambda>x. oid (h x) \<noteq> oid (h r)) (A @ r # B) = A @ B"
proof -
  have "filter (\<lambda>x. oid (h x) \<noteq> oid (h r)) A = A" "filter (\<lambda>x. oid (h x) \<noteq> oid (h r)) B = B"
    using assms by (auto simp: filter_id_conv image_iff)
  then show ?thesis by simp
qed

text \<open>Removing one reference from one side, the other side and the index following.\<close>

lemma cancelled_core:
  assumes wf: "book_wf h b" and A: "book_refs b = A @ r # B" and A': "book_refs b' = A @ B"
    and sides: "side_wf BUY h (bids b')" "side_wf SELL h (asks b')"
    and keys: "fst ` set (bids b') \<subseteq> fst ` set (bids b)" "fst ` set (asks b') \<subseteq> fst ` set (asks b)"
    and refs: "side_refs (bids b') = filter (\<lambda>x. oid (h x) \<noteq> oid (h r)) (side_refs (bids b))"
      "side_refs (asks b') = filter (\<lambda>x. oid (h x) \<noteq> oid (h r)) (side_refs (asks b))"
    and ix: "index b' = AList.delete (oid (h r)) (index b)"
    and sy: "book_symbol b' = book_symbol b"
  shows "cancelled h (oid (h r)) b b'"
proof -
  have dist: "distinct (map (\<lambda>r. oid (h r)) (A @ r # B))" using wf A by (simp add: book_wf_def)
  have le: "rest_qty h (filter P rs) \<le> rest_qty h rs" for P rs
    by (induction rs) auto
  have "index_ok h (index b') (book_refs b')"
    unfolding ix A' using wf A dist by (intro index_ok_delete) (auto simp: book_wf_def)
  moreover have "distinct (map (\<lambda>r. oid (h r)) (book_refs b'))" unfolding A' using dist by auto
  moreover have "uncrossed b'"
    using wf keys uncrossed_subset [of b b'] by (simp add: book_wf_def)
  moreover have "rest_qty h (side_refs (bids b')) < 2 ^ 64" "rest_qty h (side_refs (asks b')) < 2 ^ 64"
    unfolding refs using wf le [of "\<lambda>x. oid (h x) \<noteq> oid (h r)" "side_refs (bids b)"]
      le [of "\<lambda>x. oid (h x) \<noteq> oid (h r)" "side_refs (asks b)"]
    by (auto simp: book_wf_def)
  ultimately have "book_wf h b'" using sides by (simp add: book_wf_def)
  moreover have "abs_book h b' = spec_cancel (oid (h r)) (abs_book h b)"
    by (simp add: abs_book_def abs_side_def spec_cancel_def refs filter_map comp_def)
  moreover have "set (book_refs b') = {x \<in> set (book_refs b). oid (h x) \<noteq> oid (h r)}"
    using filter_oid_split [OF dist] unfolding A A' by (metis set_filter)
  ultimately show ?thesis using sy by (simp add: cancelled_def)
qed

lemma book_cancelOrder_found:
  assumes wf: "book_wf h b" and r: "r \<in> set (book_refs b)"
  shows "\<exists>b'. book_cancelOrder h (oid (h r)) b = (True, b') \<and> cancelled h (oid (h r)) b b'"
proof -
  have "index_ok h (index b) (book_refs b)" using wf by (simp add: book_wf_def)
  then obtain r' where r': "r' \<in> set (book_refs b)" "oid (h r') = oid (h r)"
    "map_of (index b) (oid (h r)) = Some (loc_of (h r'))"
    using index_ok_lookup r by blast
  have "inj_on (\<lambda>r. oid (h r)) (set (book_refs b))" using wf by (simp add: book_wf_def distinct_map)
  with r r' have ix: "map_of (index b) (oid (h r)) = Some (loc_of (h r))"
    by (metis inj_onD)
  have dist: "distinct (map (\<lambda>r. oid (h r)) (side_refs (bids b)))"
    "distinct (map (\<lambda>r. oid (h r)) (side_refs (asks b)))"
    "(\<lambda>r. oid (h r)) ` set (side_refs (bids b)) \<inter> (\<lambda>r. oid (h r)) ` set (side_refs (asks b)) = {}"
    using wf by (auto simp: book_wf_def book_refs_def)
  show ?thesis
  proof (cases "oside (h r)")
    case BUY
    then have rb: "r \<in> set (side_refs (bids b))" using book_refs_side [OF wf r] by simp
    have "side_wf BUY h (bids b)" using wf by (simp add: book_wf_def)
    from cancel_on_side_correct [OF this rb dist(1)] obtain A B where
      s: "side_refs (bids b) = A @ r # B"
        "side_refs (cancel_on_side BUY h (oid (h r)) (oprice (h r)) (bids b)) = A @ B"
        "side_wf BUY h (cancel_on_side BUY h (oid (h r)) (oprice (h r)) (bids b))"
        "fst ` set (cancel_on_side BUY h (oid (h r)) (oprice (h r)) (bids b)) \<subseteq> fst ` set (bids b)"
      by blast
    let ?b = "b\<lparr>bids := cancel_on_side BUY h (oid (h r)) (oprice (h r)) (bids b),
      index := AList.delete (oid (h r)) (index b)\<rparr>"
    have "filter (\<lambda>x. oid (h x) \<noteq> oid (h r)) (side_refs (asks b)) = side_refs (asks b)"
      using dist(3) rb by (auto simp: filter_id_conv)
    then have "cancelled h (oid (h r)) b ?b"
      using s wf filter_oid_split [of h A r B] dist(1)
      by (intro cancelled_core [where A = A and B = "B @ side_refs (asks b)"])
        (simp_all add: book_refs_def book_wf_def)
    then show ?thesis
      using ix BUY by (simp add: book_cancelOrder_def loc_of_def)
  next
    case SELL
    then have rb: "r \<in> set (side_refs (asks b))" using book_refs_side [OF wf r] by simp
    have "side_wf SELL h (asks b)" using wf by (simp add: book_wf_def)
    from cancel_on_side_correct [OF this rb dist(2)] obtain A B where
      s: "side_refs (asks b) = A @ r # B"
        "side_refs (cancel_on_side SELL h (oid (h r)) (oprice (h r)) (asks b)) = A @ B"
        "side_wf SELL h (cancel_on_side SELL h (oid (h r)) (oprice (h r)) (asks b))"
        "fst ` set (cancel_on_side SELL h (oid (h r)) (oprice (h r)) (asks b)) \<subseteq> fst ` set (asks b)"
      by blast
    let ?b = "b\<lparr>asks := cancel_on_side SELL h (oid (h r)) (oprice (h r)) (asks b),
      index := AList.delete (oid (h r)) (index b)\<rparr>"
    have "filter (\<lambda>x. oid (h x) \<noteq> oid (h r)) (side_refs (bids b)) = side_refs (bids b)"
      using dist(3) rb by (auto simp: filter_id_conv)
    then have "cancelled h (oid (h r)) b ?b"
      using s wf filter_oid_split [of h A r B] dist(2)
      by (intro cancelled_core [where A = "side_refs (bids b) @ A" and B = B])
        (simp_all add: book_refs_def book_wf_def)
    then show ?thesis
      using ix SELL by (simp add: book_cancelOrder_def loc_of_def)
  qed
qed

lemma book_cancelOrder_missing:
  "\<not> hasOrder i b \<Longrightarrow> book_cancelOrder h i b = (False, b)"
  by (simp add: hasOrder_def book_cancelOrder_def)

lemma book_cancelOrder_correct:
  assumes "book_wf h b"
  shows "fst (book_cancelOrder h i b) \<longleftrightarrow> hasOrder i b"
    and "cancelled h i b (snd (book_cancelOrder h i b))"
proof -
  have "fst (book_cancelOrder h i b) = hasOrder i b \<and> cancelled h i b (snd (book_cancelOrder h i b))"
  proof (cases "hasOrder i b")
    case True
    then show ?thesis using hasOrder_iff [OF assms] book_cancelOrder_found [OF assms] by force
  next
    case False
    then have no: "\<forall>r\<in>set (book_refs b). oid (h r) \<noteq> i" using hasOrder_iff [OF assms] by auto
    have "filter (\<lambda>e. snd (fst e) \<noteq> i) (abs_side h s) = abs_side h s"
      if "set (side_refs s) \<subseteq> set (book_refs b)" for s
      using that no by (auto simp: abs_side_def filter_id_conv)
    then have "spec_cancel i (abs_book h b) = abs_book h b"
      by (simp add: spec_cancel_def abs_book_def book_refs_def)
    with False no assms book_cancelOrder_missing [OF False] show ?thesis
      by (auto simp: cancelled_def)
  qed
  then show "fst (book_cancelOrder h i b) \<longleftrightarrow> hasOrder i b"
    and "cancelled h i b (snd (book_cancelOrder h i b))" by simp_all
qed

section \<open>What an addition leaves alone, and its trades\<close>

lemma added_static:
  assumes "added inc b w ts b' w'" shows "same_static (heap w' r) (heap w r)"
proof (cases "r = inc")
  case True
  have "same_static (x\<lparr>ofilledQty := f, ostatus := s\<rparr>) x" for x f s
    by (cases x) (simp add: same_static_def)
  with True assms show ?thesis by (simp add: added_def Let_def)
next
  case False
  with assms show ?thesis
    by (cases "r \<in> set (book_refs b)") (auto simp: added_def add_mem_def Let_def)
qed

lemma added_frame:
  "added inc b w ts b' w' \<Longrightarrow> r \<noteq> inc \<Longrightarrow> r \<notin> set (book_refs b) \<Longrightarrow> heap w' r = heap w r"
  by (auto simp: added_def add_mem_def Let_def)

lemma added_refs:
  assumes "added inc b w ts b' w'" and "r \<in> set (book_refs b')"
  shows "r = inc \<and> may_rest (otype (heap w inc)) \<or> r \<in> set (book_refs b)"
  using assms by (cases "r = inc") (auto simp: added_def add_mem_def Let_def)

lemma added_fills:
  assumes "added inc b w ts b' w'"
  shows "map abs_trade ts = fst (spec_add (oside (heap w inc)) (otype (heap w inc)) (oprice (heap w inc))
      (oid (heap w inc)) (unat (oquantity (heap w inc))) (abs_book (heap w) b))"
    and "abs_book (heap w') b' = snd (spec_add (oside (heap w inc)) (otype (heap w inc)) (oprice (heap w inc))
      (oid (heap w inc)) (unat (oquantity (heap w inc))) (abs_book (heap w) b))"
  using assms unfolding added_def Let_def by (metis fst_conv, metis snd_conv)

text \<open>Every trade is with an order of the other side, at its price, which the taker accepts.\<close>

lemma added_trade:
  assumes wf: "book_wf (heap w) b" and ad: "added inc b w ts b' w'" and t: "t \<in> set ts"
  shows "\<exists>m\<in>set (book_refs b). makerOrderId t = oid (heap w m) \<and> tprice t = oprice (heap w m) \<and>
      oside (heap w m) = opposite (oside (heap w inc))"
    and "price_ok (oside (heap w inc)) (otype (heap w inc)) (oprice (heap w inc)) (tprice t)"
    and "0 < tquantity t" and "takerOrderId t = oid (heap w inc)" and "tsymbol t = book_symbol b"
proof -
  let ?o = "heap w inc"
  let ?s = "if oside ?o = BUY then asks b else bids b"
  have os: "other_side (oside ?o) (abs_book (heap w) b) = abs_side (heap w) ?s"
    by (simp add: other_side_def abs_book_def)
  have wf_s: "side_wf (opposite (oside ?o)) (heap w) ?s"
    using wf by (cases "oside ?o") (simp_all add: book_wf_def)
  have e: "abs_trade t \<in> set (fst (spec_add (oside ?o) (otype ?o) (oprice ?o) (oid ?o)
      (unat (oquantity ?o)) (abs_book (heap w) b)))"
    unfolding added_fills(1) [OF ad, symmetric] using t by simp
  note F = spec_add_fills [OF e, unfolded os]
  from F(1) obtain m where m: "m \<in> set (side_refs ?s)" "fst (abs_trade t) = fst (entry_of (heap w) m)"
    by (auto simp: abs_side_def)
  have "\<forall>x\<in>set (abs_side (heap w) ?s). 0 < snd x"
    using side_wf_remaining_pos [OF wf_s] by (auto simp: abs_side_def)
  with F(3) show "0 < tquantity t" by (simp add: abs_trade_def word_gt_0_unat)
  show "price_ok (oside ?o) (otype ?o) (oprice ?o) (tprice t)" using F(2) by (simp add: abs_trade_def)
  have "m \<in> set (book_refs b)" using m(1) by (auto simp: book_refs_def split: if_splits)
  moreover have "oside (heap w m) = opposite (oside ?o)"
    using side_wf_resting [OF wf_s m(1)] by (auto simp: resting_ok_def)
  ultimately show "\<exists>m\<in>set (book_refs b). makerOrderId t = oid (heap w m) \<and> tprice t = oprice (heap w m) \<and>
      oside (heap w m) = opposite (oside ?o)"
    using m(2) by (auto simp: abs_trade_def)
  show "takerOrderId t = oid ?o" "tsymbol t = book_symbol b"
    using ad t by (auto simp: added_def Let_def trades_ok_def)
qed

section \<open>Accounting per order\<close>

lemma abook_id_qty_refs:
  "abook_id_qty i (abs_book h b) = (\<Sum>r\<leftarrow>book_refs b. if oid (h r) = i then unat (remainingQty (h r)) else 0)"
proof -
  have "id_qty i (abs_side h s) = (\<Sum>r\<leftarrow>side_refs s. if oid (h r) = i then unat (remainingQty (h r)) else 0)" for s
    unfolding abs_side_def by (induction "side_refs s" arbitrary: s) (simp_all add: id_qty_def comp_def filter_map sum_list_map_filter')
  then show ?thesis by (simp add: abook_id_qty_def abs_book_def book_refs_def)
qed

lemma abook_id_qty_resting:
  assumes "book_wf h b" and "r \<in> set (book_refs b)"
  shows "abook_id_qty (oid (h r)) (abs_book h b) = unat (remainingQty (h r))"
proof -
  obtain A B where s: "book_refs b = A @ r # B" using split_list [OF assms(2)] by blast
  have d: "distinct (map (\<lambda>r. oid (h r)) (A @ r # B))" using assms(1) s by (simp add: book_wf_def)
  have z: "(\<Sum>x\<leftarrow>X. if oid (h x) = oid (h r) then unat (remainingQty (h x)) else 0) = 0"
    if "oid (h r) \<notin> (\<lambda>r. oid (h r)) ` set X" for X
    using that by (induction X) auto
  have "oid (h r) \<notin> (\<lambda>r. oid (h r)) ` set A" "oid (h r) \<notin> (\<lambda>r. oid (h r)) ` set B"
    using d by auto
  then show ?thesis unfolding abook_id_qty_refs s by (simp add: z)
qed

lemma abook_id_qty_absent:
  "\<forall>r\<in>set (book_refs b). oid (h r) \<noteq> i \<Longrightarrow> abook_id_qty i (abs_book h b) = 0"
  unfolding abook_id_qty_refs by (induction "book_refs b" arbitrary: b) auto

text \<open>What a resting order loses in an addition is what it trades.\<close>

lemma added_maker:
  assumes wf: "book_wf (heap w) b" and ca: "can_add (heap w) inc b" and ad: "added inc b w ts b' w'"
    and m: "m \<in> set (book_refs b)"
  shows "id_qty (oid (heap w m)) (map abs_trade ts)
      + (if m \<in> set (book_refs b') then unat (remainingQty (heap w' m)) else 0) = unat (remainingQty (heap w m))"
proof -
  let ?i = "oid (heap w m)"
  have ne: "?i \<noteq> oid (heap w inc)" using ca m by (metis can_add_def imageI)
  have st: "oid (heap w' r) = oid (heap w r)" for r using same_staticD [OF added_static [OF ad]] by simp
  have wf': "book_wf (heap w') b'" using ad by (simp add: added_def Let_def)
  have after: "abook_id_qty ?i (abs_book (heap w') b')
      = (if m \<in> set (book_refs b') then unat (remainingQty (heap w' m)) else 0)"
  proof (cases "m \<in> set (book_refs b')")
    case True
    with abook_id_qty_resting [OF wf' True] show ?thesis by (simp add: st)
  next
    case False
    have "oid (heap w' r) \<noteq> ?i" if r: "r \<in> set (book_refs b')" for r
    proof
      assume eq: "oid (heap w' r) = ?i"
      then have "r \<in> set (book_refs b)" using added_refs [OF ad r] ne by (auto simp: st)
      with eq m wf have "r = m" by (auto simp: st book_wf_def distinct_map inj_on_def)
      with r False show False by simp
    qed
    then show ?thesis using False abook_id_qty_absent [of b' "heap w'" ?i] by simp
  qed
  have "id_qty ?i (map abs_trade ts) + abook_id_qty ?i (abs_book (heap w') b') = abook_id_qty ?i (abs_book (heap w) b)"
    unfolding added_fills [OF ad] by (rule spec_add_id_qty [OF ne])
  with after abook_id_qty_resting [OF wf m] show ?thesis by simp
qed

end
