(* ===== verification/Book_Queries.thy ===== *)
theory Book_Queries
  imports Book_Ops
begin

text \<open>
  The const member functions of \<^verbatim>\<open>OrderBook\<close> read through the abstraction: the best prices are
  those of the first order of each side, the totals are the open quantities, the depth views
  are the first runs of equal prices, the signed subtraction of \<^verbatim>\<open>spread\<close> is positive and defined on positive
  prices, and the debug check holds on every well-formed book.
\<close>

section \<open>Best prices and spread\<close>

definition best_of :: "entry list \<Rightarrow> Price option" where
  "best_of xs = (case xs of [] \<Rightarrow> None | e # _ \<Rightarrow> Some (fst (fst e)))"

lemma side_best_abs:
  assumes "side_wf sd h s" shows "side_best s = best_of (abs_side h s)"
proof (cases s)
  case (Cons e m)
  obtain p L where e: "e = (p, L)" by (cases e)
  with assms Cons have "level_wf sd h L" "lprice L = p" by (simp_all add: side_wf_Cons)
  then obtain r rs where "orders L = r # rs" "oprice (h r) = p"
    by (cases "orders L") (auto simp: level_wf_def resting_ok_def)
  with Cons e show ?thesis by (simp add: side_best_def best_of_def)
qed (simp add: side_best_def best_of_def)

lemma best_prices:
  assumes "book_wf h b"
  shows "bestBid b = best_of (abids (abs_book h b))" "bestAsk b = best_of (aasks (abs_book h b))"
  using assms side_best_abs by (auto simp: bestBid_def bestAsk_def abs_book_def book_wf_def)

text \<open>No resting order has a price better than the best one.\<close>

lemma side_best_extreme:
  assumes "side_wf sd h s" and "side_best s = Some p"
  shows "\<forall>e\<in>set (abs_side h s). \<not> side_lt sd (fst (fst e)) p"
proof -
  obtain L m where s: "s = (p, L) # m"
    using assms(2) by (auto simp: side_best_def split: list.splits)
  with assms(1) have "\<forall>x\<in>set s. \<not> side_lt sd (fst x) p"
    using side_cmp.lt_asym side_cmp.lt_irrefl by (fastforce simp: side_wf_Cons)
  then show ?thesis by (rule abs_side_keys [OF assms(1)])
qed

lemma uncrossed_best:
  "uncrossed b \<Longrightarrow> bestBid b = Some p \<Longrightarrow> bestAsk b = Some q \<Longrightarrow> p < q"
  by (cases "bids b"; cases "asks b")
    (auto simp: uncrossed_def bestBid_def bestAsk_def side_best_def split: prod.splits)

section \<open>Depth and totals\<close>

definition level_view :: "Price \<times> PriceLevel \<Rightarrow> BookLevel" where
  "level_view e = \<lparr>blprice = fst e, blqty = totalQty (snd e), blcount = level_orderCount (snd e)\<rparr>"

lemma top_levels_take:
  "top_levels n result s = result @ take (unat n - length result) (map level_view s)"
proof (induction s arbitrary: result)
  case (Cons e s)
  obtain p L where e: "e = (p, L)" by (cases e)
  show ?case
  proof (cases "unat n \<le> length result")
    case False
    then have "unat n - length result = Suc (unat n - Suc (length result))" by simp
    with False Cons e show ?thesis by (simp add: level_view_def)
  qed (simp add: e)
qed simp

lemma depth_views:
  "topBids n b = take (unat n) (map level_view (bids b))"
  "topAsks n b = take (unat n) (map level_view (asks b))"
  by (simp_all add: topBids_def topAsks_def top_levels_take)

lemma sum_levels_abs:
  assumes "side_wf sd h s" and "unat tot + rest_qty h (side_refs s) < 2 ^ 64"
  shows "unat (sum_levels tot s) = unat tot + open_qty (abs_side h s)"
  using assms
proof (induction s arbitrary: tot)
  case (Cons e s)
  obtain p L where e: "e = (p, L)" by (cases e)
  with Cons.prems have L: "unat (totalQty L) = rest_qty h (orders L)" "side_wf sd h s"
    by (simp_all add: side_wf_Cons level_wf_def)
  then have t: "unat (tot + totalQty L) = unat tot + rest_qty h (orders L)"
    using Cons.prems(2) e by (subst unat_plus_less) auto
  have "unat (sum_levels (tot + totalQty L) s) = unat (tot + totalQty L) + open_qty (abs_side h s)"
    using Cons.prems(2) e t by (intro Cons.IH L(2)) simp
  with e t show ?case
    by (simp add: open_qty_abs_side del: abs_side_simps)
qed simp

lemma side_totals:
  assumes "book_wf h b"
  shows "unat (totalBidQty b) = open_qty (abids (abs_book h b))"
    and "unat (totalAskQty b) = open_qty (aasks (abs_book h b))"
  using assms sum_levels_abs [of BUY h "bids b" 0] sum_levels_abs [of SELL h "asks b" 0]
  by (simp_all add: book_wf_def totalBidQty_def totalAskQty_def abs_book_def)

text \<open>One level of a depth view: its quantity and count are those of the orders at its price.\<close>

lemma level_orders_filter:
  assumes "side_wf sd h s" and "(p, L) \<in> set s"
  shows "filter (\<lambda>e. fst (fst e) = p) (abs_side h s) = map (entry_of h) (orders L)"
  using assms
proof (induction s)
  case (Cons e s)
  obtain p' L' where e: "e = (p', L')" by (cases e)
  have L': "level_wf sd h L'" "lprice L' = p'" "\<forall>x\<in>set s. side_lt sd p' (fst x)" "side_wf sd h s"
    using Cons.prems(1) e by (simp_all add: side_wf_Cons)
  have pr: "fst (fst x) = p'" if "x \<in> set (map (entry_of h) (orders L'))" for x
    using level_price [OF L'(1) that] L'(2) by simp
  show ?case
  proof (cases "(p, L) = e")
    case True
    have "filter (\<lambda>x. fst (fst x) = p) (map (entry_of h) (orders L')) = map (entry_of h) (orders L')"
      using pr True e by (auto simp: filter_id_conv)
    moreover have "\<forall>x\<in>set (abs_side h s). fst (fst x) \<noteq> p"
      using L'(3) True e side_cmp.lt_irrefl by (intro abs_side_keys [OF L'(4)]) force
    then have "filter (\<lambda>x. fst (fst x) = p) (abs_side h s) = []" by (simp add: filter_empty_conv)
    ultimately show ?thesis using True e by simp
  next
    case False
    with Cons.prems have m: "(p, L) \<in> set s" by simp
    with L'(3) have "p' \<noteq> p" using side_cmp.lt_irrefl by force
    with pr have "filter (\<lambda>x. fst (fst x) = p) (map (entry_of h) (orders L')) = []"
      by (auto simp: filter_empty_conv)
    with Cons.IH [OF L'(4) m] e show ?thesis by simp
  qed
qed simp

lemma level_view_correct:
  assumes wf: "side_wf sd h s" and L: "(p, L) \<in> set s"
  shows "unat (blqty (level_view (p, L))) = open_qty (filter (\<lambda>e. fst (fst e) = p) (abs_side h s))"
    and "blcount (level_view (p, L)) = of_nat (length (filter (\<lambda>e. fst (fst e) = p) (abs_side h s)))"
    and "0 < blqty (level_view (p, L))"
proof -
  have w: "level_wf sd h L" using assms by (auto simp: side_wf_def)
  then show "unat (blqty (level_view (p, L))) = open_qty (filter (\<lambda>e. fst (fst e) = p) (abs_side h s))"
    by (simp add: level_orders_filter [OF assms] level_view_def level_wf_def rest_qty_def comp_def)
  show "blcount (level_view (p, L)) = of_nat (length (filter (\<lambda>e. fst (fst e) = p) (abs_side h s)))"
    by (simp add: level_orders_filter [OF assms] level_view_def level_orderCount_def)
  show "0 < blqty (level_view (p, L))" using totalQty_pos [OF w] by (simp add: level_view_def)
qed

section \<open>Price levels of a priority list\<close>

function price_levels :: "entry list \<Rightarrow> BookLevel list" where
  "price_levels [] = []"
| "price_levels (e # es) =
     (let p = fst (fst e); same = takeWhile (\<lambda>x. fst (fst x) = p) es
      in \<lparr>blprice = p, blqty = of_nat (snd e + open_qty same), blcount = of_nat (Suc (length same))\<rparr> #
         price_levels (dropWhile (\<lambda>x. fst (fst x) = p) es))"
  by pat_completeness auto
termination
  by (relation "measure length") (auto simp: less_Suc_eq_le length_dropWhile_le)

lemma takeWhile_run:
  assumes "\<forall>x\<in>set xs. P x" and "\<forall>x\<in>set ys. \<not> P x"
  shows "takeWhile P (xs @ ys) = xs" and "dropWhile P (xs @ ys) = ys"
  using assms by (induction xs) (cases ys; auto)+

lemma side_levels:
  assumes "side_wf sd h s" shows "price_levels (abs_side h s) = map level_view s"
  using assms
proof (induction s)
  case (Cons e s)
  obtain p L where e: "e = (p, L)" by (cases e)
  have L: "level_wf sd h L" "lprice L = p" "\<forall>x\<in>set s. side_lt sd p (fst x)" "side_wf sd h s"
    using Cons.prems e by (simp_all add: side_wf_Cons)
  from L(1) obtain r rs where rs: "orders L = r # rs" by (cases "orders L") (auto simp: level_wf_def)
  have pr: "\<forall>x\<in>set (map (entry_of h) (orders L)). fst (fst x) = p"
    using level_price [OF L(1)] L(2) by blast
  have "\<forall>x\<in>set (abs_side h s). fst (fst x) \<noteq> p"
    using L(3) side_cmp.lt_irrefl by (intro abs_side_keys [OF L(4)]) force
  with pr rs have run: "takeWhile (\<lambda>x. fst (fst x) = p) (map (entry_of h) rs @ abs_side h s) = map (entry_of h) rs"
    "dropWhile (\<lambda>x. fst (fst x) = p) (map (entry_of h) rs @ abs_side h s) = abs_side h s"
    by (intro takeWhile_run; simp)+
  have "unat (totalQty L) = rest_qty h (orders L)" using L(1) by (simp add: level_wf_def)
  then have "totalQty L = of_nat (rest_qty h (orders L))" by (rule unat_eq_of_nat)
  then have q: "totalQty L = of_nat (snd (entry_of h r) + open_qty (map (entry_of h) rs))"
    by (simp add: rs rest_qty_def comp_def)
  have "fst (fst (entry_of h r)) = p" using pr rs by simp
  with run q Cons.IH [OF L(4)] show ?case
    by (simp add: e rs level_view_def level_orderCount_def Let_def)
qed simp

lemma top_levels_totals:
  assumes "side_wf sd h s" and "v \<in> set (take k (map level_view s))"
  shows "unat (blqty v) = open_qty (filter (\<lambda>e. fst (fst e) = blprice v) (abs_side h s)) \<and>
    blcount v = of_nat (length (filter (\<lambda>e. fst (fst e) = blprice v) (abs_side h s)))"
proof -
  from assms(2) obtain p L where v: "v = level_view (p, L)" "(p, L) \<in> set s"
    by (metis in_set_takeD imageE list.set_map surj_pair)
  with level_view_correct(1,2) [OF assms(1) v(2)] show ?thesis by (simp add: level_view_def)
qed

section \<open>The debug check\<close>

lemma side_orders_open_wf:
  assumes "side_wf sd h s" shows "side_orders_open h s"
proof -
  have "remainingQty (h r) \<noteq> 0" if "(p, L) \<in> set s" "r \<in> set (orders L)" for p L r
  proof -
    have "r \<in> set (side_refs s)" using that unfolding set_side_refs by (intro bexI [of _ "(p, L)"]) simp_all
    from side_wf_remaining_pos [OF assms this] show ?thesis by auto
  qed
  then show ?thesis by (auto simp: side_orders_open_def list_all_iff)
qed

lemma smap_find_key:
  assumes "side_wf sd h s" and "r \<in> set (side_refs s)"
  shows "smap_find (side_lt sd) (oprice (h r)) s \<noteq> None"
proof -
  have ord: "ordered (side_lt sd) s" using assms(1) by (simp add: side_wf_def)
  from side_wf_resting [OF assms] obtain L where "(oprice (h r), L) \<in> set s" by blast
  then have "oprice (h r) \<in> fst ` set s" by force
  then show ?thesis using side_cmp.find_map_of [OF ord] by (simp add: map_of_eq_None_iff)
qed

lemma checkInvariants_wf:
  assumes wf: "book_wf h b" shows "checkInvariants h b"
proof -
  have "if loc_side l = BUY then smap_find (side_lt BUY) (loc_price l) (bids b) \<noteq> None
        else smap_find (side_lt SELL) (loc_price l) (asks b) \<noteq> None"
    if il: "(i, l) \<in> set (index b)" for i l
  proof -
    from wf il obtain r where r: "r \<in> set (book_refs b)" "l = loc_of (h r)"
      by (auto simp: book_wf_def index_ok_def)
    have sides: "side_wf BUY h (bids b)" "side_wf SELL h (asks b)" using wf by (simp_all add: book_wf_def)
    from r(1) consider "r \<in> set (side_refs (bids b))" | "r \<in> set (side_refs (asks b))"
      by (auto simp: book_refs_def)
    then show ?thesis
    proof cases
      case 1
      with side_wf_resting [OF sides(1)] have "oside (h r) = BUY" by (auto simp: resting_ok_def)
      with smap_find_key [OF sides(1) 1] r(2) show ?thesis by (simp add: loc_of_def)
    next
      case 2
      with side_wf_resting [OF sides(2)] have "oside (h r) = SELL" by (auto simp: resting_ok_def)
      with smap_find_key [OF sides(2) 2] r(2) show ?thesis by (simp add: loc_of_def)
    qed
  qed
  then have "list_all (\<lambda>(i, l). if loc_side l = BUY
                        then smap_find (side_lt BUY) (loc_price l) (bids b) \<noteq> None
                        else smap_find (side_lt SELL) (loc_price l) (asks b) \<noteq> None) (index b)"
    unfolding list_all_iff by blast
  moreover have "\<not> (case (bestBid b, bestAsk b) of (Some bid, Some ask) \<Rightarrow> ask \<le> bid | _ \<Rightarrow> False)"
    using uncrossed_best [of b] wf by (auto simp: book_wf_def not_le split: option.splits)
  ultimately show ?thesis
    using wf side_orders_open_wf by (auto simp: checkInvariants_def book_wf_def)
qed

end
