(* ===== verification/Book_Overflow.thy ===== *)
theory Book_Overflow
  imports Book_Queries
begin

text \<open>
  The order book without the bound on open quantities.  Limit orders of one side rest without limit; a
  cached total then is the open quantity modulo \<open>2^64\<close>, whatever rests.
\<close>

fun add_all :: "OrderRef list \<Rightarrow> OrderBook \<Rightarrow> world \<Rightarrow> (Trade list \<times> OrderBook \<times> world) option" where
  "add_all [] b w = Some ([], b, w)"
| "add_all (r # rs) b w = do {
     (ts, b1, w1) \<leftarrow> book_addOrder r b w;
     (us, b2, w2) \<leftarrow> add_all rs b1 w1;
     Some (ts @ us, b2, w2) }"

definition side_of :: "Side \<Rightarrow> OrderBook \<Rightarrow> book_side" where
  "side_of sd b = (if sd = BUY then bids b else asks b)"

definition total_of :: "Side \<Rightarrow> OrderBook \<Rightarrow> Quantity" where
  "total_of sd b = (if sd = BUY then totalBidQty b else totalAskQty b)"

text \<open>Without the bound a cached total is still the open quantity, but only modulo \<open>2^64\<close>.\<close>

definition caches_modulo :: "(OrderRef \<Rightarrow> Order) \<Rightarrow> book_side \<Rightarrow> bool" where
  "caches_modulo h s \<longleftrightarrow> (\<forall>(p, L)\<in>set s. totalQty L = of_nat (rest_qty h (orders L)))"

lemma rest_qty_status: "rest_qty (heap (set_status r st w)) rs = rest_qty (heap w) rs"
  by (induction rs) (simp_all add: world_simps)

lemma caches_modulo_status: "caches_modulo (heap (set_status r st w)) s = caches_modulo (heap w) s"
  by (simp add: caches_modulo_def rest_qty_status)

lemma sum_levels_modulo:
  "caches_modulo h s \<Longrightarrow> sum_levels t s = t + of_nat (rest_qty h (side_refs s))"
  by (induction s arbitrary: t) (auto simp: caches_modulo_def ac_simps)

lemma total_modulo:
  assumes "caches_modulo h (side_of sd b)"
  shows "unat (total_of sd b) = rest_qty h (side_refs (side_of sd b)) mod 2 ^ 64"
  using sum_levels_modulo [OF assms, of 0]
  by (simp add: total_of_def side_of_def totalBidQty_def totalAskQty_def unat_of_nat split: if_splits)

lemma rest_modulo:
  assumes "ordered (side_lt sd) s" and "caches_modulo h s"
  shows "ordered (side_lt sd) (restOrder sd r h s) \<and> caches_modulo h (restOrder sd r h s) \<and>
    rest_qty h (side_refs (restOrder sd r h s)) = rest_qty h (side_refs s) + unat (remainingQty (h r)) \<and>
    fst ` set (restOrder sd r h s) = insert (oprice (h r)) (fst ` set s)"
proof (cases "smap_find (side_lt sd) (oprice (h r)) s")
  case None
  from side_cmp.find_split_none [OF assms(1) None] obtain xs ys where
    "s = xs @ ys" "\<forall>e\<in>set xs. side_lt sd (fst e) (oprice (h r))" "\<forall>e\<in>set ys. side_lt sd (oprice (h r)) (fst e)"
    "\<forall>v. smap_emplace (side_lt sd) (oprice (h r)) v s = xs @ (oprice (h r), v) # ys" by blast
  with None assms show ?thesis
    by (auto simp: restOrder_def Let_def caches_modulo_def level_addOrder_def PriceLevel_new_def sorted_wrt_append)
next
  case (Some L)
  from side_cmp.find_split_some [OF assms(1) Some] obtain xs ys where
    "s = xs @ (oprice (h r), L) # ys" "\<forall>u. smap_set (side_lt sd) (oprice (h r)) u s = xs @ (oprice (h r), u) # ys" by blast
  with Some assms show ?thesis
    by (auto simp: restOrder_def Let_def caches_modulo_def level_addOrder_def sorted_wrt_append)
qed

text \<open>A limit order on an otherwise empty market rests.\<close>

lemma limit_rests:
  assumes "otype (heap w r) = LIMIT" and "oside (heap w r) = sd" and "ofilledQty (heap w r) = 0"
    and "0 < oquantity (heap w r)" and "side_of (if sd = BUY then SELL else BUY) b = []"
  shows "\<exists>b'. book_addOrder r b w = Some ([], b', set_status r ACCEPTED w) \<and>
    side_of sd b' = restOrder sd r (heap (set_status r ACCEPTED w)) (side_of sd b) \<and>
    side_of (if sd = BUY then SELL else BUY) b' = []"
  using assms
  by (cases sd) (simp_all add: book_addOrder_def matchLimit_def drain_at_limit_def drain_asks_def drain_bids_def
      drainSide.simps drain_continues_def world_simps isFilled_def Let_def side_of_def word_gt_0)

lemma add_all_rests:
  assumes "\<forall>r\<in>set rs. otype (heap w r) = LIMIT \<and> oside (heap w r) = sd \<and> ofilledQty (heap w r) = 0 \<and> 0 < oquantity (heap w r)"
    and "side_of (if sd = BUY then SELL else BUY) b = []" and "ordered (side_lt sd) (side_of sd b)"
    and "caches_modulo (heap w) (side_of sd b)"
  shows "\<exists>b' w'. add_all rs b w = Some ([], b', w') \<and> side_of (if sd = BUY then SELL else BUY) b' = [] \<and>
    ordered (side_lt sd) (side_of sd b') \<and> caches_modulo (heap w') (side_of sd b') \<and>
    rest_qty (heap w') (side_refs (side_of sd b'))
      = rest_qty (heap w) (side_refs (side_of sd b)) + (\<Sum>r\<leftarrow>rs. unat (oquantity (heap w r))) \<and>
    fst ` set (side_of sd b') = fst ` set (side_of sd b) \<union> (\<lambda>r. oprice (heap w r)) ` set rs \<and>
    (\<forall>x. x \<notin> set rs \<longrightarrow> heap w' x = heap w x)"
  using assms
proof (induction rs arbitrary: b w)
  case Nil
  then show ?case by simp
next
  case (Cons r rs)
  let ?w = "set_status r ACCEPTED w"
  from limit_rests [of w r sd b] Cons.prems(1,2) obtain b1 where
    b1: "book_addOrder r b w = Some ([], b1, ?w)" "side_of sd b1 = restOrder sd r (heap ?w) (side_of sd b)"
      "side_of (if sd = BUY then SELL else BUY) b1 = []" by auto
  have q: "oquantity (heap ?w x) = oquantity (heap w x)" "oprice (heap ?w x) = oprice (heap w x)"
    "otype (heap ?w x) = otype (heap w x)" "oside (heap ?w x) = oside (heap w x)" "ofilledQty (heap ?w x) = ofilledQty (heap w x)" for x
    by (simp_all add: world_simps)
  from rest_modulo [OF Cons.prems(3), of "heap ?w" r] Cons.prems(4)
  have r1: "ordered (side_lt sd) (side_of sd b1)" "caches_modulo (heap ?w) (side_of sd b1)"
    "rest_qty (heap ?w) (side_refs (side_of sd b1)) = rest_qty (heap w) (side_refs (side_of sd b)) + unat (remainingQty (heap w r))"
    "fst ` set (side_of sd b1) = insert (oprice (heap w r)) (fst ` set (side_of sd b))"
    by (simp_all add: b1(2) caches_modulo_status rest_qty_status world_simps)
  have rem: "remainingQty (heap w r) = oquantity (heap w r)" using Cons.prems(1) by (simp add: remainingQty_def)
  from Cons.IH [of ?w b1] Cons.prems(1) b1(3) r1(1,2) obtain b' w' where
    r: "add_all rs b1 ?w = Some ([], b', w')" "side_of (if sd = BUY then SELL else BUY) b' = []"
      "ordered (side_lt sd) (side_of sd b')" "caches_modulo (heap w') (side_of sd b')"
      "rest_qty (heap w') (side_refs (side_of sd b'))
        = rest_qty (heap ?w) (side_refs (side_of sd b1)) + (\<Sum>r\<leftarrow>rs. unat (oquantity (heap ?w r)))"
      "fst ` set (side_of sd b') = fst ` set (side_of sd b1) \<union> (\<lambda>r. oprice (heap ?w r)) ` set rs"
      "\<forall>x. x \<notin> set rs \<longrightarrow> heap w' x = heap ?w x"
    by (auto simp: q)
  have "add_all (r # rs) b w = Some ([], b', w')" using b1(1) r(1) by simp
  moreover have "\<forall>x. x \<notin> set (r # rs) \<longrightarrow> heap w' x = heap w x" using r(7) by (auto simp: world_simps)
  ultimately show ?case
    using r(2-6) r1(3,4) rem by (intro exI [of _ b'] exI [of _ w']) (simp add: q)
qed

lemma one_level:
  assumes "ordered (side_lt sd) s" and "fst ` set s \<subseteq> {p}"
  shows "\<exists>L. s = [] \<or> s = [(p, L)]"
proof (cases s)
  case (Cons e s')
  with assms have e: "fst e = p" "\<forall>x\<in>set s'. side_lt sd p (fst x) \<and> fst x = p" by auto
  then have "s' = []" using side_cmp.lt_irrefl by (cases s') auto
  with Cons e(1) show ?thesis by (cases e) auto
qed simp

end
