(* ===== verification/Book_Properties.thy ===== *)
theory Book_Properties
  imports Book_Refines Book_Queries Book_Overflow
begin

text \<open>
  The properties of one order book, each stated over the operations of \<^verbatim>\<open>OrderBook.cpp\<close>, with a
  small concrete market on which their hypotheses hold.
\<close>

section \<open>A concrete market\<close>

text \<open>
  Two asks rest at 100 (quantities 5 and 4, in this order), one at 102 (quantity 6), one bid
  at 99 (quantity 7).  References 10 to 14 are incoming orders.
\<close>

definition demo_heap :: "OrderRef \<Rightarrow> Order" where
  "demo_heap r =
     (if r = 1 then Order_new 1 ''ABC'' SELL LIMIT (I64 100) 5 1
      else if r = 2 then Order_new 2 ''ABC'' SELL LIMIT (I64 100) 4 2
      else if r = 3 then Order_new 3 ''ABC'' SELL LIMIT (I64 102) 6 3
      else if r = 4 then Order_new 4 ''ABC'' BUY LIMIT (I64 99) 7 4
      else if r = 10 then Order_new 10 ''ABC'' BUY LIMIT (I64 101) 12 5
      else if r = 11 then Order_new 11 ''ABC'' BUY FOK (I64 102) 16 6
      else if r = 12 then Order_new 12 ''ABC'' BUY IOC (I64 98) 3 7
      else if r = 13 then Order_new 13 ''ABC'' SELL MARKET (I64 0) 9 8
      else Order_new 14 ''ABC'' BUY FOK (I64 102) 8 9)"

definition demo_world :: world where
  "demo_world = \<lparr>heap = demo_heap, clock = (\<lambda>n. 1000 + of_nat n), ticks = 0\<rparr>"

definition demo_book :: OrderBook where
  "demo_book =
     \<lparr>book_symbol = ''ABC'',
      bids = [(I64 99, \<lparr>lprice = I64 99, orders = [4], totalQty = 7\<rparr>)],
      asks = [(I64 100, \<lparr>lprice = I64 100, orders = [1, 2], totalQty = 9\<rparr>),
              (I64 102, \<lparr>lprice = I64 102, orders = [3], totalQty = 6\<rparr>)],
      index = [(1, \<lparr>loc_side = SELL, loc_price = I64 100\<rparr>), (2, \<lparr>loc_side = SELL, loc_price = I64 100\<rparr>),
               (3, \<lparr>loc_side = SELL, loc_price = I64 102\<rparr>), (4, \<lparr>loc_side = BUY, loc_price = I64 99\<rparr>)]\<rparr>"

lemmas demo_defs = demo_world_def demo_heap_def demo_book_def Order_new_def

lemma demo_book_wf: "book_wf (heap demo_world) demo_book"
  by (simp add: demo_defs book_wf_def side_wf_Cons level_wf_def resting_ok_def remainingQty_def
      book_refs_def index_ok_def loc_of_def uncrossed_def less_i64_def; blast)

lemma demo_can_add:
  "r \<in> {10, 11, 12, 13, 14} \<Longrightarrow> can_add (heap demo_world) r demo_book"
  by (auto simp: demo_defs can_add_def may_rest_def own_refs_def book_refs_def remainingQty_def)

lemma demo_types:
  "otype (heap demo_world 10) = LIMIT" "otype (heap demo_world 11) = FOK"
  "otype (heap demo_world 12) = IOC" "otype (heap demo_world 13) = MARKET"
  "otype (heap demo_world 14) = FOK"
  by (simp_all add: demo_defs)

lemma demo_added:
  assumes "r \<in> {10, 11, 12, 13, 14}"
  shows "\<exists>ts b' w'. book_addOrder r demo_book demo_world = Some (ts, b', w') \<and> added r demo_book demo_world ts b' w'"
  by (rule book_addOrder_correct [OF demo_book_wf demo_can_add [OF assms]])

lemma demo_spec_10:
  "spec_add (oside (heap demo_world 10)) (otype (heap demo_world 10)) (oprice (heap demo_world 10))
     (oid (heap demo_world 10)) (unat (oquantity (heap demo_world 10))) (abs_book (heap demo_world) demo_book)
   = ([((I64 100, 1), 5), ((I64 100, 2), 4)],
      \<lparr>abids = [((I64 101, 10), 3), ((I64 99, 4), 7)], aasks = [((I64 102, 3), 6)]\<rparr>)"
  by (simp add: demo_defs spec_execute_def spec_rest_def rest_remainder_def insert_rest_def
      match_side_def abs_book_def entry_of_def remainingQty_def Let_def less_i64_def less_eq_i64_def)

lemma add_runs:
  assumes "book_wf (heap w) b" and "can_add (heap w) inc b" and "book_addOrder inc b w = Some (ts, b', w')"
  shows "added inc b w ts b' w'"
  using book_addOrder_correct [OF assms(1,2)] assms(3) by auto

lemma side_prices_sorted:
  assumes "side_wf sd h s"
  shows "sorted_wrt (\<lambda>x y. \<not> side_lt sd (fst (fst y)) (fst (fst x))) (abs_side h s)"
  using assms
proof (induction s)
  case (Cons e s)
  obtain p L where e: "e = (p, L)" by (cases e)
  with Cons.prems have L: "level_wf sd h L" "lprice L = p" "side_wf sd h s" "\<forall>x\<in>set s. side_lt sd p (fst x)"
    by (simp_all add: side_wf_Cons)
  have "\<forall>y\<in>set (abs_side h s). \<not> side_lt sd (fst (fst y)) p"
    using L(4) side_cmp.lt_asym by (intro abs_side_keys [OF L(3)]) blast
  moreover have "\<forall>x\<in>set (map (entry_of h) (orders L)). fst (fst x) = p"
    using level_price [OF L(1)] L(2) by blast
  moreover from this have "sorted_wrt (\<lambda>x y. \<not> side_lt sd (fst (fst y)) (fst (fst x))) (map (entry_of h) (orders L))"
    using side_cmp.lt_irrefl [of sd p]
    by (intro sorted_wrt_mono_rel [OF _ sorted_wrt_true]) auto
  ultimately show ?case
    using Cons.IH [OF L(3)] unfolding e abs_side_simps sorted_wrt_append by simp
qed simp

section \<open>Adding an order\<close>

text \<open>
  C1: adding an order to a well-formed book always returns (no null dereference, no endless
  loop), and its trades and the book it leaves are those of the greedy price-time
  specification, for every order type.
\<close>

theorem addOrder_refines_spec:
  assumes "book_wf (heap w) b" and "can_add (heap w) inc b"
  shows "\<exists>ts b' w'. book_addOrder inc b w = Some (ts, b', w') \<and>
     (map abs_trade ts, abs_book (heap w') b')
       = spec_add (oside (heap w inc)) (otype (heap w inc)) (oprice (heap w inc)) (oid (heap w inc))
           (unat (oquantity (heap w inc))) (abs_book (heap w) b)"
  using book_addOrder_correct [OF assms] unfolding added_def Let_def by blast

theorem addOrder_refines_spec_witness:
  "\<exists>ts b' w'. book_addOrder 10 demo_book demo_world = Some (ts, b', w') \<and>
     map abs_trade ts = [((I64 100, 1), 5), ((I64 100, 2), 4)] \<and>
     abids (abs_book (heap w') b') = [((I64 101, 10), 3), ((I64 99, 4), 7)]"
proof -
  from addOrder_refines_spec [OF demo_book_wf demo_can_add [of 10], unfolded demo_spec_10]
  obtain ts b' w' where "book_addOrder 10 demo_book demo_world = Some (ts, b', w')"
    "map abs_trade ts = [((I64 100, 1), 5), ((I64 100, 2), 4)]"
    "abs_book (heap w') b' = \<lparr>abids = [((I64 101, 10), 3), ((I64 99, 4), 7)], aasks = [((I64 102, 3), 6)]\<rparr>"
    by auto
  then show ?thesis by (intro exI [of _ ts] exI [of _ b'] exI [of _ w']) simp
qed

text \<open>
  C2: the book invariant (ordered sides, nonempty levels whose cached totals are exact,
  open orders only, an index that locates exactly the resting orders, no cross) is kept by
  every addition.
\<close>

theorem addOrder_keeps_invariant:
  assumes "book_wf (heap w) b" and "can_add (heap w) inc b" and "book_addOrder inc b w = Some (ts, b', w')"
  shows "book_wf (heap w') b' \<and> book_symbol b' = book_symbol b"
  using add_runs [OF assms] by (simp add: added_def Let_def)

theorem addOrder_keeps_invariant_witness:
  "\<exists>ts b' w'. book_addOrder 13 demo_book demo_world = Some (ts, b', w') \<and> book_wf (heap w') b'"
  using demo_added [of 13] addOrder_keeps_invariant [OF demo_book_wf demo_can_add [of 13]] by blast

text \<open>
  C3: a fill-or-kill order trades its whole quantity if the orders of the other side at
  acceptable prices offer it; otherwise nothing changes but its status, which is CANCELLED.
\<close>

theorem fok_all_or_nothing:
  assumes "book_wf (heap w) b" and "can_add (heap w) inc b" and "otype (heap w inc) = FOK"
    and "book_addOrder inc b w = Some (ts, b', w')"
  shows "if unat (oquantity (heap w inc)) \<le> spec_liquidity (oside (heap w inc))
              (acceptable (oside (heap w inc)) (oprice (heap w inc))) (abs_book (heap w) b)
         then open_qty (map abs_trade ts) = unat (oquantity (heap w inc)) \<and>
              ofilledQty (heap w' inc) = oquantity (heap w inc) \<and> ostatus (heap w' inc) = FILLED
         else ts = [] \<and> b' = b \<and> w' = set_status inc CANCELLED w"
proof (cases "unat (oquantity (heap w inc)) \<le> spec_liquidity (oside (heap w inc))
              (limit_crosses (oside (heap w inc)) (oprice (heap w inc))) (abs_book (heap w) b)")
  case True
  note ad = add_runs [OF assms(1,2,4)]
  have "open_qty (map abs_trade ts) = unat (oquantity (heap w inc))"
    unfolding added_fills(1) [OF ad] assms(3) using execute_all [OF assms(1) True] True by simp
  with ad assms(3) True show ?thesis by (simp del: map_map add: added_def Let_def)
next
  case False
  from False assms(3,4) canFill_liquidity [OF assms(1), of "(heap w inc)\<lparr>ostatus := ACCEPTED\<rparr>"]
  show ?thesis by (simp add: book_addOrder_def matchFok_def world_simps)
qed

theorem fok_all_or_nothing_witness:
  "book_addOrder 11 demo_book demo_world = Some ([], demo_book, set_status 11 CANCELLED demo_world) \<and>
   (\<exists>ts b' w'. book_addOrder 14 demo_book demo_world = Some (ts, b', w') \<and> open_qty (map abs_trade ts) = 8)"
proof -
  note d = demo_defs spec_liquidity_def abs_book_def remainingQty_def entry_of_def less_eq_i64_def
  from demo_added [of 11] obtain ts b' w' where r: "book_addOrder 11 demo_book demo_world = Some (ts, b', w')"
    by auto
  from fok_all_or_nothing [OF demo_book_wf demo_can_add demo_types(2) r]
  have 1: "ts = [] \<and> b' = demo_book \<and> w' = set_status 11 CANCELLED demo_world" by (simp add: d)
  from demo_added [of 14] obtain us c' v' where s: "book_addOrder 14 demo_book demo_world = Some (us, c', v')"
    by auto
  from fok_all_or_nothing [OF demo_book_wf demo_can_add demo_types(5) s]
  have "open_qty (map abs_trade us) = 8" by (simp add: d)
  with r s 1 show ?thesis by blast
qed

text \<open>
  C4: price-time priority.  The other side, in book order, is sorted by price; the orders hit
  are an initial segment of it, each but the last is filled completely, and so no order
  is hit before one that is ahead of it is gone.
\<close>

theorem price_time_priority:
  assumes "book_wf (heap w) b" and "can_add (heap w) inc b" and "book_addOrder inc b w = Some (ts, b', w')"
  defines "other \<equiv> other_side (oside (heap w inc)) (abs_book (heap w) b)"
  shows "sorted_wrt (\<lambda>x y. \<not> better_price (opposite (oside (heap w inc))) (fst (fst y)) (fst (fst x))) other
    \<and> map (\<lambda>t. (tprice t, makerOrderId t)) ts = take (length ts) (map fst other)
    \<and> map abs_trade (butlast ts) = take (length ts - 1) other"
proof -
  note ad = add_runs [OF assms(1-3)]
  have "length ts = length (map abs_trade ts)" by simp
  then have n: "length (fst (spec_add (oside (heap w inc)) (otype (heap w inc)) (oprice (heap w inc))
      (oid (heap w inc)) (unat (oquantity (heap w inc))) (abs_book (heap w) b))) = length ts"
    unfolding added_fills(1) [OF ad] by simp
  have "map fst (map abs_trade ts) = take (length ts) (map fst other)"
    unfolding added_fills(1) [OF ad] other_def by (simp only: spec_add_priority(1) n)
  then have "map (\<lambda>t. (tprice t, makerOrderId t)) ts = take (length ts) (map fst other)"
    by (simp add: comp_def abs_trade_def)
  moreover have "butlast (map abs_trade ts) = take (length ts - 1) other"
    unfolding added_fills(1) [OF ad] other_def by (simp only: spec_add_priority(2) n)
  moreover have "sorted_wrt (\<lambda>x y. \<not> side_lt (opposite (oside (heap w inc))) (fst (fst y)) (fst (fst x))) other"
    using assms(1) side_prices_sorted [of "opposite (oside (heap w inc))" "heap w"]
    by (cases "oside (heap w inc)") (simp_all add: other_def other_side_def abs_book_def book_wf_def)
  ultimately show ?thesis by (simp add: map_butlast)
qed

theorem price_time_priority_witness:
  "\<exists>ts b' w'. book_addOrder 10 demo_book demo_world = Some (ts, b', w') \<and>
     map (\<lambda>t. (tprice t, makerOrderId t)) ts
       = take (length ts) [(I64 100, 1), (I64 100, 2), (I64 102, 3)]"
proof -
  from demo_added [of 10] obtain ts b' w' where r: "book_addOrder 10 demo_book demo_world = Some (ts, b', w')"
    by auto
  from price_time_priority [OF demo_book_wf demo_can_add r] r show ?thesis
    by (simp add: demo_defs other_side_def abs_book_def)
qed



text \<open>
  Only limit orders ever rest: after an addition the book knows the new id exactly when
  the order is a limit order with something left; market, immediate-or-cancel and
  fill-or-kill orders never enter the book.
\<close>

theorem only_limit_remainders_rest:
  assumes "book_wf (heap w) b" and "can_add (heap w) inc b" and "book_addOrder inc b w = Some (ts, b', w')"
  shows "hasOrder (oid (heap w inc)) b' \<longleftrightarrow>
    may_rest (otype (heap w inc)) \<and> open_qty (map abs_trade ts) < unat (oquantity (heap w inc))"
proof -
  note ad = add_runs [OF assms]
  have wf: "book_wf (heap w') b'" using ad by (simp add: added_def Let_def)
  have st: "oid (heap w' r) = oid (heap w r)" for r using same_staticD [OF added_static [OF ad]] by simp
  have "hasOrder (oid (heap w inc)) b' \<longleftrightarrow> inc \<in> set (book_refs b')"
  proof
    assume "hasOrder (oid (heap w inc)) b'"
    then obtain r where r: "r \<in> set (book_refs b')" "oid (heap w r) = oid (heap w inc)"
      using hasOrder_iff [OF wf] by (auto simp: st)
    then have "r \<notin> set (book_refs b)" using assms(2) by (metis can_add_def imageI)
    with r added_refs [OF ad r(1)] show "inc \<in> set (book_refs b')" by auto
  qed (use hasOrder_iff [OF wf] in \<open>auto simp: st\<close>)
  with ad show ?thesis by (simp del: map_map add: added_def Let_def)
qed

theorem only_limit_remainders_rest_witness:
  "\<exists>ts b' w'. book_addOrder 12 demo_book demo_world = Some (ts, b', w') \<and> \<not> hasOrder 12 b'"
proof -
  from demo_added [of 12] obtain ts b' w' where r: "book_addOrder 12 demo_book demo_world = Some (ts, b', w')"
    by auto
  from only_limit_remainders_rest [OF demo_book_wf demo_can_add r] r show ?thesis
    by (auto simp: may_rest_def demo_types) (simp add: demo_defs)
qed

text \<open>
  C6: every trade is with an order resting on the other side, at that order's price, which
  the taker's limit accepts (market orders have none), for a positive quantity, and it names
  the symbol of the book and both orders.
\<close>

theorem trades_respect_limits:
  assumes "book_wf (heap w) b" and "can_add (heap w) inc b" and "book_addOrder inc b w = Some (ts, b', w')"
    and "t \<in> set ts"
  shows "(\<exists>m\<in>set (book_refs b). makerOrderId t = oid (heap w m) \<and> tprice t = oprice (heap w m) \<and>
            oside (heap w m) = opposite (oside (heap w inc))) \<and>
    price_ok (oside (heap w inc)) (otype (heap w inc)) (oprice (heap w inc)) (tprice t) \<and>
    0 < tquantity t \<and> takerOrderId t = oid (heap w inc) \<and> tsymbol t = book_symbol b"
  using added_trade [OF assms(1) add_runs [OF assms(1-3)] assms(4)] by simp

theorem trades_respect_limits_witness:
  "\<exists>ts b' w'. book_addOrder 10 demo_book demo_world = Some (ts, b', w') \<and>
     ts \<noteq> [] \<and> tprice (hd ts) \<le> I64 101 \<and> 0 < tquantity (hd ts)"
proof -
  from demo_added [of 10] obtain ts b' w' where r: "book_addOrder 10 demo_book demo_world = Some (ts, b', w')"
    and ad: "added 10 demo_book demo_world ts b' w'" by auto
  have ne: "map abs_trade ts \<noteq> []" unfolding added_fills(1) [OF ad] demo_spec_10 by simp
  then have "hd ts \<in> set ts" by simp
  from trades_respect_limits [OF demo_book_wf demo_can_add r this] r ne show ?thesis
    by (intro exI [of _ ts] exI [of _ b'] exI [of _ w']) (simp add: price_ok_def demo_defs)
qed

text \<open>
  C7: quantity is conserved: what is traded leaves the other side, and the own side gains
  exactly the remainder a limit order rests.
\<close>

theorem addOrder_conserves_quantity:
  assumes "book_wf (heap w) b" and "can_add (heap w) inc b" and "book_addOrder inc b w = Some (ts, b', w')"
  shows "open_qty (map abs_trade ts) + open_qty (other_side (oside (heap w inc)) (abs_book (heap w') b'))
      = open_qty (other_side (oside (heap w inc)) (abs_book (heap w) b))
    \<and> open_qty (own_side (oside (heap w inc)) (abs_book (heap w') b'))
      = open_qty (own_side (oside (heap w inc)) (abs_book (heap w) b))
        + (if may_rest (otype (heap w inc))
           then unat (oquantity (heap w inc)) - open_qty (map abs_trade ts) else 0)"
  using add_runs [OF assms]
  by (simp del: map_map add: added_fills spec_add_conserves may_rest_def)

theorem addOrder_conserves_quantity_witness:
  "\<exists>ts b' w'. book_addOrder 13 demo_book demo_world = Some (ts, b', w') \<and>
     open_qty (map abs_trade ts) + open_qty (abids (abs_book (heap w') b')) = 7"
proof -
  from demo_added [of 13] obtain ts b' w' where r: "book_addOrder 13 demo_book demo_world = Some (ts, b', w')"
    by auto
  have "other_side (oside (heap demo_world 13)) ab = abids ab" for ab by (simp add: demo_defs other_side_def)
  with addOrder_conserves_quantity [OF demo_book_wf demo_can_add r] r show ?thesis
    by (intro exI [of _ ts] exI [of _ b'] exI [of _ w'])
      (simp del: map_map add: abs_book_def demo_book_def, simp add: demo_defs entry_of_def remainingQty_def)
qed

text \<open>
  C8: an addition writes to no order but the incoming one and orders resting in this book; a
  resting order that leaves is completely filled and FILLED, one that stays is untouched or
  PARTIALLY_FILLED, and ids, prices, sides and quantities never change.
\<close>

theorem addOrder_frame:
  assumes "book_wf (heap w) b" and "can_add (heap w) inc b" and "book_addOrder inc b w = Some (ts, b', w')"
  shows "(\<forall>r. r \<noteq> inc \<and> r \<notin> set (book_refs b) \<longrightarrow> heap w' r = heap w r) \<and>
    (\<forall>r. same_static (heap w' r) (heap w r)) \<and>
    (\<forall>r\<in>set (book_refs b). if r \<in> set (book_refs b')
        then heap w' r = heap w r \<or> ostatus (heap w' r) = PARTIALLY_FILLED
        else isFilled (heap w' r) \<and> ostatus (heap w' r) = FILLED)"
proof -
  note ad = add_runs [OF assms]
  then have "add_mem inc (heap w) (book_refs b) (heap w') (book_refs b')" by (simp add: added_def Let_def)
  with added_static [OF ad] show ?thesis by (simp add: add_mem_def)
qed

theorem addOrder_frame_witness:
  "\<exists>ts b' w'. book_addOrder 10 demo_book demo_world = Some (ts, b', w') \<and>
     ostatus (heap w' 2) = FILLED \<and> heap w' 20 = heap demo_world 20"
proof -
  from demo_added [of 10] obtain ts b' w' where r: "book_addOrder 10 demo_book demo_world = Some (ts, b', w')"
    and ad: "added 10 demo_book demo_world ts b' w'" by auto
  note F = addOrder_frame [OF demo_book_wf demo_can_add r]
  have ab: "abs_book (heap w') b'
      = \<lparr>abids = [((I64 101, 10), 3), ((I64 99, 4), 7)], aasks = [((I64 102, 3), 6)]\<rparr>"
    unfolding added_fills(2) [OF ad] demo_spec_10 by simp
  have "2 \<notin> set (book_refs b')"
  proof
    assume "2 \<in> set (book_refs b')"
    then have "entry_of (heap w') 2 \<in> set (abids (abs_book (heap w') b')) \<union> set (aasks (abs_book (heap w') b'))"
      by (auto simp: abs_book_def abs_side_def book_refs_def)
    moreover have "oid (heap w' 2) = oid (heap demo_world 2)"
      using F same_staticD [of "heap w' 2" "heap demo_world 2"] by blast
    then have "oid (heap w' 2) = 2" by (simp add: demo_defs)
    ultimately show False by (auto simp: ab entry_of_def)
  qed
  moreover have "2 \<in> set (book_refs demo_book)" "20 \<notin> set (book_refs demo_book)"
    by (simp_all add: demo_book_def book_refs_def)
  ultimately show ?thesis
    using F r by (intro exI [of _ ts] exI [of _ b'] exI [of _ w']) auto
qed

section \<open>Cancelling and reading\<close>

text \<open>
  C9: cancelling an id the book knows removes exactly the order with that id and nothing
  else, keeps the invariant and the order of everything else; cancelling any other id
  changes nothing and says so.
\<close>

theorem cancelOrder_refines_spec:
  assumes "book_wf h b" and "book_cancelOrder h i b = (found, b')"
  shows "found = hasOrder i b \<and> book_wf h b' \<and> abs_book h b' = spec_cancel i (abs_book h b) \<and>
    \<not> hasOrder i b' \<and> (\<forall>j. j \<noteq> i \<longrightarrow> hasOrder j b' = hasOrder j b) \<and> (\<not> found \<longrightarrow> b' = b)"
proof -
  have c: "found = hasOrder i b" "cancelled h i b b'"
    using book_cancelOrder_correct [OF assms(1), of i] assms(2) by simp_all
  then have wf: "book_wf h b'" and refs: "set (book_refs b') = {r \<in> set (book_refs b). oid (h r) \<noteq> i}"
    by (simp_all add: cancelled_def)
  have "b' = b" if "\<not> found" using book_cancelOrder_missing assms(2) c(1) that by (metis prod.inject)
  with c wf show ?thesis
    by (auto simp: cancelled_def hasOrder_iff [OF wf] hasOrder_iff [OF assms(1)] refs)
qed

theorem cancelOrder_refines_spec_witness:
  "\<exists>b'. book_cancelOrder (heap demo_world) 1 demo_book = (True, b') \<and>
     aasks (abs_book (heap demo_world) b') = [((I64 100, 2), 4), ((I64 102, 3), 6)]"
proof -
  obtain found b' where r: "book_cancelOrder (heap demo_world) 1 demo_book = (found, b')" by fastforce
  have "hasOrder 1 demo_book" by (simp add: hasOrder_def demo_book_def)
  moreover have "aasks (spec_cancel 1 (abs_book (heap demo_world) demo_book))
      = [((I64 100, 2), 4), ((I64 102, 3), 6)]"
    by (simp add: demo_defs spec_cancel_def abs_book_def entry_of_def remainingQty_def)
  ultimately show ?thesis
    using cancelOrder_refines_spec [OF demo_book_wf r] r by simp
qed

text \<open>
  C10: the best bid and ask are the prices of the first order in priority, no resting order
  has a better price, and on positive prices the spread is defined and positive.
\<close>

theorem best_prices_and_spread:
  assumes "book_wf h b"
  shows "bestBid b = best_of (abids (abs_book h b)) \<and> bestAsk b = best_of (aasks (abs_book h b)) \<and>
    (\<forall>p. bestBid b = Some p \<longrightarrow> (\<forall>e\<in>set (abids (abs_book h b)). fst (fst e) \<le> p)) \<and>
    (\<forall>p. bestAsk b = Some p \<longrightarrow> (\<forall>e\<in>set (aasks (abs_book h b)). p \<le> fst (fst e))) \<and>
    (\<forall>p q. bestBid b = Some p \<and> bestAsk b = Some q \<and> 0 < p \<longrightarrow>
       (\<exists>d. spread b = Some (Some d) \<and> i64_val d = i64_val q - i64_val p \<and> 0 < d))"
proof (intro conjI allI impI)
  show "bestBid b = best_of (abids (abs_book h b))" "bestAsk b = best_of (aasks (abs_book h b))"
    by (rule best_prices [OF assms])+
  show "\<forall>e\<in>set (abids (abs_book h b)). fst (fst e) \<le> p" if "bestBid b = Some p" for p
    using side_best_extreme [of BUY h "bids b" p] assms that
    by (auto simp: bestBid_def abs_book_def book_wf_def not_less)
  show "\<forall>e\<in>set (aasks (abs_book h b)). p \<le> fst (fst e)" if "bestAsk b = Some p" for p
    using side_best_extreme [of SELL h "asks b" p] assms that
    by (auto simp: bestAsk_def abs_book_def book_wf_def not_less)
  fix p q assume pq: "bestBid b = Some p \<and> bestAsk b = Some q \<and> 0 < p"
  then have lt: "i64_val p < i64_val q" "0 < i64_val p"
    using uncrossed_best [of b p q] assms by (auto simp: book_wf_def less_i64_def)
  then obtain d where "i64_sub q p = Some d" using i64_sub_defined [of q p] by auto
  with pq lt i64_sub_val [of q p d] show "\<exists>d. spread b = Some (Some d) \<and> i64_val d = i64_val q - i64_val p \<and> 0 < d"
    by (auto simp: spread_def i64_pos_iff)
qed

theorem best_prices_and_spread_witness:
  "bestBid demo_book = Some (I64 99) \<and> (\<exists>d. spread demo_book = Some (Some d) \<and> i64_val d = 1)"
proof -
  have "bestBid demo_book = Some (I64 99)" "bestAsk demo_book = Some (I64 100)" "(0::i64) < I64 99"
    by (simp_all add: demo_book_def bestBid_def bestAsk_def side_best_def less_i64_def)
  with best_prices_and_spread [OF demo_book_wf] show ?thesis by auto
qed

text \<open>
  C11: the depth views are the first price levels of the priority lists, a level being a maximal run
  of orders at one price; each shows the total and the number of all open orders at its price;
  the side totals are the sums of all open quantities, without wrap-around.
\<close>

theorem depth_and_totals:
  assumes "book_wf h b"
  shows "topBids n b = take (unat n) (price_levels (abids (abs_book h b))) \<and>
    topAsks n b = take (unat n) (price_levels (aasks (abs_book h b))) \<and>
    (\<forall>v\<in>set (topBids n b).
       unat (blqty v) = open_qty (filter (\<lambda>e. fst (fst e) = blprice v) (abids (abs_book h b))) \<and>
       blcount v = of_nat (length (filter (\<lambda>e. fst (fst e) = blprice v) (abids (abs_book h b))))) \<and>
    (\<forall>v\<in>set (topAsks n b).
       unat (blqty v) = open_qty (filter (\<lambda>e. fst (fst e) = blprice v) (aasks (abs_book h b))) \<and>
       blcount v = of_nat (length (filter (\<lambda>e. fst (fst e) = blprice v) (aasks (abs_book h b))))) \<and>
    unat (totalBidQty b) = open_qty (abids (abs_book h b)) \<and>
    unat (totalAskQty b) = open_qty (aasks (abs_book h b))"
proof -
  have "side_wf BUY h (bids b)" "side_wf SELL h (asks b)" using assms by (simp_all add: book_wf_def)
  then show ?thesis
    using depth_views [of n b] side_totals [OF assms] side_levels [of BUY h "bids b"] side_levels [of SELL h "asks b"]
      top_levels_totals [of BUY h "bids b" _ "unat n"] top_levels_totals [of SELL h "asks b" _ "unat n"]
    by (simp add: abs_book_def del: map_map)
qed

theorem depth_and_totals_witness:
  "topAsks 1 demo_book = [\<lparr>blprice = I64 100, blqty = 9, blcount = 2\<rparr>] \<and> unat (totalAskQty demo_book) = 15"
proof -
  have asks: "aasks (abs_book (heap demo_world) demo_book) = [((I64 100, 1), 5), ((I64 100, 2), 4), ((I64 102, 3), 6)]"
    by (simp add: demo_defs abs_book_def entry_of_def remainingQty_def)
  with depth_and_totals [OF demo_book_wf, of 1] show ?thesis by (simp add: Let_def)
qed

text \<open>The structural check of debug builds succeeds on every well-formed book.\<close>

theorem checkInvariants_holds:
  assumes "book_wf h b" shows "checkInvariants h b"
  by (rule checkInvariants_wf [OF assms])

theorem checkInvariants_holds_witness: "checkInvariants (heap demo_world) demo_book"
  by (rule checkInvariants_holds [OF demo_book_wf])

section \<open>Where the 64 bits end\<close>

text \<open>
  C12: whatever limit orders of one side rest, the book shows their total modulo \<open>2^64\<close>; and when they all
  rest at one price, a fill-or-kill order that may trade at it is killed as soon as it wants more than
  that residue, however much is offered.  So beyond \<open>2^64\<close> open units the bound of the other
  properties is needed.
\<close>

theorem totals_wrap_around:
  assumes "\<forall>r\<in>set rs. otype (heap w r) = LIMIT \<and> oside (heap w r) = sd \<and> ofilledQty (heap w r) = 0 \<and> 0 < oquantity (heap w r)"
    and "offered = (\<Sum>r\<leftarrow>rs. unat (oquantity (heap w r)))"
  shows "\<exists>b w'. add_all rs (OrderBook_new s) w = Some ([], b, w') \<and>
    open_qty (if sd = BUY then abids (abs_book (heap w') b) else aasks (abs_book (heap w') b)) = offered \<and>
    unat (if sd = BUY then totalBidQty b else totalAskQty b) = offered mod 2 ^ 64 \<and>
    (\<forall>x p. x \<notin> set rs \<and> otype (heap w x) = FOK \<and> oside (heap w x) \<noteq> sd \<and> (\<forall>r\<in>set rs. oprice (heap w r) = p) \<and>
       limit_crosses (oside (heap w x)) (oprice (heap w x)) p \<and> offered mod 2 ^ 64 < unat (oquantity (heap w x)) \<longrightarrow>
       book_addOrder x b w' = Some ([], b, set_status x CANCELLED w'))"
proof -
  have new: "side_of sd' (OrderBook_new s) = []" for sd' by (simp add: side_of_def OrderBook_new_def)
  from add_all_rests [OF assms(1), of "OrderBook_new s"] obtain b w' where
    r: "add_all rs (OrderBook_new s) w = Some ([], b, w')" "side_of (if sd = BUY then SELL else BUY) b = []"
      "ordered (side_lt sd) (side_of sd b)" "caches_modulo (heap w') (side_of sd b)"
      "rest_qty (heap w') (side_refs (side_of sd b)) = offered"
      "fst ` set (side_of sd b) = (\<lambda>r. oprice (heap w r)) ` set rs"
      "\<forall>x. x \<notin> set rs \<longrightarrow> heap w' x = heap w x"
    by (auto simp: new caches_modulo_def assms(2))
  have total: "unat (total_of sd b) = offered mod 2 ^ 64" using total_modulo [OF r(4)] r(5) by simp
  have kill: "book_addOrder x b w' = Some ([], b, set_status x CANCELLED w')"
    if x: "x \<notin> set rs" "otype (heap w x) = FOK" "oside (heap w x) \<noteq> sd" "\<forall>r\<in>set rs. oprice (heap w r) = p"
      "limit_crosses (oside (heap w x)) (oprice (heap w x)) p" "offered mod 2 ^ 64 < unat (oquantity (heap w x))" for x p
  proof -
    have h: "heap w' x = heap w x" using r(7) x(1) by blast
    have "fst ` set (side_of sd b) \<subseteq> {p}" using r(6) x(4) by auto
    with one_level [OF r(3)] obtain L where "side_of sd b = [] \<or> side_of sd b = [(p, L)]" by blast
    then have "availableFill (Some (limit_crosses (oside (heap w x)) (oprice (heap w x)))) (oquantity (heap w x)) 0 (side_of sd b)
        = total_of sd b"
      using x(5) by (auto simp: total_of_def side_of_def totalBidQty_def totalAskQty_def Let_def)
    moreover have "total_of sd b < oquantity (heap w x)" using x(6) total by (simp add: word_less_nat_alt)
    ultimately have "\<not> fok_canFill (heap (set_status x ACCEPTED w') x) b"
      using x(3) h by (cases sd; cases "oside (heap w x)") (simp_all add: fok_canFill_def world_simps side_of_def)
    then show ?thesis using x(2) h by (simp add: book_addOrder_def matchFok_def world_simps)
  qed
  have "open_qty (if sd = BUY then abids (abs_book (heap w') b) else aasks (abs_book (heap w') b)) = offered"
    using r(5) by (simp add: abs_book_def open_qty_abs_side side_of_def split: if_splits)
  moreover have "unat (if sd = BUY then totalBidQty b else totalAskQty b) = offered mod 2 ^ 64"
    using total by (simp add: total_of_def)
  ultimately show ?thesis using r(1) kill by (intro exI [of _ b] exI [of _ w']) blast
qed

definition wrap_world :: world where
  "wrap_world =
     \<lparr>heap = (\<lambda>r. if r = 1 then Order_new 1 ''X'' SELL LIMIT (I64 100) (2 ^ 63) 1
                  else if r = 2 then Order_new 2 ''X'' SELL LIMIT (I64 100) (2 ^ 63) 2
                  else Order_new 3 ''X'' BUY FOK (I64 100) 10 3),
      clock = of_nat, ticks = 0\<rparr>"

text \<open>Two sells of \<open>2^63\<close>: the total shows 0, and a fill-or-kill buy of 10 is killed.\<close>

theorem totals_wrap_around_witness:
  "\<exists>b w. add_all [1, 2] (OrderBook_new ''X'') wrap_world = Some ([], b, w) \<and>
     open_qty (aasks (abs_book (heap w) b)) = 2 ^ 64 \<and> totalAskQty b = 0 \<and>
     book_addOrder 3 b w = Some ([], b, set_status 3 CANCELLED w)"
proof -
  let ?qs = "\<Sum>r\<leftarrow>[1, 2]. unat (oquantity (heap wrap_world r))"
  have s: "\<forall>r\<in>set [1, 2]. otype (heap wrap_world r) = LIMIT \<and> oside (heap wrap_world r) = SELL \<and>
      ofilledQty (heap wrap_world r) = 0 \<and> 0 < oquantity (heap wrap_world r)"
    and q: "2 ^ 64 = ?qs"
    by (simp_all add: wrap_world_def Order_new_def)
  from totals_wrap_around [OF s q, of "''X''"] obtain b w where
    r: "add_all [1, 2] (OrderBook_new ''X'') wrap_world = Some ([], b, w)"
      "open_qty (aasks (abs_book (heap w) b)) = 2 ^ 64" "unat (totalAskQty b) = 0"
      "\<forall>x p. x \<notin> set [1, 2] \<and> otype (heap wrap_world x) = FOK \<and> oside (heap wrap_world x) \<noteq> SELL \<and>
         (\<forall>r\<in>set [1, 2]. oprice (heap wrap_world r) = p) \<and>
         limit_crosses (oside (heap wrap_world x)) (oprice (heap wrap_world x)) p \<and>
         2 ^ 64 mod 2 ^ 64 < unat (oquantity (heap wrap_world x)) \<longrightarrow>
         book_addOrder x b w = Some ([], b, set_status x CANCELLED w)" by auto
  have "book_addOrder 3 b w = Some ([], b, set_status 3 CANCELLED w)"
    by (rule r(4) [rule_format, of 3 "I64 100"]) (simp add: wrap_world_def Order_new_def less_eq_i64_def)
  moreover have "totalAskQty b = 0" using r(3) by (simp add: unat_eq_0)
  ultimately show ?thesis using r(1,2) by blast
qed

end
