(* ===== verification/Std_String.thy ===== *)
theory Std_String
  imports Prelude
begin

text \<open>
  The part of \<^verbatim>\<open>std::string\<close> the messages of the program use: \<^verbatim>\<open>std::to_string\<close> on unsigned and
  signed 64-bit integers, as decimal digits without leading zeros.  Reading the digits back
  gives the number, so a message identifies the id it quotes.
\<close>

definition digit_char :: "nat \<Rightarrow> char" where
  "digit_char d = char_of (48 + d)"

fun nat_digits :: "nat \<Rightarrow> string" where
  "nat_digits n = (if n < 10 then [digit_char n] else nat_digits (n div 10) @ [digit_char (n mod 10)])"

declare nat_digits.simps [simp del]

definition to_string_u64 :: "u64 \<Rightarrow> string" where
  "to_string_u64 x = nat_digits (unat x)"

definition to_string_i64 :: "i64 \<Rightarrow> string" where
  "to_string_i64 x =
     (if i64_val x < 0 then ''-'' @ nat_digits (nat (- i64_val x)) else nat_digits (nat (i64_val x)))"

definition digit_val :: "char \<Rightarrow> nat" where
  "digit_val c = of_char c - 48"

definition read_digits :: "string \<Rightarrow> nat" where
  "read_digits s = foldl (\<lambda>n c. 10 * n + digit_val c) 0 s"

lemma digit_val_char [simp]: "d < 10 \<Longrightarrow> digit_val (digit_char d) = d"
  by (simp add: digit_val_def digit_char_def of_char_of)

lemma digit_char_eval:
  "digit_char 0 = CHR ''0''"
  "digit_char (Suc 0) = CHR ''1''"
  "digit_char 2 = CHR ''2''"
  "digit_char 3 = CHR ''3''"
  "digit_char 4 = CHR ''4''"
  "digit_char 5 = CHR ''5''"
  "digit_char 6 = CHR ''6''"
  "digit_char 7 = CHR ''7''"
  "digit_char 8 = CHR ''8''"
  "digit_char 9 = CHR ''9''"
  by (simp_all add: digit_char_def char_of_def bit_Suc_0_iff)

lemma digit_char_not_minus: "d < 10 \<Longrightarrow> digit_char d \<noteq> CHR ''-''"
proof
  assume d: "d < 10" and "digit_char d = CHR ''-''"
  then have "of_char (digit_char d) = (45 :: nat)" by simp
  with d show False by (simp add: digit_char_def of_char_of)
qed

lemma read_nat_digits: "read_digits (nat_digits n) = n"
proof (induction n rule: nat_digits.induct)
  case (1 n)
  show ?case
  proof (cases "n < 10")
    case False
    with 1 have "read_digits (nat_digits (n div 10)) = n div 10" by simp
    with False show ?thesis by (subst nat_digits.simps) (simp add: read_digits_def)
  qed (subst nat_digits.simps, simp add: read_digits_def)
qed

lemma nat_digits_inject [simp]: "nat_digits m = nat_digits n \<longleftrightarrow> m = n"
  by (metis read_nat_digits)

lemma nat_digits_not_Nil [simp]: "nat_digits n \<noteq> []"
  by (subst nat_digits.simps) auto

lemma hd_nat_digits: "hd (nat_digits n) \<noteq> CHR ''-''"
proof (induction n rule: nat_digits.induct)
  case (1 n)
  then show ?case
    by (subst nat_digits.simps) (auto simp: digit_char_not_minus hd_append)
qed

lemma to_string_u64_inject [simp]: "to_string_u64 x = to_string_u64 y \<longleftrightarrow> x = y"
  by (simp add: to_string_u64_def) (metis unat_eq_of_nat)

lemma to_string_i64_inject [simp]: "to_string_i64 x = to_string_i64 y \<longleftrightarrow> x = y"
proof
  assume eq: "to_string_i64 x = to_string_i64 y"
  have minus: "hd (to_string_i64 z) = CHR ''-'' \<longleftrightarrow> i64_val z < 0" for z
    by (simp add: to_string_i64_def hd_nat_digits)
  have "i64_val x < 0 \<longleftrightarrow> i64_val y < 0" using eq minus by metis
  with eq have "nat (\<bar>i64_val x\<bar>) = nat (\<bar>i64_val y\<bar>)"
    by (cases "i64_val x < 0") (simp_all add: to_string_i64_def)
  with \<open>i64_val x < 0 \<longleftrightarrow> i64_val y < 0\<close> have "i64_val x = i64_val y"
    by (cases "i64_val x < 0") linarith+
  then show "x = y" by simp
qed simp

end
