(* ===== verification/Risk_Validator.thy ===== *)
theory Risk_Validator
  imports Core_Types Std_String
begin

text \<open>
  \<^verbatim>\<open>include/core/RiskValidator.hpp\<close>: the pre-trade checks in the order of the source, each with
  its reason.  The two \<^verbatim>\<open>unordered_set\<close>s are sets: only insertion and membership are used.
\<close>

record RiskValidator =
  symbols :: "Symbol set"
  usedIds :: "OrderId set"

record ValidationResult =
  vr_ok :: bool
  vr_reason :: string

definition RiskValidator_new :: RiskValidator where
  "RiskValidator_new = \<lparr>symbols = {}, usedIds = {}\<rparr>"

definition validator_registerSymbol :: "Symbol \<Rightarrow> RiskValidator \<Rightarrow> RiskValidator" where
  "validator_registerSymbol s v = v\<lparr>symbols := insert s (symbols v)\<rparr>"

definition validate :: "Order \<Rightarrow> RiskValidator \<Rightarrow> ValidationResult" where
  "validate o1 v =
     (if oquantity o1 = 0 then \<lparr>vr_ok = False, vr_reason = ''quantity must be > 0''\<rparr>
      else if otype o1 = LIMIT \<and> oprice o1 \<le> 0
      then \<lparr>vr_ok = False, vr_reason = ''limit order price must be > 0''\<rparr>
      else if osymbol o1 \<notin> symbols v
      then \<lparr>vr_ok = False, vr_reason = ''unknown symbol: '' @ osymbol o1\<rparr>
      else if oid o1 \<in> usedIds v
      then \<lparr>vr_ok = False, vr_reason = ''duplicate order id: '' @ to_string_u64 (oid o1)\<rparr>
      else \<lparr>vr_ok = True, vr_reason = ''''\<rparr>)"

definition recordId :: "OrderId \<Rightarrow> RiskValidator \<Rightarrow> RiskValidator" where
  "recordId i v = v\<lparr>usedIds := insert i (usedIds v)\<rparr>"

definition acceptable_order :: "Order \<Rightarrow> RiskValidator \<Rightarrow> bool" where
  "acceptable_order o1 v \<longleftrightarrow>
     0 < oquantity o1 \<and> (otype o1 = LIMIT \<longrightarrow> 0 < oprice o1) \<and>
     osymbol o1 \<in> symbols v \<and> oid o1 \<notin> usedIds v"

lemma validate_ok: "vr_ok (validate o1 v) \<longleftrightarrow> acceptable_order o1 v"
  by (auto simp: validate_def acceptable_order_def word_neq_0_conv not_le)

text \<open>The reason tells the verdict, and which check failed.\<close>

lemma validate_reason:
  "vr_reason (validate o1 v) = '''' \<longleftrightarrow> acceptable_order o1 v"
  by (auto simp: validate_def acceptable_order_def word_neq_0_conv not_le)

lemma validate_duplicate:
  "vr_reason (validate o1 v) = ''duplicate order id: '' @ to_string_u64 i \<longleftrightarrow>
     i = oid o1 \<and> oid o1 \<in> usedIds v \<and> osymbol o1 \<in> symbols v \<and> 0 < oquantity o1 \<and>
     (otype o1 = LIMIT \<longrightarrow> 0 < oprice o1)"
  by (auto simp: validate_def word_neq_0_conv not_le)

lemma validate_recorded:
  "acceptable_order o1 (recordId i v) \<longleftrightarrow> acceptable_order o1 v \<and> oid o1 \<noteq> i"
  by (auto simp: acceptable_order_def recordId_def)

end
