(* ===== verification/Matching_Engine.thy ===== *)
theory Matching_Engine
  imports Risk_Validator Order_Book
begin

text \<open>
  \<^verbatim>\<open>include/core/MatchingEngine.hpp\<close> and \<^verbatim>\<open>src/core/MatchingEngine.cpp\<close>: one order book per symbol, the
  validator in front of them, and the counters.  \<^verbatim>\<open>books_\<close> is an \<^verbatim>\<open>unordered_map\<close> that is only
  searched and inserted into, hence a map.  \<^verbatim>\<open>submitOrder\<close> is partial because \<^verbatim>\<open>addOrder\<close> is.
\<close>

record EngineResult =
  rstatus :: OrderStatus
  rtrades :: "Trade list"
  rejectReason :: string

record MatchingEngine =
  books :: "Symbol \<Rightarrow> OrderBook option"
  validator :: RiskValidator
  ordersProcessed :: u64
  tradesGenerated :: u64

definition MatchingEngine_new :: MatchingEngine where
  "MatchingEngine_new =
     \<lparr>books = Map.empty, validator = RiskValidator_new, ordersProcessed = 0, tradesGenerated = 0\<rparr>"

text \<open>\<^verbatim>\<open>emplace\<close> keeps a book that is already there.\<close>

definition registerSymbol :: "Symbol \<Rightarrow> MatchingEngine \<Rightarrow> MatchingEngine" where
  "registerSymbol s e =
     e\<lparr>books := (case books e s of None \<Rightarrow> (books e)(s \<mapsto> OrderBook_new s) | Some _ \<Rightarrow> books e),
       validator := validator_registerSymbol s (validator e)\<rparr>"

definition engine_cancelOrder ::
  "Symbol \<Rightarrow> OrderId \<Rightarrow> MatchingEngine \<Rightarrow> world \<Rightarrow> EngineResult \<times> MatchingEngine" where
  "engine_cancelOrder s i e w =
     (case books e s of
        None \<Rightarrow> (\<lparr>rstatus = REJECTED, rtrades = [], rejectReason = ''unknown symbol''\<rparr>, e)
      | Some b \<Rightarrow>
          let (c, b') = book_cancelOrder (heap w) i b;
              e' = e\<lparr>books := (books e)(s \<mapsto> b')\<rparr>
          in if \<not> c
             then (\<lparr>rstatus = REJECTED, rtrades = [],
                    rejectReason = ''order not found: '' @ to_string_u64 i\<rparr>, e')
             else (\<lparr>rstatus = CANCELLED, rtrades = [], rejectReason = ''''\<rparr>, e'))"

definition submit_reason :: "Order \<Rightarrow> string" where
  "submit_reason o1 =
     (if ostatus o1 = CANCELLED
      then (if otype o1 = FOK then ''FOK: insufficient liquidity''
            else if otype o1 = IOC then ''IOC: no fill at limit price'' else '''')
      else '''')"

definition submitOrder ::
  "OrderRef \<Rightarrow> MatchingEngine \<Rightarrow> world \<Rightarrow> (EngineResult \<times> MatchingEngine \<times> world) option" where
  "submitOrder r e0 w =
     (let e = e0\<lparr>ordersProcessed := ordersProcessed e0 + 1\<rparr>; o1 = heap w r
      in if otype o1 = CANCEL
         then (let (res, e') = engine_cancelOrder (osymbol o1) (oid o1) e w in Some (res, e', w))
         else let vr = validate o1 (validator e)
              in if \<not> vr_ok vr
                 then Some (\<lparr>rstatus = REJECTED, rtrades = [], rejectReason = vr_reason vr\<rparr>, e,
                            set_status r REJECTED w)
                 else let e1 = e\<lparr>validator := recordId (oid o1) (validator e)\<rparr>
                      in case books e1 (osymbol o1) of
                           None \<Rightarrow> Some (\<lparr>rstatus = REJECTED, rtrades = [],
                                          rejectReason = ''no book for symbol''\<rparr>, e1,
                                         set_status r REJECTED w)
                         | Some b \<Rightarrow> do {
                             (trades, b', w') \<leftarrow> book_addOrder r b w;
                             let e2 = e1\<lparr>books := (books e1)(osymbol o1 \<mapsto> b'),
                                         tradesGenerated := tradesGenerated e1 + of_nat (length trades)\<rparr>;
                             Some (\<lparr>rstatus = ostatus (heap w' r), rtrades = trades,
                                    rejectReason = submit_reason (heap w' r)\<rparr>, e2, w')
                           })"

definition engine_book :: "Symbol \<Rightarrow> MatchingEngine \<Rightarrow> OrderBook option" where
  "engine_book s e = books e s"

end
