(* ===== verification/Engine_Submit.thy ===== *)
theory Engine_Submit
  imports Engine_Inv
begin

text \<open>
  \<^verbatim>\<open>submitOrder\<close> under the engine invariant: the three ways it can go, the invariant after each,
  and what a submission may not touch.
\<close>

section \<open>The three outcomes of a submission\<close>

text \<open>An order that passes the checks reaches its book.\<close>

definition executed ::
  "OrderRef \<Rightarrow> MatchingEngine \<Rightarrow> world \<Rightarrow> EngineResult \<Rightarrow> MatchingEngine \<Rightarrow> world \<Rightarrow> OrderBook \<Rightarrow> OrderBook \<Rightarrow> bool" where
  "executed r e w res e' w' b b' \<longleftrightarrow>
     books e (osymbol (heap w r)) = Some b \<and> added r b w (rtrades res) b' w' \<and>
     rstatus res = ostatus (heap w' r) \<and> rejectReason res = submit_reason (heap w' r) \<and>
     e' = e\<lparr>books := (books e)(osymbol (heap w r) \<mapsto> b'),
            validator := recordId (oid (heap w r)) (validator e),
            ordersProcessed := ordersProcessed e + 1,
            tradesGenerated := tradesGenerated e + of_nat (length (rtrades res))\<rparr>"

lemma submit_cancel:
  "otype (heap w r) = CANCEL \<Longrightarrow>
     submitOrder r e w = (let (res, e') = engine_cancelOrder (osymbol (heap w r)) (oid (heap w r))
                             (e\<lparr>ordersProcessed := ordersProcessed e + 1\<rparr>) w in Some (res, e', w))"
  by (simp add: submitOrder_def Let_def)

lemma submit_rejected:
  "otype (heap w r) \<noteq> CANCEL \<Longrightarrow> \<not> acceptable_order (heap w r) (validator e) \<Longrightarrow>
     submitOrder r e w =
       Some (\<lparr>rstatus = REJECTED, rtrades = [], rejectReason = vr_reason (validate (heap w r) (validator e))\<rparr>,
             e\<lparr>ordersProcessed := ordersProcessed e + 1\<rparr>, set_status r REJECTED w)"
  by (simp add: submitOrder_def Let_def validate_ok)

lemma engine_can_add:
  assumes inv: "engine_inv e w" and fits: "engine_fits r e w"
    and ty: "otype (heap w r) \<noteq> CANCEL" and ok: "acceptable_order (heap w r) (validator e)"
    and b: "books e (osymbol (heap w r)) = Some b"
  shows "can_add (heap w) r b"
proof -
  have new: "oid (heap w r) \<notin> usedIds (validator e)" using ok by (simp add: acceptable_order_def)
  then have "ofilledQty (heap w r) = 0" using inv by (simp add: engine_inv_def)
  moreover have "oid (heap w r) \<notin> (\<lambda>r. oid (heap w r)) ` set (book_refs b)"
    using new engine_invD(6) [OF inv b] by force
  ultimately show ?thesis
    using fits b ty by (auto simp: can_add_def may_rest_def engine_fits_def)
qed

lemma submit_executed:
  assumes inv: "engine_inv e w" and fits: "engine_fits r e w"
    and ty: "otype (heap w r) \<noteq> CANCEL" and ok: "acceptable_order (heap w r) (validator e)"
  shows "\<exists>res e' w' b b'. submitOrder r e w = Some (res, e', w') \<and> executed r e w res e' w' b b'"
proof -
  have "osymbol (heap w r) \<in> symbols (validator e)" using ok by (simp add: acceptable_order_def)
  then obtain b where b: "books e (osymbol (heap w r)) = Some b"
    using inv by (auto simp: engine_inv_def)
  from book_addOrder_correct [OF engine_invD(1) [OF inv b] engine_can_add [OF assms b]] obtain ts b' w' where
    ts: "book_addOrder r b w = Some (ts, b', w')" "added r b w ts b' w'"
    by blast
  let ?res = "\<lparr>rstatus = ostatus (heap w' r), rtrades = ts, rejectReason = submit_reason (heap w' r)\<rparr>"
  let ?e = "e\<lparr>books := (books e)(osymbol (heap w r) \<mapsto> b'),
      validator := recordId (oid (heap w r)) (validator e), ordersProcessed := ordersProcessed e + 1,
      tradesGenerated := tradesGenerated e + of_nat (length ts)\<rparr>"
  have "submitOrder r e w = Some (?res, ?e, w')"
    using ty ok b ts(1) by (simp add: submitOrder_def Let_def validate_ok)
  moreover have "executed r e w ?res ?e w' b b'"
    using b ts(2) by (simp add: executed_def)
  ultimately show ?thesis by blast
qed

lemma executed_inv:
  assumes inv: "engine_inv e w" and ty: "otype (heap w r) \<noteq> CANCEL"
    and ok: "acceptable_order (heap w r) (validator e)"
    and ex: "executed r e w res e' w' b b'"
  shows "engine_inv e' w'"
proof -
  let ?s = "osymbol (heap w r)"
  have b: "books e ?s = Some b" and ad: "added r b w (rtrades res) b' w'" using ex by (auto simp: executed_def)
  have bk: "books e' = (books e)(?s \<mapsto> b')" using ex by (simp add: executed_def)
  have v: "validator e' = recordId (oid (heap w r)) (validator e)" using ex by (simp add: executed_def)
  have st: "oid (heap w' x) = oid (heap w x)" "osymbol (heap w' x) = osymbol (heap w x)"
    "otype (heap w' x) = otype (heap w x)" "oprice (heap w' x) = oprice (heap w x)" for x
    using same_staticD [OF added_static [OF ad, of x]] by simp_all
  have new: "oid (heap w r) \<notin> usedIds (validator e)" using ok by (simp add: acceptable_order_def)
  have refs: "engine_refs e' \<subseteq> insert r (engine_refs e)"
    using added_refs [OF ad] b by (fastforce simp: engine_refs_def bk split: if_splits)
  show ?thesis
  proof (rule engine_inv_replace [OF inv b bk])
    show "symbols (validator e') = symbols (validator e)" "usedIds (validator e) \<subseteq> usedIds (validator e')"
      by (auto simp: v recordId_def)
    show "book_wf (heap w') b'" "book_symbol b' = ?s"
      using ad engine_invD(2) [OF inv b] by (auto simp: added_def Let_def)
    show "\<forall>x\<in>set (book_refs b'). rests_in e' ?s (heap w' x)"
    proof
      fix x assume "x \<in> set (book_refs b')"
      from added_refs [OF ad this] show "rests_in e' ?s (heap w' x)"
      proof
        assume "x = r \<and> may_rest (otype (heap w r))"
        with ty ok show ?thesis
          by (auto simp: rests_in_def st v recordId_def may_rest_def acceptable_order_def)
      next
        assume "x \<in> set (book_refs b)"
        from engine_invD(4) [OF inv b this] show ?thesis
          by (auto simp: rests_in_def st v recordId_def)
      qed
    qed
    show "heap w' x = heap w x" if "s2 \<noteq> ?s" "books e s2 = Some b2" "x \<in> set (book_refs b2)" for s2 b2 x
    proof -
      have "osymbol (heap w x) = s2" "oid (heap w x) \<in> usedIds (validator e)"
        using engine_invD(5,6) [OF inv that(2,3)] .
      with that(1) new engine_invD(5) [OF inv b] show ?thesis
        by (intro added_frame [OF ad]) auto
    qed
    have "inj_on (\<lambda>x. oid (heap w x)) (insert r (engine_refs e))"
      using inv new engine_refs_used [OF inv] by (auto simp: engine_inv_def image_iff)
    with refs show "inj_on (\<lambda>x. oid (heap w' x)) (engine_refs e')"
      by (auto simp: st intro: inj_on_subset)
    show "ofilledQty (heap w' x) = 0" if "oid (heap w' x) \<notin> usedIds (validator e')" for x
    proof -
      have "x \<noteq> r" "oid (heap w x) \<notin> usedIds (validator e)" using that by (auto simp: st v recordId_def)
      with inv engine_invD(6) [OF inv b] show ?thesis
        by (subst added_frame [OF ad]) (auto simp: engine_inv_def)
    qed
  qed
qed

end
