(* ===== verification/Engine_Steps.thy ===== *)
theory Engine_Steps
  imports Engine_Submit
begin

text \<open>
  The engine as a state machine.  A client registers symbols, constructs orders, submits them
  (again, if it likes) and cancels by id; one event is one call.  Other components may read the
  clock in between.  An order is constructed at
  an address no book refers to.  A submission is a step only while the open quantity of the
  side it would rest on fits in 64 bits.  Reachable states satisfy the engine invariant, no
  submission gets stuck, and an id that has left the books never comes back.
\<close>

section \<open>Events and steps\<close>

datatype event =
    Register Symbol
  | Construct OrderRef OrderId Symbol Side OrderType Price Quantity Timestamp
  | Submit OrderRef
  | Cancel Symbol OrderId
  | Read_Clock

inductive engine_step ::
  "MatchingEngine \<times> world \<Rightarrow> event \<Rightarrow> EngineResult option \<Rightarrow> MatchingEngine \<times> world \<Rightarrow> bool" where
  step_register: "engine_step (e, w) (Register s) None (registerSymbol s e, w)"
| step_construct:
    "r \<notin> engine_refs e \<Longrightarrow>
     engine_step (e, w) (Construct r i s sd ty p q ts) None
       (e, upd_order r (\<lambda>_. Order_new i s sd ty p q ts) w)"
| step_submit:
    "engine_fits r e w \<Longrightarrow> submitOrder r e w = Some (res, e', w') \<Longrightarrow>
     engine_step (e, w) (Submit r) (Some res) (e', w')"
| step_cancel:
    "engine_cancelOrder s i e w = (res, e') \<Longrightarrow>
     engine_step (e, w) (Cancel s i) (Some res) (e', w)"
| step_clock: "engine_step (e, w) Read_Clock None (e, snd (nowNs w))"

inductive_cases step_registerE: "engine_step st (Register s) out st'"
inductive_cases step_constructE: "engine_step st (Construct r i s sd ty p q ts) out st'"
inductive_cases step_submitE: "engine_step st (Submit r) out st'"
inductive_cases step_cancelE: "engine_step st (Cancel s i) out st'"
inductive_cases step_clockE: "engine_step st Read_Clock out st'"

lemmas step_elims = step_registerE step_constructE step_submitE step_cancelE step_clockE

inductive engine_run ::
  "MatchingEngine \<times> world \<Rightarrow> (event \<times> EngineResult option) list \<Rightarrow> MatchingEngine \<times> world \<Rightarrow> bool" where
  run_nil: "engine_run st [] st"
| run_step: "engine_step st ev out st1 \<Longrightarrow> engine_run st1 tr st2 \<Longrightarrow> engine_run st ((ev, out) # tr) st2"

inductive_cases run_nilE: "engine_run st [] st'"
inductive_cases run_consE: "engine_run st (x # tr) st'"

definition engine_start :: "MatchingEngine \<times> world \<Rightarrow> bool" where
  "engine_start st \<longleftrightarrow> fst st = MatchingEngine_new \<and> (\<forall>r. ofilledQty (heap (snd st) r) = 0)"

definition engine_reachable :: "MatchingEngine \<times> world \<Rightarrow> bool" where
  "engine_reachable st \<longleftrightarrow> (\<exists>st0 tr. engine_start st0 \<and> engine_run st0 tr st)"

section \<open>The invariant holds in every reachable state\<close>

abbreviation state_inv :: "MatchingEngine \<times> world \<Rightarrow> bool" where
  "state_inv st \<equiv> engine_inv (fst st) (snd st)"

lemma engine_inv_counter:
  "engine_inv (e\<lparr>ordersProcessed := n\<rparr>) w = engine_inv e w"
  by (simp add: engine_inv_def rests_in_def engine_refs_def)

lemma engine_inv_clock: "engine_inv e (snd (nowNs w)) = engine_inv e w"
  by (simp add: engine_inv_def world_simps)

lemma engine_inv_status:
  assumes "engine_inv e w" and "\<And>r. \<exists>s. heap w' r = (heap w r)\<lparr>ostatus := s\<rparr>"
  shows "engine_inv e w'"
proof -
  have f: "oid (heap w' r) = oid (heap w r)" "osymbol (heap w' r) = osymbol (heap w r)"
    "otype (heap w' r) = otype (heap w r)" "oprice (heap w' r) = oprice (heap w r)"
    "oside (heap w' r) = oside (heap w r)" "oquantity (heap w' r) = oquantity (heap w r)"
    "ofilledQty (heap w' r) = ofilledQty (heap w r)" for r
    using assms(2) [of r] by auto
  then have g: "remainingQty (heap w' r) = remainingQty (heap w r)" for r
    by (simp add: remainingQty_def)
  have "book_wf (heap w') b = book_wf (heap w) b" for b
    by (simp add: book_wf_def side_wf_def level_wf_def resting_ok_def index_ok_def loc_of_def rest_qty_def f g)
  then show ?thesis using assms(1) unfolding engine_inv_def rests_in_def f by simp
qed

lemma engine_inv_construct:
  assumes inv: "engine_inv e w" and r: "r \<notin> engine_refs e"
  shows "engine_inv e (upd_order r (\<lambda>_. Order_new i s sd ty p q ts) w)"
proof -
  let ?w = "upd_order r (\<lambda>_. Order_new i s sd ty p q ts) w"
  have h: "heap ?w x = heap w x" if "x \<in> engine_refs e" for x
    using r that by (auto simp: world_simps)
  have wf: "book_wf (heap ?w) b" if "books e s2 = Some b" for s2 b
  proof -
    have "heap ?w x = heap w x" if "x \<in> set (book_refs b)" for x
      using h that \<open>books e s2 = Some b\<close> by (auto simp: engine_refs_def)
    then have "book_wf (heap ?w) b = book_wf (heap w) b" by (rule book_wf_cong)
    with engine_invD(1) [OF inv that] show ?thesis by simp
  qed
  have "rests_in e s2 (heap ?w x)" if that: "books e s2 = Some b" "x \<in> set (book_refs b)" for s2 b x
  proof -
    have "x \<in> engine_refs e" using that by (auto simp: engine_refs_def)
    with engine_invD(4) [OF inv that] show ?thesis by (simp only: h)
  qed
  moreover have "inj_on (\<lambda>x. oid (heap ?w x)) (engine_refs e)"
    using inv h by (simp add: engine_inv_def cong: inj_on_cong)
  moreover have "ofilledQty (heap ?w x) = 0" if "oid (heap ?w x) \<notin> usedIds (validator e)" for x
    using that inv by (auto simp: world_simps Order_new_def engine_inv_def)
  ultimately show ?thesis
    using inv wf unfolding engine_inv_def by simp
qed

lemma submit_inv:
  assumes inv: "engine_inv e w" and fits: "engine_fits r e w"
  shows "\<exists>res e' w'. submitOrder r e w = Some (res, e', w') \<and> engine_inv e' w'"
proof (cases "otype (heap w r) = CANCEL")
  case True
  have "engine_inv (e\<lparr>ordersProcessed := ordersProcessed e + 1\<rparr>) w"
    using inv by (simp add: engine_inv_counter)
  from engine_cancel_inv [OF this, of "osymbol (heap w r)" "oid (heap w r)"] True show ?thesis
    by (auto simp: submit_cancel split: prod.splits)
next
  case False
  show ?thesis
  proof (cases "acceptable_order (heap w r) (validator e)")
    case True
    from submit_executed [OF inv fits False True] executed_inv [OF inv False True] show ?thesis
      by blast
  next
    case nok: False
    have "engine_inv (e\<lparr>ordersProcessed := ordersProcessed e + 1\<rparr>) (set_status r REJECTED w)"
    proof (rule engine_inv_status)
      show "engine_inv (e\<lparr>ordersProcessed := ordersProcessed e + 1\<rparr>) w"
        using inv by (simp add: engine_inv_counter)
      show "\<exists>s. heap (set_status r REJECTED w) x = (heap w x)\<lparr>ostatus := s\<rparr>" for x
        by (cases "x = r") (auto simp: world_simps intro: exI [of _ "ostatus (heap w x)"])
    qed
    with submit_rejected [OF False nok] show ?thesis by simp
  qed
qed

lemma step_inv:
  assumes "engine_step st ev out st'" and "state_inv st"
  shows "state_inv st'"
  using assms
proof (cases rule: engine_step.cases)
  case (step_submit r e w res e' w')
  with submit_inv [of e w r] assms(2) show ?thesis by auto
next
  case (step_cancel s i e w res e')
  with engine_cancel_inv [of e w s i] assms(2) show ?thesis by simp
qed (auto simp: registerSymbol_inv engine_inv_construct engine_inv_clock)

lemma run_inv: "engine_run st tr st' \<Longrightarrow> state_inv st \<Longrightarrow> state_inv st'"
  by (induction rule: engine_run.induct) (auto dest: step_inv)

lemma start_inv: "engine_start st \<Longrightarrow> state_inv st"
  by (auto simp: engine_start_def engine_inv_new)

lemma reachable_inv: "engine_reachable st \<Longrightarrow> state_inv st"
  by (auto simp: engine_reachable_def dest: run_inv start_inv)

lemma run_append:
  "engine_run st tr st1 \<Longrightarrow> engine_step st1 ev out st2 \<Longrightarrow> engine_run st (tr @ [(ev, out)]) st2"
  by (induction rule: engine_run.induct) (auto intro: run_nil run_step)

lemma reachable_step: "engine_reachable st \<Longrightarrow> engine_step st ev out st' \<Longrightarrow> engine_reachable st'"
  unfolding engine_reachable_def by (blast intro: run_append)

lemma run_trans: "engine_run st tr st1 \<Longrightarrow> engine_run st1 us st2 \<Longrightarrow> engine_run st (tr @ us) st2"
  by (induction rule: engine_run.induct) (auto intro: run_step)

lemma reachable_run: "engine_reachable st \<Longrightarrow> engine_run st tr st' \<Longrightarrow> engine_reachable st'"
  unfolding engine_reachable_def by (blast intro: run_trans)

end
