(* ===== verification/Engine_Traces.thy ===== *)
theory Engine_Traces
  imports Engine_Steps
begin

text \<open>
  Histories of the engine: the trades of a run, the volume an order id has traded in it, and
  the two laws every later proof about histories uses: an id that is recorded and in no book
  (\<open>retired\<close>) never trades again, and a resting order never trades more than what is open of it.
\<close>

section \<open>Trades and volumes of a run\<close>

definition trades_of :: "EngineResult option \<Rightarrow> Trade list" where
  "trades_of out = (case out of None \<Rightarrow> [] | Some res \<Rightarrow> rtrades res)"

lemma trades_of_simps [simp]:
  "trades_of None = []" "trades_of (Some res) = rtrades res"
  by (simp_all add: trades_of_def)

definition involves :: "OrderId \<Rightarrow> Trade \<Rightarrow> bool" where
  "involves i t \<longleftrightarrow> makerOrderId t = i \<or> takerOrderId t = i"

definition volume :: "OrderId \<Rightarrow> Trade list \<Rightarrow> nat" where
  "volume i ts = (\<Sum>t\<leftarrow>filter (involves i) ts. unat (tquantity t))"

definition run_trades :: "(event \<times> EngineResult option) list \<Rightarrow> Trade list" where
  "run_trades tr = concat (map (\<lambda>(ev, out). trades_of out) tr)"

lemma run_trades_simps [simp]:
  "run_trades [] = []" "run_trades ((ev, out) # tr) = trades_of out @ run_trades tr"
  by (simp_all add: run_trades_def)

definition run_results :: "(event \<times> EngineResult option) list \<Rightarrow> EngineResult list" where
  "run_results tr = concat (map (\<lambda>(ev, out). case out of None \<Rightarrow> [] | Some res \<Rightarrow> [res]) tr)"

lemma run_results_simps [simp]:
  "run_results [] = []" "run_results ((ev, None) # tr) = run_results tr"
  "run_results ((ev, Some res) # tr) = res # run_results tr" "run_results (tr @ tr') = run_results tr @ run_results tr'"
  by (simp_all add: run_results_def)

lemma volume_simps [simp]:
  "volume i [] = 0" "volume i (ts @ us) = volume i ts + volume i us"
  by (simp_all add: volume_def)

lemma volume_none: "\<forall>t\<in>set ts. \<not> involves i t \<Longrightarrow> volume i ts = 0"
  by (simp add: volume_def filter_False)

lemma volume_maker:
  "\<forall>t\<in>set ts. takerOrderId t \<noteq> i \<Longrightarrow> volume i ts = id_qty i (map abs_trade ts)"
  by (induction ts) (auto simp: volume_def id_qty_def involves_def abs_trade_def)

lemma volume_taker:
  "\<forall>t\<in>set ts. takerOrderId t = i \<Longrightarrow> volume i ts = open_qty (map abs_trade ts)"
  by (induction ts) (auto simp: volume_def involves_def abs_trade_def)

section \<open>The two laws for one step\<close>

definition retired :: "OrderId \<Rightarrow> MatchingEngine \<times> world \<Rightarrow> bool" where
  "retired i st \<longleftrightarrow> i \<in> usedIds (validator (fst st)) \<and> (\<forall>r\<in>engine_refs (fst st). oid (heap (snd st) r) \<noteq> i)"

definition open_of :: "OrderRef \<Rightarrow> MatchingEngine \<times> world \<Rightarrow> nat" where
  "open_of r st = unat (remainingQty (heap (snd st) r))"

text \<open>
  What one event may do to the resting order \<open>r\<close>: it stays, having traded what it lost, or it
  leaves for good, having traded no more than it had.
\<close>

definition order_law ::
  "OrderRef \<Rightarrow> MatchingEngine \<times> world \<Rightarrow> Trade list \<Rightarrow> MatchingEngine \<times> world \<Rightarrow> bool" where
  "order_law r st ts st' \<longleftrightarrow>
     (let i = oid (heap (snd st) r) in
      r \<in> engine_refs (fst st') \<and> oid (heap (snd st') r) = i \<and> volume i ts + open_of r st' = open_of r st \<or>
      retired i st' \<and> volume i ts \<le> open_of r st)"

text \<open>What it may do to a retired id: nothing.\<close>

definition retired_law ::
  "OrderId \<Rightarrow> MatchingEngine \<times> world \<Rightarrow> Trade list \<Rightarrow> MatchingEngine \<times> world \<Rightarrow> bool" where
  "retired_law i st ts st' \<longleftrightarrow> retired i st \<longrightarrow> retired i st' \<and> (\<forall>t\<in>set ts. \<not> involves i t)"

lemma order_law_quiet:
  assumes "r \<in> engine_refs (fst st')" and "oid (heap (snd st') r) = oid (heap (snd st) r)"
    and "open_of r st' = open_of r st" and "\<forall>t\<in>set ts. \<not> involves (oid (heap (snd st) r)) t"
  shows "order_law r st ts st'"
  using assms by (simp add: order_law_def Let_def volume_none)

lemma engine_refs_symbol:
  assumes "engine_inv e w"
  shows "r \<in> engine_refs e \<longleftrightarrow> (\<exists>b. books e (osymbol (heap w r)) = Some b \<and> r \<in> set (book_refs b))"
  using engine_invD(5) [OF assms] unfolding engine_refs_def by blast

lemma cancel_refs:
  assumes inv: "engine_inv e w"
  shows "engine_refs (snd (engine_cancelOrder s i e w))
      = {r \<in> engine_refs e. osymbol (heap w r) = s \<longrightarrow> oid (heap w r) \<noteq> i}"
    and "validator (snd (engine_cancelOrder s i e w)) = validator e"
    and "rtrades (fst (engine_cancelOrder s i e w)) = []"
proof -
  show "validator (snd (engine_cancelOrder s i e w)) = validator e"
    "rtrades (fst (engine_cancelOrder s i e w)) = []"
    by (auto simp: engine_cancelOrder_def Let_def case_prod_beta split: option.split)
  show "engine_refs (snd (engine_cancelOrder s i e w))
      = {r \<in> engine_refs e. osymbol (heap w r) = s \<longrightarrow> oid (heap w r) \<noteq> i}"
  proof (cases "books e s")
    case None
    have "osymbol (heap w r) \<noteq> s" if "r \<in> engine_refs e" for r
      using that None engine_invD(5) [OF inv] by (auto simp: engine_refs_def)
    with None show ?thesis by (auto simp: engine_cancelOrder_def)
  next
    case (Some b)
    have c: "set (book_refs (snd (book_cancelOrder (heap w) i b))) = {r \<in> set (book_refs b). oid (heap w r) \<noteq> i}"
      using book_cancelOrder_correct(2) [OF engine_invD(1) [OF inv Some], of i] by (simp add: cancelled_def)
    have bk: "books (snd (engine_cancelOrder s i e w)) = (books e)(s \<mapsto> snd (book_cancelOrder (heap w) i b))"
      using Some by (simp add: engine_cancelOrder_def Let_def case_prod_beta)
    note R = engine_refs_symbol [OF inv] engine_refs_symbol [OF engine_cancel_inv [OF inv, of s i]]
    show ?thesis
    proof (rule set_eqI)
      fix r show "r \<in> engine_refs (snd (engine_cancelOrder s i e w)) \<longleftrightarrow>
        r \<in> {r \<in> engine_refs e. osymbol (heap w r) = s \<longrightarrow> oid (heap w r) \<noteq> i}"
        by (cases "osymbol (heap w r) = s") (simp_all add: R bk Some c)
    qed
  qed
qed

lemma cancel_laws:
  fixes s :: Symbol and i :: OrderId
  assumes inv: "engine_inv e w"
  defines "e' \<equiv> snd (engine_cancelOrder s i e w)"
  shows "r \<in> engine_refs e \<Longrightarrow> order_law r (e, w) [] (e', w)" and "retired_law j (e, w) [] (e', w)"
proof -
  show "retired_law j (e, w) [] (e', w)"
    using cancel_refs [OF inv, of s i] by (auto simp: retired_law_def retired_def e'_def)
  assume r: "r \<in> engine_refs e"
  show "order_law r (e, w) [] (e', w)"
  proof (cases "r \<in> engine_refs e'")
    case True
    then show ?thesis by (intro order_law_quiet) (simp_all add: open_of_def)
  next
    case False
    with r have i: "oid (heap w r) = i" using cancel_refs(1) [OF inv, of s i] by (auto simp: e'_def)
    have "oid (heap w x) \<noteq> i" if x: "x \<in> engine_refs e'" for x
    proof
      assume "oid (heap w x) = i"
      moreover have "x \<in> engine_refs e" using x cancel_refs(1) [OF inv, of s i] by (auto simp: e'_def)
      ultimately have "x = r" using i r inv by (auto simp: engine_inv_def inj_on_def)
      with x False show False by simp
    qed
    then have "retired i (e', w)"
      using i engine_refs_used [OF inv r] cancel_refs(2) [OF inv, of s i] by (auto simp: retired_def e'_def)
    with i show ?thesis by (simp add: order_law_def)
  qed
qed

section \<open>The laws for an execution\<close>

lemma executed_refs:
  assumes "executed r e w res e' w' b b'"
  shows "engine_refs e' \<subseteq> insert r (engine_refs e)"
  using assms added_refs [of r b w "rtrades res" b' w']
  by (fastforce simp: executed_def engine_refs_def split: if_splits)

lemma executed_trade_ids:
  assumes inv: "engine_inv e w" and ex: "executed r e w res e' w' b b'" and t: "t \<in> set (rtrades res)"
  shows "takerOrderId t = oid (heap w r)"
    and "\<exists>m\<in>engine_refs e. m \<in> set (book_refs b) \<and> makerOrderId t = oid (heap w m)"
proof -
  have b: "books e (osymbol (heap w r)) = Some b" and ad: "added r b w (rtrades res) b' w'"
    using ex by (auto simp: executed_def)
  note T = added_trade [OF engine_invD(1) [OF inv b] ad t]
  show "takerOrderId t = oid (heap w r)" by (rule T(4))
  from T(1) b show "\<exists>m\<in>engine_refs e. m \<in> set (book_refs b) \<and> makerOrderId t = oid (heap w m)"
    by (auto simp: engine_refs_def)
qed

lemma executed_static:
  assumes "executed r e w res e' w' b b'"
  shows "oid (heap w' x) = oid (heap w x)" "osymbol (heap w' x) = osymbol (heap w x)"
    "oquantity (heap w' x) = oquantity (heap w x)"
  using same_staticD [OF added_static [of r b w "rtrades res" b' w' x]] assms
  by (simp_all add: executed_def)

lemma executed_used:
  "executed r e w res e' w' b b' \<Longrightarrow> usedIds (validator e') = insert (oid (heap w r)) (usedIds (validator e))"
  by (simp add: executed_def recordId_def)

lemma executed_retired_law:
  assumes inv: "engine_inv e w" and ok: "acceptable_order (heap w r) (validator e)"
    and ex: "executed r e w res e' w' b b'"
  shows "retired_law j (e, w) (rtrades res) (e', w')"
proof -
  have new: "oid (heap w r) \<notin> usedIds (validator e)" using ok by (simp add: acceptable_order_def)
  { assume j: "retired j (e, w)"
    then have "j \<noteq> oid (heap w r)" using new by (auto simp: retired_def)
    then have "retired j (e', w')"
      using j executed_refs [OF ex] by (auto simp: retired_def executed_used [OF ex] executed_static [OF ex])
    moreover have "\<not> involves j t" if t: "t \<in> set (rtrades res)" for t
      using executed_trade_ids [OF inv ex t] j \<open>j \<noteq> oid (heap w r)\<close> by (auto simp: retired_def involves_def)
    ultimately have "retired j (e', w') \<and> (\<forall>t\<in>set (rtrades res). \<not> involves j t)" by blast }
  then show ?thesis by (simp add: retired_law_def)
qed

lemma executed_order_law:
  assumes inv: "engine_inv e w" and fits: "engine_fits r e w"
    and ty: "otype (heap w r) \<noteq> CANCEL" and ok: "acceptable_order (heap w r) (validator e)"
    and ex: "executed r e w res e' w' b b'" and x: "x \<in> engine_refs e"
  shows "order_law x (e, w) (rtrades res) (e', w')"
proof -
  let ?i = "oid (heap w x)"
  have b: "books e (osymbol (heap w r)) = Some b" and ad: "added r b w (rtrades res) b' w'"
    and bk: "books e' = (books e)(osymbol (heap w r) \<mapsto> b')"
    using ex by (auto simp: executed_def)
  have wf: "book_wf (heap w) b" by (rule engine_invD(1) [OF inv b])
  note inv' = executed_inv [OF inv ty ok ex]
  have new: "oid (heap w r) \<notin> usedIds (validator e)" using ok by (simp add: acceptable_order_def)
  have xr: "?i \<noteq> oid (heap w r)" using engine_refs_used [OF inv x] new by auto
  then have ne: "x \<noteq> r" by auto
  note xs = engine_refs_symbol [OF inv, of x] engine_refs_symbol [OF inv', of x]
  show ?thesis
  proof (cases "x \<in> set (book_refs b)")
    case True
    have sy: "osymbol (heap w x) = osymbol (heap w r)" by (rule engine_invD(5) [OF inv b True])
    have x': "x \<in> engine_refs e' \<longleftrightarrow> x \<in> set (book_refs b')"
      by (simp add: xs(2) bk executed_static [OF ex] sy)
    have "\<forall>t\<in>set (rtrades res). takerOrderId t \<noteq> ?i" using executed_trade_ids(1) [OF inv ex] xr by auto
    then have v: "volume ?i (rtrades res) = id_qty ?i (map abs_trade (rtrades res))" by (rule volume_maker)
    note acc = added_maker [OF wf engine_can_add [OF inv fits ty ok b] ad True]
    show ?thesis
    proof (cases "x \<in> engine_refs e'")
      case True
      with acc v x' show ?thesis by (simp add: order_law_def open_of_def executed_static [OF ex])
    next
      case False
      have "oid (heap w y) \<noteq> ?i" if y: "y \<in> engine_refs e'" for y
      proof
        assume eq: "oid (heap w y) = ?i"
        with y xr executed_refs [OF ex] have "y \<in> engine_refs e" by auto
        with eq x inv have "y = x" by (auto simp: engine_inv_def inj_on_def)
        with y False show False by simp
      qed
      then have "retired ?i (e', w')"
        using engine_refs_used [OF inv x] by (auto simp: retired_def executed_used [OF ex] executed_static [OF ex])
      with acc v False x' show ?thesis by (simp add: order_law_def open_of_def)
    qed
  next
    case False
    have h: "heap w' x = heap w x" by (rule added_frame [OF ad ne False])
    have "osymbol (heap w x) \<noteq> osymbol (heap w r)" using xs(1) x b False by auto
    with xs x h have x': "x \<in> engine_refs e'" by (simp add: bk)
    have "\<not> involves ?i t" if t: "t \<in> set (rtrades res)" for t
    proof -
      from executed_trade_ids(2) [OF inv ex t] obtain m where
        m: "m \<in> engine_refs e" "m \<in> set (book_refs b)" "makerOrderId t = oid (heap w m)" by blast
      with False x inv have "oid (heap w m) \<noteq> ?i" by (auto simp: engine_inv_def inj_on_def)
      with m(3) executed_trade_ids(1) [OF inv ex t] xr show ?thesis by (simp add: involves_def)
    qed
    with x' h show ?thesis by (intro order_law_quiet) (simp_all add: open_of_def)
  qed
qed

text \<open>The incoming order itself.\<close>

lemma executed_taker_law:
  assumes inv: "engine_inv e w" and ty: "otype (heap w r) \<noteq> CANCEL"
    and ok: "acceptable_order (heap w r) (validator e)" and ex: "executed r e w res e' w' b b'"
  defines "i \<equiv> oid (heap w r)"
  shows "r \<in> engine_refs e' \<and> volume i (rtrades res) + open_of r (e', w') = unat (oquantity (heap w r)) \<or>
    retired i (e', w') \<and> volume i (rtrades res) \<le> unat (oquantity (heap w r))"
proof -
  have b: "books e (osymbol (heap w r)) = Some b" and ad: "added r b w (rtrades res) b' w'"
    and bk: "books e' = (books e)(osymbol (heap w r) \<mapsto> b')"
    using ex by (auto simp: executed_def)
  note inv' = executed_inv [OF inv ty ok ex]
  have new: "i \<notin> usedIds (validator e)" using ok by (simp add: acceptable_order_def i_def)
  let ?f = "open_qty (map abs_trade (rtrades res))"
  have v: "volume i (rtrades res) = ?f"
    using executed_trade_ids(1) [OF inv ex] by (intro volume_taker) (simp add: i_def)
  have f: "?f \<le> unat (oquantity (heap w r))" and fl: "ofilledQty (heap w' r) = of_nat ?f"
    using ad by (simp_all del: map_map add: added_def Let_def)
  have mem: "r \<in> engine_refs e' \<longleftrightarrow> r \<in> set (book_refs b')"
    using engine_refs_symbol [OF inv', of r] by (simp add: bk executed_static [OF ex])
  show ?thesis
  proof (cases "r \<in> engine_refs e'")
    case True
    have "unat (of_nat ?f :: u64) = ?f"
      using f unat_u64_less [of "oquantity (heap w r)"] by (intro unat_of_nat_u64) linarith
    with fl f have "unat (remainingQty (heap w' r)) = unat (oquantity (heap w r)) - ?f"
      using executed_static(3) [OF ex, of r]
      by (subst remaining_unat) (simp_all del: map_map add: word_le_nat_alt)
    with True v f show ?thesis by (simp del: map_map add: open_of_def)
  next
    case False
    have "oid (heap w y) \<noteq> i" if y: "y \<in> engine_refs e'" for y
      using y False executed_refs [OF ex] engine_refs_used [OF inv, of y] new by auto
    then have "retired i (e', w')"
      by (auto simp: retired_def executed_used [OF ex] executed_static [OF ex] i_def)
    with v f show ?thesis by simp
  qed
qed

section \<open>The laws for every step and every run\<close>

lemma order_law_status:
  assumes "r \<in> engine_refs e"
  shows "order_law r (e, w) [] (e\<lparr>ordersProcessed := n\<rparr>, set_status x S w)"
  using assms by (intro order_law_quiet) (simp_all add: engine_refs_def open_of_def world_simps)

lemma retired_law_status: "retired_law j (e, w) [] (e\<lparr>ordersProcessed := n\<rparr>, set_status x S w)"
  by (simp add: retired_law_def retired_def engine_refs_def world_simps)

lemma laws_counter:
  "order_law r (e\<lparr>ordersProcessed := n\<rparr>, w) ts st' = order_law r (e, w) ts st'"
  "retired_law j (e\<lparr>ordersProcessed := n\<rparr>, w) ts st' = retired_law j (e, w) ts st'"
  "engine_refs (e\<lparr>ordersProcessed := n\<rparr>) = engine_refs e"
  by (simp_all add: order_law_def retired_law_def retired_def engine_refs_def open_of_def)

lemma submit_laws:
  assumes inv: "engine_inv e w" and fits: "engine_fits r e w" and s: "submitOrder r e w = Some (res, e', w')"
  shows "x \<in> engine_refs e \<Longrightarrow> order_law x (e, w) (rtrades res) (e', w')"
    and "retired_law j (e, w) (rtrades res) (e', w')"
proof -
  let ?e = "e\<lparr>ordersProcessed := ordersProcessed e + 1\<rparr>"
  have "(x \<in> engine_refs e \<longrightarrow> order_law x (e, w) (rtrades res) (e', w')) \<and> retired_law j (e, w) (rtrades res) (e', w')"
  proof (cases "otype (heap w r) = CANCEL")
    case True
    let ?c = "engine_cancelOrder (osymbol (heap w r)) (oid (heap w r)) ?e w"
    have inv': "engine_inv ?e w" using inv by (simp add: engine_inv_counter)
    have "res = fst ?c" "e' = snd ?c" "w' = w"
      using s submit_cancel [OF True, of e] by (auto simp: split: prod.splits)
    then show ?thesis
      using cancel_laws [OF inv', where s = "osymbol (heap w r)" and i = "oid (heap w r)"]
        cancel_refs(3) [OF inv', of "osymbol (heap w r)" "oid (heap w r)"]
      by (auto simp: laws_counter)
  next
    case ty: False
    show ?thesis
    proof (cases "acceptable_order (heap w r) (validator e)")
      case True
      from submit_executed [OF inv fits ty True] s obtain b b' where ex: "executed r e w res e' w' b b'" by auto
      with executed_order_law [OF inv fits ty True ex] executed_retired_law [OF inv True ex] show ?thesis by blast
    next
      case False
      with submit_rejected [OF ty False] s show ?thesis
        by (auto simp: order_law_status retired_law_status)
    qed
  qed
  then show "x \<in> engine_refs e \<Longrightarrow> order_law x (e, w) (rtrades res) (e', w')"
    "retired_law j (e, w) (rtrades res) (e', w')" by blast+
qed

lemma register_refs: "engine_refs (registerSymbol s e) = engine_refs e"
proof (cases "books e s")
  case None
  have bk: "books (registerSymbol s e) = (books e)(s \<mapsto> OrderBook_new s)"
    using None by (simp add: registerSymbol_def)
  have new: "set (book_refs (OrderBook_new s)) = {}" by (simp add: OrderBook_new_def book_refs_def)
  show ?thesis
  proof (intro set_eqI iffI)
    fix r assume "r \<in> engine_refs (registerSymbol s e)"
    then obtain s2 b where s2: "books (registerSymbol s e) s2 = Some b" "r \<in> set (book_refs b)"
      by (auto simp: engine_refs_def)
    with new have "s2 \<noteq> s" by (auto simp: bk)
    with s2 show "r \<in> engine_refs e" by (auto simp: bk engine_refs_def)
  next
    fix r assume "r \<in> engine_refs e"
    then obtain s2 b where s2: "books e s2 = Some b" "r \<in> set (book_refs b)"
      by (auto simp: engine_refs_def)
    with None have "books (registerSymbol s e) s2 = Some b" by (auto simp: bk)
    with s2 show "r \<in> engine_refs (registerSymbol s e)" by (auto simp: engine_refs_def)
  qed
qed (simp add: registerSymbol_def engine_refs_def)

lemma register_laws:
  "x \<in> engine_refs e \<Longrightarrow> order_law x (e, w) [] (registerSymbol s e, w)"
  "retired_law j (e, w) [] (registerSymbol s e, w)"
proof -
  show "order_law x (e, w) [] (registerSymbol s e, w)" if "x \<in> engine_refs e"
    using that by (intro order_law_quiet) (simp_all add: register_refs open_of_def)
  have "usedIds (validator (registerSymbol s e)) = usedIds (validator e)"
    by (simp add: registerSymbol_def validator_registerSymbol_def)
  then show "retired_law j (e, w) [] (registerSymbol s e, w)"
    by (simp add: retired_law_def retired_def register_refs)
qed

lemma construct_laws:
  assumes "r \<notin> engine_refs e"
  shows "x \<in> engine_refs e \<Longrightarrow> order_law x (e, w) [] (e, upd_order r f w)"
    and "retired_law j (e, w) [] (e, upd_order r f w)"
proof -
  show "order_law x (e, w) [] (e, upd_order r f w)" if "x \<in> engine_refs e"
    using assms that by (intro order_law_quiet) (auto simp: open_of_def world_simps)
  show "retired_law j (e, w) [] (e, upd_order r f w)"
    using assms by (auto simp: retired_law_def retired_def world_simps)
qed

lemma clock_laws:
  "x \<in> engine_refs e \<Longrightarrow> order_law x (e, w) [] (e, snd (nowNs w))"
  "retired_law j (e, w) [] (e, snd (nowNs w))"
proof -
  show "order_law x (e, w) [] (e, snd (nowNs w))" if "x \<in> engine_refs e"
    using that by (intro order_law_quiet) (auto simp: open_of_def world_simps)
  show "retired_law j (e, w) [] (e, snd (nowNs w))"
    by (auto simp: retired_law_def retired_def world_simps)
qed

lemma step_laws:
  assumes "engine_step st ev out st'" and "state_inv st"
  shows "x \<in> engine_refs (fst st) \<Longrightarrow> order_law x st (trades_of out) st'"
    and "retired_law j st (trades_of out) st'"
proof -
  have "(x \<in> engine_refs (fst st) \<longrightarrow> order_law x st (trades_of out) st') \<and> retired_law j st (trades_of out) st'"
    using assms
  proof (cases rule: engine_step.cases)
    case (step_register e w s)
    then show ?thesis by (simp add: register_laws)
  next
    case (step_construct r e w i s sd ty p q ts)
    then show ?thesis by (simp add: construct_laws)
  next
    case (step_submit r e w res e' w')
    with assms(2) show ?thesis by (simp add: submit_laws)
  next
    case (step_cancel s i e w res e')
    with assms(2) cancel_laws [of e w, where s = s and i = i] cancel_refs(3) [of e w s i] show ?thesis by simp
  qed (simp add: clock_laws)
  then show "x \<in> engine_refs (fst st) \<Longrightarrow> order_law x st (trades_of out) st'"
    "retired_law j st (trades_of out) st'" by blast+
qed

lemma run_retired:
  "engine_run st tr st' \<Longrightarrow> state_inv st \<Longrightarrow> retired i st \<Longrightarrow>
     retired i st' \<and> (\<forall>t\<in>set (run_trades tr). \<not> involves i t)"
proof (induction rule: engine_run.induct)
  case (run_step st ev out st1 tr st2)
  have "retired i st1 \<and> (\<forall>t\<in>set (trades_of out). \<not> involves i t)"
    using step_laws(2) [OF run_step.hyps(1) run_step.prems(1), of i] run_step.prems(2)
    by (simp add: retired_law_def)
  with run_step.IH [OF step_inv [OF run_step.hyps(1) run_step.prems(1)]] show ?case by auto
qed simp

lemma run_volume_bound:
  "engine_run st tr st' \<Longrightarrow> state_inv st \<Longrightarrow> r \<in> engine_refs (fst st) \<Longrightarrow>
     volume (oid (heap (snd st) r)) (run_trades tr) \<le> open_of r st"
proof (induction rule: engine_run.induct)
  case (run_step st ev out st1 tr st2)
  note inv1 = step_inv [OF run_step.hyps(1) run_step.prems(1)]
  from step_laws(1) [OF run_step.hyps(1) run_step.prems]
  consider (stays) "r \<in> engine_refs (fst st1)" "oid (heap (snd st1) r) = oid (heap (snd st) r)"
      "volume (oid (heap (snd st) r)) (trades_of out) + open_of r st1 = open_of r st"
    | (leaves) "retired (oid (heap (snd st) r)) st1" "volume (oid (heap (snd st) r)) (trades_of out) \<le> open_of r st"
    by (auto simp: order_law_def Let_def)
  then show ?case
  proof cases
    case stays
    with run_step.IH [OF inv1 stays(1)] show ?thesis by simp
  next
    case leaves
    from run_retired [OF run_step.hyps(2) inv1 leaves(1)] leaves(2) show ?thesis by (simp add: volume_none)
  qed
qed simp

section \<open>Recorded ids and confirmed cancellations\<close>

lemma step_used:
  assumes "engine_step st ev out st'" and "state_inv st"
  shows "usedIds (validator (fst st)) \<subseteq> usedIds (validator (fst st'))"
  using assms
proof (cases rule: engine_step.cases)
  case (step_submit r e w res e' w')
  show ?thesis
  proof (cases "otype (heap w r) = CANCEL")
    case True
    with step_submit cancel_refs(2) [of "e\<lparr>ordersProcessed := ordersProcessed e + 1\<rparr>" w
        "osymbol (heap w r)" "oid (heap w r)"] assms(2)
    show ?thesis by (auto simp: submit_cancel engine_inv_counter split: prod.splits)
  next
    case ty: False
    show ?thesis
    proof (cases "acceptable_order (heap w r) (validator e)")
      case True
      from submit_executed [of e w r] step_submit assms(2) ty True obtain b b' where
        "executed r e w res e' w' b b'" by auto
      with step_submit show ?thesis by (auto simp: executed_used)
    next
      case False
      with step_submit submit_rejected [OF ty False] show ?thesis by auto
    qed
  qed
next
  case (step_cancel s i e w res e')
  with cancel_refs(2) [of e w s i] assms(2) show ?thesis by simp
qed (auto simp: registerSymbol_def validator_registerSymbol_def)

lemma run_used:
  "engine_run st tr st' \<Longrightarrow> state_inv st \<Longrightarrow> usedIds (validator (fst st)) \<subseteq> usedIds (validator (fst st'))"
  by (induction rule: engine_run.induct) (blast dest: step_used step_inv)+

lemma cancel_confirmed:
  assumes inv: "engine_inv e w" and c: "engine_cancelOrder s i e w = (res, e')" and ok: "rstatus res = CANCELLED"
  shows "retired i (e', w)"
proof -
  have "\<exists>b. books e s = Some b \<and> hasOrder i b"
  proof (cases "books e s")
    case (Some b)
    have "fst (book_cancelOrder (heap w) i b)"
      using c ok Some by (auto simp: engine_cancelOrder_def Let_def split: prod.splits if_splits)
    with Some book_cancelOrder_missing [of i b] show ?thesis by (cases "hasOrder i b") auto
  qed (use c ok in \<open>auto simp: engine_cancelOrder_def\<close>)
  then obtain b where b: "books e s = Some b" and h: "hasOrder i b" by blast
  from h hasOrder_iff [OF engine_invD(1) [OF inv b]] obtain r where
    r: "r \<in> set (book_refs b)" "oid (heap w r) = i" by auto
  then have re: "r \<in> engine_refs e" using b by (auto simp: engine_refs_def)
  have e': "e' = snd (engine_cancelOrder s i e w)" using c by simp
  note R = cancel_refs [OF inv, of s i, folded e']
  have "oid (heap w x) \<noteq> i" if x: "x \<in> engine_refs e'" for x
  proof
    assume eq: "oid (heap w x) = i"
    from x R(1) have xe: "x \<in> engine_refs e" by simp
    with eq r(2) re inv have "x = r" by (auto simp: engine_inv_def inj_on_def)
    with x eq R(1) engine_invD(5) [OF inv b r(1)] show False by simp
  qed
  with engine_refs_used [OF inv re] r(2) R(2) show ?thesis by (simp add: retired_def)
qed

lemma retired_absent:
  assumes "state_inv st" and "retired i st" and "books (fst st) s = Some b"
  shows "\<not> hasOrder i b"
proof
  assume "hasOrder i b"
  then obtain r where r: "r \<in> set (book_refs b)" "oid (heap (snd st) r) = i"
    using hasOrder_iff [OF engine_invD(1) [OF assms(1,3)]] by auto
  with assms(2,3) show False by (auto simp: retired_def engine_refs_def)
qed

section \<open>What the trades of a run look like, and the counters\<close>

lemma submit_trade_positive:
  assumes inv: "engine_inv e w" and fits: "engine_fits r e w" and s: "submitOrder r e w = Some (res, e', w')"
    and t: "t \<in> set (rtrades res)"
  shows "0 < tprice t \<and> 0 < tquantity t \<and> tsymbol t = osymbol (heap w r) \<and> makerOrderId t \<noteq> takerOrderId t"
proof -
  have ty: "otype (heap w r) \<noteq> CANCEL"
  proof
    assume c: "otype (heap w r) = CANCEL"
    let ?e = "e\<lparr>ordersProcessed := ordersProcessed e + 1\<rparr>"
    have "engine_inv ?e w" using inv by (simp add: engine_inv_counter)
    from cancel_refs(3) [OF this, of "osymbol (heap w r)" "oid (heap w r)"] s t submit_cancel [OF c, of e]
    show False by (auto split: prod.splits)
  qed
  have ok: "acceptable_order (heap w r) (validator e)"
    using submit_rejected [OF ty, of e] s t by (cases "acceptable_order (heap w r) (validator e)") auto
  from submit_executed [OF inv fits ty ok] s obtain b b' where ex: "executed r e w res e' w' b b'" by auto
  have b: "books e (osymbol (heap w r)) = Some b" and ad: "added r b w (rtrades res) b' w'"
    using ex by (auto simp: executed_def)
  note T = added_trade [OF engine_invD(1) [OF inv b] ad t]
  from T(1) engine_invD(4,6) [OF inv b] have "0 < tprice t" "makerOrderId t \<in> usedIds (validator e)"
    by (auto simp: rests_in_def)
  with T engine_invD(2) [OF inv b] ok show ?thesis by (auto simp: acceptable_order_def)
qed

lemma step_trades_positive:
  assumes "engine_step st ev out st'" and "state_inv st" and "t \<in> set (trades_of out)"
  shows "0 < tprice t \<and> 0 < tquantity t \<and> makerOrderId t \<noteq> takerOrderId t"
  using assms
proof (cases rule: engine_step.cases)
  case (step_submit r e w res e' w')
  with assms(2,3) submit_trade_positive [of e w r res e' w' t] show ?thesis by simp
next
  case (step_cancel s i e w res e')
  with assms(2,3) cancel_refs(3) [of e w s i] show ?thesis by simp
qed auto

lemma run_trades_positive:
  "engine_run st tr st' \<Longrightarrow> state_inv st \<Longrightarrow>
     \<forall>t\<in>set (run_trades tr). 0 < tprice t \<and> 0 < tquantity t \<and> makerOrderId t \<noteq> takerOrderId t"
proof (induction rule: engine_run.induct)
  case (run_step st ev out st1 tr st2)
  with step_trades_positive [OF run_step.hyps(1) run_step.prems] run_step.IH [OF step_inv [OF run_step.hyps(1) run_step.prems]]
  show ?case by auto
qed simp

definition is_submit :: "event \<Rightarrow> bool" where
  "is_submit ev \<longleftrightarrow> (case ev of Submit r \<Rightarrow> True | _ \<Rightarrow> False)"

lemma cancel_counters:
  "ordersProcessed (snd (engine_cancelOrder s i e w)) = ordersProcessed e"
  "tradesGenerated (snd (engine_cancelOrder s i e w)) = tradesGenerated e"
  "rtrades (fst (engine_cancelOrder s i e w)) = []"
  by (auto simp: engine_cancelOrder_def Let_def case_prod_beta split: option.split)

lemma submit_counters:
  assumes "submitOrder r e w = Some (res, e', w')"
  shows "ordersProcessed e' = ordersProcessed e + 1"
    and "tradesGenerated e' = tradesGenerated e + of_nat (length (rtrades res))"
proof -
  let ?c = "engine_cancelOrder (osymbol (heap w r)) (oid (heap w r)) (e\<lparr>ordersProcessed := ordersProcessed e + 1\<rparr>) w"
  have "ordersProcessed e' = ordersProcessed e + 1 \<and> tradesGenerated e' = tradesGenerated e + of_nat (length (rtrades res))"
  proof (cases "otype (heap w r) = CANCEL")
    case True
    from submit_cancel [OF this, of e] assms have "res = fst ?c" "e' = snd ?c" by (auto split: prod.splits)
    then show ?thesis by (simp add: cancel_counters)
  next
    case False
    with assms show ?thesis
      by (auto simp: submitOrder_def Let_def bind_eq_Some_conv split: if_splits option.splits)
  qed
  then show "ordersProcessed e' = ordersProcessed e + 1"
    and "tradesGenerated e' = tradesGenerated e + of_nat (length (rtrades res))" by simp_all
qed

lemma step_counters:
  assumes "engine_step st ev out st'"
  shows "ordersProcessed (fst st') = ordersProcessed (fst st) + (if is_submit ev then 1 else 0)
    \<and> tradesGenerated (fst st') = tradesGenerated (fst st) + of_nat (length (trades_of out))"
  using assms
proof (cases rule: engine_step.cases)
  case (step_submit r e w res e' w')
  with submit_counters [of r e w res e' w'] show ?thesis by (simp add: is_submit_def)
next
  case (step_cancel s i e w res e')
  with cancel_counters [of s i e w] show ?thesis by (simp add: is_submit_def)
qed (simp_all add: is_submit_def registerSymbol_def)

lemma run_counters:
  "engine_run st tr st' \<Longrightarrow>
     ordersProcessed (fst st') = ordersProcessed (fst st) + of_nat (length (filter (is_submit \<circ> fst) tr))
   \<and> tradesGenerated (fst st') = tradesGenerated (fst st) + of_nat (length (run_trades tr))"
proof (induction rule: engine_run.induct)
  case (run_step st ev out st1 tr st2)
  with step_counters [OF run_step.hyps(1)] show ?case by simp
qed simp

section \<open>Isolation of symbols\<close>

text \<open>What a call about one symbol leaves alone: the other books and the orders in them.\<close>

definition untouched :: "Symbol \<Rightarrow> MatchingEngine \<Rightarrow> world \<Rightarrow> MatchingEngine \<Rightarrow> world \<Rightarrow> bool" where
  "untouched s e w e' w' \<longleftrightarrow>
     (\<forall>s2. s2 \<noteq> s \<longrightarrow> books e' s2 = books e s2 \<and>
        (\<forall>b. books e s2 = Some b \<longrightarrow> abs_book (heap w') b = abs_book (heap w) b \<and>
           (\<forall>r\<in>set (book_refs b). oid (heap w' r) = oid (heap w r) \<and> ofilledQty (heap w' r) = ofilledQty (heap w r))))"

lemma untouched_same: "(\<And>s2. s2 \<noteq> s \<Longrightarrow> books e' s2 = books e s2) \<Longrightarrow> untouched s e w e' w"
  by (simp add: untouched_def)

lemma cancel_untouched: "untouched s e w (snd (engine_cancelOrder s i e w)) w"
  by (rule untouched_same) (auto simp: engine_cancelOrder_def Let_def case_prod_beta split: option.split)

lemma abs_book_status_only: "abs_book (heap (set_status x S w)) b = abs_book (heap w) b"
  by (simp add: abs_book_def abs_side_def entry_of_def world_simps)

lemma submit_untouched:
  assumes inv: "engine_inv e w" and fits: "engine_fits r e w" and s: "submitOrder r e w = Some (res, e', w')"
  shows "untouched (osymbol (heap w r)) e w e' w'"
proof (cases "otype (heap w r) = CANCEL")
  case True
  let ?e = "e\<lparr>ordersProcessed := ordersProcessed e + 1\<rparr>"
  from submit_cancel [OF True, of e] s
  have "e' = snd (engine_cancelOrder (osymbol (heap w r)) (oid (heap w r)) ?e w)" "w' = w"
    by (auto split: prod.splits)
  with cancel_untouched [of "osymbol (heap w r)" ?e w "oid (heap w r)"] show ?thesis
    by (simp add: untouched_def)
next
  case ty: False
  show ?thesis
  proof (cases "acceptable_order (heap w r) (validator e)")
    case False
    with submit_rejected [OF ty False] s show ?thesis
      by (auto simp: untouched_def abs_book_status_only world_simps)
  next
    case ok: True
    from submit_executed [OF inv fits ty ok] s obtain b b' where ex: "executed r e w res e' w' b b'" by auto
    have b: "books e (osymbol (heap w r)) = Some b" and ad: "added r b w (rtrades res) b' w'"
      using ex by (auto simp: executed_def)
    have new: "oid (heap w r) \<notin> usedIds (validator e)" using ok by (simp add: acceptable_order_def)
    have h: "heap w' x = heap w x"
      if "s2 \<noteq> osymbol (heap w r)" "books e s2 = Some b2" "x \<in> set (book_refs b2)" for s2 b2 x
    proof (rule added_frame [OF ad])
      show "x \<noteq> r" using engine_invD(6) [OF inv that(2,3)] new by auto
      show "x \<notin> set (book_refs b)" using engine_invD(5) [OF inv b] engine_invD(5) [OF inv that(2,3)] that(1) by auto
    qed
    have "abs_book (heap w') b2 = abs_book (heap w) b2"
      if "s2 \<noteq> osymbol (heap w r)" "books e s2 = Some b2" for s2 b2
      using h [OF that] by (rule abs_book_cong)
    with h ex show ?thesis by (simp add: untouched_def executed_def)
  qed
qed

end
