(* ===== verification/Engine_Capacity.thy ===== *)
theory Engine_Capacity
  imports Engine_Traces Book_Queries
begin

text \<open>
  For clients that create orders at successive addresses and submit each once: as long as the
  quantities of all orders created add up to less than \<open>2^64\<close>, every submission fits, so it returns
  and keeps the invariant, and the book it leaves can be published (its spread is defined).
\<close>

lemma rest_qty_le_created:
  assumes "distinct rs" and "set rs \<subseteq> {..<k}" and "\<And>r. r \<in> set rs \<Longrightarrow> ofilledQty (h r) \<le> oquantity (h r)"
  shows "rest_qty h rs \<le> (\<Sum>r<k. unat (oquantity (h r)))"
proof -
  have "rest_qty h rs = (\<Sum>r\<in>set rs. unat (remainingQty (h r)))"
    using assms(1) by (simp add: rest_qty_def sum_list_distinct_conv_sum_set)
  also have "\<dots> \<le> (\<Sum>r\<in>set rs. unat (oquantity (h r)))"
    using assms(3) by (intro sum_mono) (simp add: remaining_unat)
  also have "\<dots> \<le> (\<Sum>r<k. unat (oquantity (h r)))" using assms(2) by (intro sum_mono2) auto
  finally show ?thesis .
qed

lemma own_refs_subset: "set (own_refs sd b) \<subseteq> set (book_refs b)" "distinct (book_refs b) \<Longrightarrow> distinct (own_refs sd b)"
  by (auto simp: own_refs_def book_refs_def)

lemma book_filled_le:
  assumes "book_wf h b" and "r \<in> set (book_refs b)"
  shows "ofilledQty (h r) \<le> oquantity (h r)"
  using assms side_wf_resting [of BUY h "bids b" r] side_wf_resting [of SELL h "asks b" r]
  by (auto simp: book_wf_def book_refs_def resting_ok_def)

lemma created_fits:
  assumes inv: "engine_inv e w" and refs: "engine_refs e \<subseteq> {..<k}"
    and total: "(\<Sum>r<Suc k. unat (oquantity (heap w r))) < 2 ^ 64"
  shows "engine_fits k e w"
proof (cases "books e (osymbol (heap w k))")
  case (Some b)
  note wf = engine_invD(1) [OF inv Some]
  have "set (book_refs b) \<subseteq> {..<k}" using refs Some by (auto simp: engine_refs_def)
  then have "rest_qty (heap w) (own_refs sd b) \<le> (\<Sum>r<k. unat (oquantity (heap w r)))" for sd
    using own_refs_subset(1) [of sd b] own_refs_subset(2) [OF book_wf_refs_distinct [OF wf], of sd] book_filled_le [OF wf]
    by (intro rest_qty_le_created) auto
  from this [of "oside (heap w k)"] total Some show ?thesis by (simp add: engine_fits_def)
qed (simp add: engine_fits_def)

lemma submit_static:
  assumes inv: "engine_inv e w" and fits: "engine_fits r e w" and s: "submitOrder r e w = Some (res, e', w')"
  shows "engine_refs e' \<subseteq> insert r (engine_refs e)" and "oquantity (heap w' x) = oquantity (heap w x)"
    and "oid (heap w' x) = oid (heap w x)" and "osymbol (heap w' x) = osymbol (heap w x)"
proof -
  have "engine_refs e' \<subseteq> insert r (engine_refs e) \<and> oquantity (heap w' x) = oquantity (heap w x) \<and>
    oid (heap w' x) = oid (heap w x) \<and> osymbol (heap w' x) = osymbol (heap w x)"
  proof (cases "otype (heap w r) = CANCEL")
    case True
    let ?e = "e\<lparr>ordersProcessed := ordersProcessed e + 1\<rparr>"
    have "engine_inv ?e w" using inv by (simp add: engine_inv_counter)
    note c = cancel_refs(1) [OF this, of "osymbol (heap w r)" "oid (heap w r)"]
    from submit_cancel [OF True, of e] s
    have "e' = snd (engine_cancelOrder (osymbol (heap w r)) (oid (heap w r)) ?e w)" "w' = w"
      by (auto split: prod.splits)
    with c show ?thesis by (auto simp: laws_counter(3))
  next
    case ty: False
    show ?thesis
    proof (cases "acceptable_order (heap w r) (validator e)")
      case False
      with submit_rejected [OF ty False] s show ?thesis by (auto simp: laws_counter(3) world_simps)
    next
      case True
      from submit_executed [OF inv fits ty True] s obtain b b' where "executed r e w res e' w' b b'" by auto
      with executed_refs [OF this] executed_static [OF this, of x] show ?thesis by auto
    qed
  qed
  then show "engine_refs e' \<subseteq> insert r (engine_refs e)" "oquantity (heap w' x) = oquantity (heap w x)"
    "oid (heap w' x) = oid (heap w x)" "osymbol (heap w' x) = osymbol (heap w x)" by blast+
qed

lemma created_submit:
  assumes inv: "engine_inv e w" and refs: "engine_refs e \<subseteq> {..<k}"
    and total: "(\<Sum>r<Suc k. unat (oquantity (heap w r))) < 2 ^ 64"
  shows "\<exists>res e' w'. submitOrder k e w = Some (res, e', w') \<and> engine_fits k e w \<and> engine_inv e' w' \<and>
    engine_refs e' \<subseteq> {..<Suc k} \<and>
    (\<forall>x. oquantity (heap w' x) = oquantity (heap w x) \<and> oid (heap w' x) = oid (heap w x) \<and>
         osymbol (heap w' x) = osymbol (heap w x))"
proof -
  note fits = created_fits [OF assms]
  from submit_inv [OF inv fits] obtain res e' w' where
    s: "submitOrder k e w = Some (res, e', w')" and inv': "engine_inv e' w'" by blast
  have "engine_refs e' \<subseteq> {..<Suc k}" using submit_static(1) [OF inv fits s] refs by auto
  with s fits inv' submit_static(2-4) [OF inv fits s] show ?thesis by blast
qed

lemma spread_defined:
  assumes inv: "engine_inv e w" and b: "books e s = Some b"
  shows "\<exists>spd. spread b = Some spd"
proof -
  note wf = engine_invD(1) [OF inv b]
  have pos: "0 < i64_val p" if "\<exists>r\<in>set (book_refs b). oprice (heap w r) = p" for p
  proof -
    from that obtain r where "r \<in> set (book_refs b)" "oprice (heap w r) = p" by blast
    with engine_invD(4) [OF inv b] show ?thesis by (auto simp: rests_in_def i64_pos_iff)
  qed
  have lv: "\<exists>r\<in>set (side_refs s). oprice (heap w r) = p" if "side_wf sd (heap w) s" "(p, L) \<in> set s" for sd s p L
  proof -
    from that have "lprice L = p" "level_wf sd (heap w) L" by (auto simp: side_wf_def)
    then obtain r where "r \<in> set (orders L)" "oprice (heap w r) = p"
      by (cases "orders L") (auto simp: level_wf_def resting_ok_def)
    moreover from this(1) that(2) have "r \<in> set (side_refs s)" unfolding set_side_refs by blast
    ultimately show ?thesis by blast
  qed
  have sides: "side_wf BUY (heap w) (bids b)" "side_wf SELL (heap w) (asks b)" using wf by (simp_all add: book_wf_def)
  have "0 < i64_val p" if "bestBid b = Some p" for p
    using that lv [OF sides(1)] by (intro pos) (cases "bids b"; force simp: bestBid_def side_best_def book_refs_def)
  moreover have "0 < i64_val p" if "bestAsk b = Some p" for p
    using that lv [OF sides(2)] by (intro pos) (cases "asks b"; force simp: bestAsk_def side_best_def book_refs_def)
  ultimately show ?thesis
    using i64_sub_defined by (fastforce simp: spread_def split: option.split)
qed

section \<open>A submission between two readings of the clock\<close>

definition quantity_upto :: "nat \<Rightarrow> world \<Rightarrow> nat" where
  "quantity_upto n w = (\<Sum>r\<in>{..<n}. unat (oquantity (heap w r)))"

lemma quantity_upto_mono: "k \<le> n \<Longrightarrow> quantity_upto k w \<le> quantity_upto n w"
  unfolding quantity_upto_def by (intro sum_mono2) auto

lemma quantity_upto_cong:
  "\<forall>x. oquantity (heap w' x) = oquantity (heap w x) \<Longrightarrow> quantity_upto n w' = quantity_upto n w"
  by (simp add: quantity_upto_def)

lemma timed_submit:
  assumes inv: "engine_inv e w" and refs: "engine_refs e \<subseteq> {..<k}" and total: "quantity_upto (Suc k) w < 2 ^ 64"
  shows "\<exists>res e' w2. submitOrder k e (snd (nowNs w)) = Some (res, e', w2) \<and>
    engine_inv e' (snd (nowNs w2)) \<and> engine_refs e' \<subseteq> {..<Suc k} \<and>
    (\<forall>x. oquantity (heap w2 x) = oquantity (heap w x) \<and> oid (heap w2 x) = oid (heap w x)) \<and>
    engine_run (e, w) [(Read_Clock, None), (Submit k, Some res), (Read_Clock, None)] (e', snd (nowNs w2))"
proof -
  have inv1: "engine_inv e (snd (nowNs w))" using inv by (simp add: engine_inv_clock)
  have "(\<Sum>r<Suc k. unat (oquantity (heap (snd (nowNs w)) r))) < 2 ^ 64"
    using total by (simp add: quantity_upto_def world_simps)
  from created_submit [OF inv1 refs this] obtain res e' w2 where
    sub: "submitOrder k e (snd (nowNs w)) = Some (res, e', w2)" "engine_fits k e (snd (nowNs w))" "engine_inv e' w2"
      "engine_refs e' \<subseteq> {..<Suc k}"
      "\<forall>x. oquantity (heap w2 x) = oquantity (heap (snd (nowNs w)) x) \<and> oid (heap w2 x) = oid (heap (snd (nowNs w)) x) \<and>
           osymbol (heap w2 x) = osymbol (heap (snd (nowNs w)) x)" by blast
  have "engine_run (e, w) [(Read_Clock, None), (Submit k, Some res), (Read_Clock, None)] (e', snd (nowNs w2))"
    by (rule run_step [OF step_clock run_step [OF step_submit [OF sub(2,1)] run_step [OF step_clock run_nil]]])
  with sub show ?thesis by (intro exI [of _ res] exI [of _ e'] exI [of _ w2]) (simp add: engine_inv_clock world_simps)
qed

end
