(* ===== verification/Engine_Spec.thy ===== *)
theory Engine_Spec
  imports Engine_Capacity
begin

text \<open>
  What the matching engine promises, without a heap, addresses, levels, caches or indexes.  A
  value-based engine keeps the abstract book of each symbol; a submission maps the fields of the order,
  the readings of the clock and this engine to the result, the next engine and the number of
  readings taken.  Under the invariant \<^verbatim>\<open>submitOrder\<close> computes exactly this, so two engines that agree on
  these values answer alike, wherever their orders are stored.
\<close>

record aengine =
  ae_books :: "Symbol \<Rightarrow> abook option"
  ae_validator :: RiskValidator
  ae_processed :: u64
  ae_trades :: u64

definition abs_engine :: "(OrderRef \<Rightarrow> Order) \<Rightarrow> MatchingEngine \<Rightarrow> aengine" where
  "abs_engine h e =
     \<lparr>ae_books = (\<lambda>s. map_option (abs_book h) (books e s)), ae_validator = validator e,
      ae_processed = ordersProcessed e, ae_trades = tradesGenerated e\<rparr>"

definition book_ids :: "abook \<Rightarrow> OrderId set" where
  "book_ids ab = (\<lambda>x. snd (fst x)) ` set (abids ab @ aasks ab)"

text \<open>One trade per fill, stamped with successive readings of the clock.\<close>

fun spec_trades :: "Symbol \<Rightarrow> OrderId \<Rightarrow> (nat \<Rightarrow> Timestamp) \<Rightarrow> nat \<Rightarrow> entry list \<Rightarrow> Trade list" where
  "spec_trades s i clk t [] = []"
| "spec_trades s i clk t (((p, m), q) # fs) =
     \<lparr>tsymbol = s, tprice = p, tquantity = of_nat q, makerOrderId = m, takerOrderId = i, ttimestamp = clk t\<rparr> #
     spec_trades s i clk (Suc t) fs"

definition answer :: "OrderStatus \<Rightarrow> string \<Rightarrow> EngineResult" where
  "answer st reason = \<lparr>rstatus = st, rtrades = [], rejectReason = reason\<rparr>"

definition spec_engine_cancel :: "Symbol \<Rightarrow> OrderId \<Rightarrow> aengine \<Rightarrow> EngineResult \<times> aengine" where
  "spec_engine_cancel s i a =
     (case ae_books a s of
        None \<Rightarrow> (answer REJECTED ''unknown symbol'', a)
      | Some ab \<Rightarrow>
          if i \<in> book_ids ab
          then (answer CANCELLED '''', a\<lparr>ae_books := (ae_books a)(s \<mapsto> spec_cancel i ab)\<rparr>)
          else (answer REJECTED (''order not found: '' @ to_string_u64 i), a))"

definition spec_execution :: "Order \<Rightarrow> (nat \<Rightarrow> Timestamp) \<Rightarrow> nat \<Rightarrow> abook \<Rightarrow> aengine \<Rightarrow> EngineResult \<times> aengine \<times> nat" where
  "spec_execution x clk t ab a =
     (let (fs, ab') = spec_add (oside x) (otype x) (oprice x) (oid x) (unat (oquantity x)) ab;
          st = status_after (otype x) (unat (oquantity x)) (open_qty fs)
      in (\<lparr>rstatus = st, rtrades = spec_trades (osymbol x) (oid x) clk t fs, rejectReason = submit_reason (x\<lparr>ostatus := st\<rparr>)\<rparr>,
          a\<lparr>ae_books := (ae_books a)(osymbol x \<mapsto> ab'), ae_validator := recordId (oid x) (ae_validator a),
            ae_trades := ae_trades a + of_nat (length fs)\<rparr>,
          t + length fs))"

definition spec_submit :: "Order \<Rightarrow> (nat \<Rightarrow> Timestamp) \<Rightarrow> nat \<Rightarrow> aengine \<Rightarrow> EngineResult \<times> aengine \<times> nat" where
  "spec_submit x clk t a0 =
     (let a = a0\<lparr>ae_processed := ae_processed a0 + 1\<rparr>
      in if otype x = CANCEL
         then (let (res, a') = spec_engine_cancel (osymbol x) (oid x) a in (res, a', t))
         else if \<not> acceptable_order x (ae_validator a)
         then (answer REJECTED (vr_reason (validate x (ae_validator a))), a, t)
         else case ae_books a (osymbol x) of
                None \<Rightarrow> (answer REJECTED ''no book for symbol'', a\<lparr>ae_validator := recordId (oid x) (ae_validator a)\<rparr>, t)
              | Some ab \<Rightarrow> spec_execution x clk t ab a)"

section \<open>Cancellation\<close>

lemma book_ids_refs: "i \<in> book_ids (abs_book h b) \<longleftrightarrow> i \<in> (\<lambda>r. oid (h r)) ` set (book_refs b)"
  by (force simp: book_ids_def abs_book_def abs_side_def book_refs_def entry_of_def)

lemma engine_cancel_refines:
  assumes inv: "engine_inv e w"
  shows "(fst (engine_cancelOrder s i e w), abs_engine (heap w) (snd (engine_cancelOrder s i e w)))
    = spec_engine_cancel s i (abs_engine (heap w) e)"
proof (cases "books e s")
  case None
  then show ?thesis by (simp add: engine_cancelOrder_def spec_engine_cancel_def abs_engine_def answer_def)
next
  case (Some b)
  note wf = engine_invD(1) [OF inv Some]
  note c = book_cancelOrder_correct [OF wf, of i]
  have found: "fst (book_cancelOrder (heap w) i b) \<longleftrightarrow> i \<in> book_ids (abs_book (heap w) b)"
    unfolding c(1) book_ids_refs hasOrder_iff [OF wf] ..
  have ab: "abs_book (heap w) (snd (book_cancelOrder (heap w) i b)) = spec_cancel i (abs_book (heap w) b)"
    using c(2) by (simp add: cancelled_def)
  have e': "snd (engine_cancelOrder s i e w) = e\<lparr>books := (books e)(s \<mapsto> snd (book_cancelOrder (heap w) i b))\<rparr>"
    using Some by (simp add: engine_cancelOrder_def Let_def case_prod_beta)
  show ?thesis
  proof (cases "i \<in> book_ids (abs_book (heap w) b)")
    case True
    with found Some have "fst (engine_cancelOrder s i e w) = answer CANCELLED ''''"
      by (simp add: engine_cancelOrder_def Let_def case_prod_beta answer_def)
    moreover have "abs_engine (heap w) (snd (engine_cancelOrder s i e w))
        = (abs_engine (heap w) e)\<lparr>ae_books := (ae_books (abs_engine (heap w) e))(s \<mapsto> spec_cancel i (abs_book (heap w) b))\<rparr>"
      unfolding e' by (auto simp: abs_engine_def ab fun_eq_iff)
    ultimately show ?thesis using True Some by (simp add: spec_engine_cancel_def abs_engine_def)
  next
    case False
    with found c(1) have "snd (book_cancelOrder (heap w) i b) = b" using book_cancelOrder_missing [of i b "heap w"] by simp
    with e' Some have "snd (engine_cancelOrder s i e w) = e" by (simp add: map_upd_triv)
    moreover have "fst (engine_cancelOrder s i e w) = answer REJECTED (''order not found: '' @ to_string_u64 i)"
      using found False Some by (simp add: engine_cancelOrder_def Let_def case_prod_beta answer_def)
    ultimately show ?thesis using False Some by (simp add: spec_engine_cancel_def abs_engine_def)
  qed
qed

lemma engine_cancel_outcome:
  assumes inv: "engine_inv e w" and run: "engine_cancelOrder s i e w = (res, e')"
  shows "if \<exists>r\<in>engine_refs e. oid (heap w r) = i \<and> osymbol (heap w r) = s
     then res = answer CANCELLED '''' \<and>
       engine_refs e' = {r \<in> engine_refs e. \<not> (oid (heap w r) = i \<and> osymbol (heap w r) = s)}
     else e' = e \<and> res = answer REJECTED
       (if books e s = None then ''unknown symbol'' else ''order not found: '' @ to_string_u64 i)"
proof (cases "books e s")
  case None
  then have "osymbol (heap w r) \<noteq> s" if "r \<in> engine_refs e" for r
    using that engine_invD(5) [OF inv] by (force simp: engine_refs_def)
  with None run show ?thesis by (auto simp: engine_cancelOrder_def answer_def)
next
  case (Some b)
  note wf = engine_invD(1) [OF inv Some]
  obtain found b' where c: "book_cancelOrder (heap w) i b = (found, b')" by fastforce
  have found: "found \<longleftrightarrow> i \<in> (\<lambda>r. oid (heap w r)) ` set (book_refs b)"
    using book_cancelOrder_correct(1) [OF wf, of i] c hasOrder_iff [OF wf] by simp
  have here: "r \<in> engine_refs e \<and> osymbol (heap w r) = s \<longleftrightarrow> r \<in> set (book_refs b)" for r
    using engine_invD(5) [OF inv] Some by (fastforce simp: engine_refs_def)
  show ?thesis
  proof (cases found)
    case True
    have e': "e' = e\<lparr>books := (books e)(s \<mapsto> b')\<rparr>" "res = answer CANCELLED ''''"
      using run Some c True by (auto simp: engine_cancelOrder_def Let_def answer_def)
    have kept: "set (book_refs b') = {r \<in> set (book_refs b). oid (heap w r) \<noteq> i}"
      using book_cancelOrder_correct(2) [OF wf, of i] c by (simp add: cancelled_def)
    have "r \<in> engine_refs e' \<longleftrightarrow> r \<in> engine_refs e \<and> \<not> (oid (heap w r) = i \<and> osymbol (heap w r) = s)" for r
    proof -
      have "r \<in> engine_refs e' \<longleftrightarrow> r \<in> set (book_refs b') \<or> (\<exists>s2 b2. s2 \<noteq> s \<and> books e s2 = Some b2 \<and> r \<in> set (book_refs b2))"
        by (auto simp: engine_refs_def e')
      also have "(\<exists>s2 b2. s2 \<noteq> s \<and> books e s2 = Some b2 \<and> r \<in> set (book_refs b2))
          \<longleftrightarrow> r \<in> engine_refs e \<and> osymbol (heap w r) \<noteq> s"
        using engine_invD(5) [OF inv] by (fastforce simp: engine_refs_def)
      finally show ?thesis using here [of r] by (auto simp: kept)
    qed
    moreover have "\<exists>r\<in>engine_refs e. oid (heap w r) = i \<and> osymbol (heap w r) = s"
      using True found here by auto
    ultimately show ?thesis using e'(2) by auto
  next
    case False
    then have "b' = b" using c found hasOrder_iff [OF wf] book_cancelOrder_missing [of i b "heap w"] by auto
    with run Some c False have "e' = e" "res = answer REJECTED (''order not found: '' @ to_string_u64 i)"
      by (auto simp: engine_cancelOrder_def Let_def map_upd_triv answer_def)
    moreover have "\<not> (\<exists>r\<in>engine_refs e. oid (heap w r) = i \<and> osymbol (heap w r) = s)"
      using False found here by auto
    ultimately show ?thesis using Some by auto
  qed
qed

section \<open>Execution\<close>

lemma spec_trades_eq:
  assumes "\<forall>x\<in>set ts. tsymbol x = s \<and> takerOrderId x = i" and "map ttimestamp ts = map clk [t..<t + length ts]"
  shows "ts = spec_trades s i clk t (map abs_trade ts)"
  using assms
proof (induction ts arbitrary: t)
  case (Cons x ts)
  have u: "[t..<t + length (x # ts)] = t # [Suc t..<Suc t + length ts]" by (subst upt_conv_Cons) simp_all
  from Cons.prems(2) have x: "ttimestamp x = clk t" and ts: "map ttimestamp ts = map clk [Suc t..<Suc t + length ts]"
    unfolding u by simp_all
  from Cons.IH [OF _ ts] Cons.prems(1) x show ?case by (cases x) (simp add: abs_trade_def)
qed simp

text \<open>The books of the other symbols read the same after an execution.\<close>

lemma executed_books:
  assumes inv: "engine_inv e w" and ok: "acceptable_order (heap w r) (validator e)"
    and ex: "executed r e w res e' w' b b'"
  shows "(\<lambda>s. map_option (abs_book (heap w')) (books e' s))
    = (\<lambda>s. map_option (abs_book (heap w)) (books e s))(osymbol (heap w r) \<mapsto> abs_book (heap w') b')"
proof
  fix s
  have b: "books e (osymbol (heap w r)) = Some b" and ad: "added r b w (rtrades res) b' w'"
    and bk: "books e' = (books e)(osymbol (heap w r) \<mapsto> b')" using ex by (auto simp: executed_def)
  show "map_option (abs_book (heap w')) (books e' s)
    = ((\<lambda>s. map_option (abs_book (heap w)) (books e s))(osymbol (heap w r) \<mapsto> abs_book (heap w') b')) s"
  proof (cases "s = osymbol (heap w r)")
    case False
    have "abs_book (heap w') b2 = abs_book (heap w) b2" if b2: "books e s = Some b2" for b2
    proof (rule abs_book_cong)
      fix x assume x: "x \<in> set (book_refs b2)"
      have "oid (heap w x) \<in> usedIds (validator e)" "osymbol (heap w x) = s" using engine_invD(5,6) [OF inv b2 x] by auto
      then have "x \<noteq> r" "x \<notin> set (book_refs b)"
        using ok False engine_invD(5) [OF inv b, of x] by (auto simp: acceptable_order_def)
      from added_frame [OF ad this] show "heap w' x = heap w x" .
    qed
    with False bk show ?thesis by (cases "books e s") auto
  qed (simp add: bk)
qed

lemma executed_refines:
  assumes inv: "engine_inv e w" and ok: "acceptable_order (heap w r) (validator e)"
    and ex: "executed r e w res e' w' b b'"
  shows "(res, abs_engine (heap w') e', ticks w')
      = spec_execution (heap w r) (clock w) (ticks w) (abs_book (heap w) b)
          ((abs_engine (heap w) e)\<lparr>ae_processed := ordersProcessed e + 1\<rparr>)"
    and "clock w' = clock w"
proof -
  let ?o = "heap w r" and ?a = "(abs_engine (heap w) e)\<lparr>ae_processed := ordersProcessed e + 1\<rparr>"
  have b: "books e (osymbol ?o) = Some b" and ad: "added r b w (rtrades res) b' w'"
    and res: "rstatus res = ostatus (heap w' r)" "rejectReason res = submit_reason (heap w' r)"
    and e': "e' = e\<lparr>books := (books e)(osymbol ?o \<mapsto> b'), validator := recordId (oid ?o) (validator e),
            ordersProcessed := ordersProcessed e + 1, tradesGenerated := tradesGenerated e + of_nat (length (rtrades res))\<rparr>"
    using ex by (auto simp: executed_def)
  let ?fs = "map abs_trade (rtrades res)"
  note F = added_fills [OF ad]
  let ?st = "status_after (otype ?o) (unat (oquantity ?o)) (open_qty ?fs)"
  from ad have tk: "heap w' r = ?o\<lparr>ofilledQty := of_nat (open_qty ?fs), ostatus := ?st\<rparr>"
    and tr: "trades_ok (book_symbol b) (oid ?o) w (rtrades res) w'" by (simp_all add: added_def Let_def)
  have sy: "book_symbol b = osymbol ?o" by (rule engine_invD(2) [OF inv b])
  have ts: "rtrades res = spec_trades (osymbol ?o) (oid ?o) (clock w) (ticks w) ?fs"
    using tr by (intro spec_trades_eq) (auto simp: trades_ok_def sy)
  have "submit_reason (heap w' r) = submit_reason (?o\<lparr>ostatus := ?st\<rparr>)" unfolding tk by (simp add: submit_reason_def)
  with res tk ts have r: "res = \<lparr>rstatus = ?st, rtrades = spec_trades (osymbol ?o) (oid ?o) (clock w) (ticks w) ?fs,
      rejectReason = submit_reason (?o\<lparr>ostatus := ?st\<rparr>)\<rparr>" by (cases res) simp
  have a: "abs_engine (heap w') e' = ?a\<lparr>ae_books := (ae_books ?a)(osymbol ?o \<mapsto> abs_book (heap w') b'),
      ae_validator := recordId (oid ?o) (ae_validator ?a), ae_trades := ae_trades ?a + of_nat (length ?fs)\<rparr>"
    unfolding abs_engine_def executed_books [OF inv ok ex] by (simp add: e')
  have "ticks w' = ticks w + length ?fs" using tr by (simp add: trades_ok_def)
  with r a show "(res, abs_engine (heap w') e', ticks w')
      = spec_execution ?o (clock w) (ticks w) (abs_book (heap w) b) ?a"
    unfolding spec_execution_def F(1) [symmetric] F(2) case_prod_beta Let_def prod.sel by (simp only:)
  show "clock w' = clock w" using tr by (simp add: trades_ok_def)
qed

section \<open>Submission\<close>

lemma abs_book_any_status: "abs_book (heap (set_status r st w)) = abs_book (heap w)"
proof -
  have "entry_of (heap (set_status r st w)) x = entry_of (heap w) x" for x
    by (simp add: entry_of_def world_simps)
  then have "entry_of (heap (set_status r st w)) = entry_of (heap w)" ..
  then show ?thesis by (simp add: abs_book_def abs_side_def fun_eq_iff)
qed

lemma submit_refines:
  assumes inv: "engine_inv e w" and fits: "engine_fits r e w"
  shows "\<exists>res e' w'. submitOrder r e w = Some (res, e', w') \<and>
    (res, abs_engine (heap w') e', ticks w') = spec_submit (heap w r) (clock w) (ticks w) (abs_engine (heap w) e) \<and>
    clock w' = clock w"
proof (cases "otype (heap w r) = CANCEL")
  case True
  let ?e = "e\<lparr>ordersProcessed := ordersProcessed e + 1\<rparr>"
  have "engine_inv ?e w" using inv by (simp add: engine_inv_counter)
  from engine_cancel_refines [OF this, of "osymbol (heap w r)" "oid (heap w r)"] submit_cancel [OF True, of e]
  show ?thesis using True
    by (simp add: spec_submit_def case_prod_beta Let_def abs_engine_def prod_eq_iff)
next
  case ty: False
  show ?thesis
  proof (cases "acceptable_order (heap w r) (validator e)")
    case False
    with submit_rejected [OF ty False] ty show ?thesis
      by (simp add: spec_submit_def answer_def abs_engine_def Let_def abs_book_any_status clock_upd)
  next
    case True
    from submit_executed [OF inv fits ty True] obtain res e' w' b b' where
      s: "submitOrder r e w = Some (res, e', w')" and ex: "executed r e w res e' w' b b'" by blast
    have "books e (osymbol (heap w r)) = Some b" using ex by (simp add: executed_def)
    with executed_refines [OF inv True ex] s ty True show ?thesis
      by (simp add: spec_submit_def Let_def abs_engine_def)
  qed
qed

lemma length_spec_trades: "length (spec_trades s i clk t fs) = length fs"
  by (induction s i clk t fs rule: spec_trades.induct) simp_all

lemma spec_submit_ticks:
  "spec_submit x clk t a = (res, a', t') \<Longrightarrow> t' = t + length (rtrades res)"
  by (auto simp: spec_submit_def spec_engine_cancel_def spec_execution_def answer_def length_spec_trades Let_def
      split: if_splits option.splits prod.splits)

text \<open>A submission reads the clock once per trade.\<close>

lemma submit_ticks:
  assumes "engine_inv e w" and "engine_fits r e w" and "submitOrder r e w = Some (res, e', w')"
  shows "clock w' = clock w" and "ticks w' = ticks w + length (rtrades res)"
  using submit_refines [OF assms(1,2)] assms(3) spec_submit_ticks [of "heap w r" "clock w" "ticks w"] by (auto dest: sym)

section \<open>Where an engine starts, and new orders\<close>

definition spec_start :: "Symbol list \<Rightarrow> aengine" where
  "spec_start syms =
     \<lparr>ae_books = (\<lambda>s. if s \<in> set syms then Some \<lparr>abids = [], aasks = []\<rparr> else None),
      ae_validator = \<lparr>symbols = set syms, usedIds = {}\<rparr>, ae_processed = 0, ae_trades = 0\<rparr>"

lemma registered_spec: "abs_engine h (fold registerSymbol syms MatchingEngine_new) = spec_start syms"
proof -
  have reg: "abs_engine h (registerSymbol s e) = (abs_engine h e)
      \<lparr>ae_books := (if ae_books (abs_engine h e) s = None then (ae_books (abs_engine h e))(s \<mapsto> \<lparr>abids = [], aasks = []\<rparr>)
                   else ae_books (abs_engine h e)),
       ae_validator := validator_registerSymbol s (ae_validator (abs_engine h e))\<rparr>" for s e
    by (auto simp: abs_engine_def registerSymbol_def abs_book_def OrderBook_new_def fun_eq_iff split: option.split)
  have step: "abs_engine h (registerSymbol s e) = spec_start (syms0 @ [s])" if "abs_engine h e = spec_start syms0" for s e syms0
    unfolding reg that by (auto simp: spec_start_def validator_registerSymbol_def fun_eq_iff)
  have "abs_engine h (fold registerSymbol syms e) = spec_start (syms0 @ syms)" if "abs_engine h e = spec_start syms0" for e syms0
    using that step by (induction syms arbitrary: e syms0) (simp, force)
  from this [of MatchingEngine_new "[]"] show ?thesis
    by (simp add: abs_engine_def MatchingEngine_new_def RiskValidator_new_def spec_start_def)
qed

text \<open>An order stored at an address no book refers to is not seen.\<close>

lemma abs_engine_cong:
  assumes "\<And>x. x \<in> engine_refs e \<Longrightarrow> h' x = h x" shows "abs_engine h' e = abs_engine h e"
proof -
  have "abs_book h' b = abs_book h b" if "books e s = Some b" for s b
    using assms that by (intro abs_book_cong) (auto simp: engine_refs_def)
  then have "map_option (abs_book h') (books e s) = map_option (abs_book h) (books e s)" for s
    by (cases "books e s") auto
  then show ?thesis by (simp add: abs_engine_def)
qed

section \<open>Two engines with the same view\<close>

text \<open>
  Engines over different heaps, or over different addresses of one heap, that agree on the
  abstract engine, the clock and the fields of the order give the same answer and still agree.
\<close>

definition same_order :: "Order \<Rightarrow> Order \<Rightarrow> bool" where
  "same_order x y \<longleftrightarrow>
     oid x = oid y \<and> osymbol x = osymbol y \<and> oside x = oside y \<and> otype x = otype y \<and> oprice x = oprice y \<and>
     oquantity x = oquantity y"

lemma spec_submit_same:
  assumes "same_order x y" shows "spec_submit x clk t a = spec_submit y clk t a"
proof -
  from assms have f: "oid x = oid y" "osymbol x = osymbol y" "oside x = oside y" "otype x = otype y"
    "oprice x = oprice y" "oquantity x = oquantity y" by (simp_all add: same_order_def)
  have "submit_reason (x\<lparr>ostatus := st\<rparr>) = submit_reason (y\<lparr>ostatus := st\<rparr>)" for st
    by (simp add: f submit_reason_def)
  moreover have "validate x v = validate y v" "acceptable_order x v = acceptable_order y v" for v
    by (simp_all add: f validate_def acceptable_order_def)
  ultimately show ?thesis by (simp only: spec_submit_def spec_execution_def f)
qed

lemma same_view_submit:
  assumes "engine_inv e1 w1" and "engine_fits r1 e1 w1" and "engine_inv e2 w2" and "engine_fits r2 e2 w2"
    and "abs_engine (heap w1) e1 = abs_engine (heap w2) e2" and "clock w1 = clock w2" and "ticks w1 = ticks w2"
    and "same_order (heap w1 r1) (heap w2 r2)"
  shows "\<exists>res e1' w1' e2' w2'. submitOrder r1 e1 w1 = Some (res, e1', w1') \<and> submitOrder r2 e2 w2 = Some (res, e2', w2') \<and>
    abs_engine (heap w1') e1' = abs_engine (heap w2') e2' \<and> clock w1' = clock w2' \<and> ticks w1' = ticks w2'"
proof -
  from submit_refines [OF assms(1,2)] obtain res1 e1' w1' where
    s1: "submitOrder r1 e1 w1 = Some (res1, e1', w1')" "clock w1' = clock w1"
      "(res1, abs_engine (heap w1') e1', ticks w1') = spec_submit (heap w1 r1) (clock w1) (ticks w1) (abs_engine (heap w1) e1)"
    by blast
  from submit_refines [OF assms(3,4)] obtain res2 e2' w2' where
    s2: "submitOrder r2 e2 w2 = Some (res2, e2', w2')" "clock w2' = clock w2"
      "(res2, abs_engine (heap w2') e2', ticks w2') = spec_submit (heap w2 r2) (clock w2) (ticks w2) (abs_engine (heap w2) e2)"
    by blast
  have "(res1, abs_engine (heap w1') e1', ticks w1') = (res2, abs_engine (heap w2') e2', ticks w2')"
    unfolding s1(3) s2(3) spec_submit_same [OF assms(8)] assms(5-7) ..
  then have "res1 = res2" "abs_engine (heap w1') e1' = abs_engine (heap w2') e2'" "ticks w1' = ticks w2'" by simp_all
  with s1(1,2) s2(1,2) assms(6) show ?thesis
    by (intro exI [of _ res1] exI [of _ e1'] exI [of _ w1'] exI [of _ e2'] exI [of _ w2']) simp
qed


lemma submit_same_order:
  assumes inv: "engine_inv e w" and fits: "engine_fits r e w" and s: "submitOrder r e w = Some (res, e', w')"
  shows "same_order (heap w' x) (heap w x)"
proof (cases "otype (heap w r) = CANCEL")
  case True
  from submit_cancel [OF True, of e] s have "w' = w" by (auto split: prod.splits)
  then show ?thesis by (simp add: same_order_def)
next
  case ty: False
  show ?thesis
  proof (cases "acceptable_order (heap w r) (validator e)")
    case False
    from submit_rejected [OF ty False] s have "w' = set_status r REJECTED w" by simp
    then show ?thesis by (simp add: same_order_def world_simps)
  next
    case True
    from submit_executed [OF inv fits ty True] s obtain b b' where "executed r e w res e' w' b b'" by auto
    then have "added r b w (rtrades res) b' w'" by (simp add: executed_def)
    from same_staticD [OF added_static [OF this, of x]] show ?thesis by (simp add: same_order_def)
  qed
qed

end
