(* ===== verification/Engine_Properties.thy ===== *)
theory Engine_Properties
  imports Engine_Traces Book_Properties Engine_Spec
begin

text \<open>
  The properties of the whole engine: over every reachable state, and over every continuation
  of a run.  The concrete runs at the start make each hypothesis true somewhere.
\<close>

section \<open>A concrete run\<close>

text \<open>The market of the previous theory, built by the engine: one sell of 5, then a buy of 12.\<close>

definition demo_engine0 :: MatchingEngine where
  "demo_engine0 = registerSymbol ''ABC'' MatchingEngine_new"

definition demo_rest_book :: OrderBook where
  "demo_rest_book =
     \<lparr>book_symbol = ''ABC'', bids = [], asks = [(I64 100, \<lparr>lprice = I64 100, orders = [1], totalQty = 5\<rparr>)],
      index = [(1, \<lparr>loc_side = SELL, loc_price = I64 100\<rparr>)]\<rparr>"

definition demo_engine1 :: MatchingEngine where
  "demo_engine1 =
     \<lparr>books = [''ABC'' \<mapsto> demo_rest_book], validator = \<lparr>symbols = {''ABC''}, usedIds = {1}\<rparr>,
      ordersProcessed = 1, tradesGenerated = 0\<rparr>"

definition demo_world1 :: world where
  "demo_world1 = set_status 1 ACCEPTED demo_world"

lemmas engine_demo_defs = demo_engine0_def demo_rest_book_def demo_engine1_def registerSymbol_def
  MatchingEngine_new_def RiskValidator_new_def OrderBook_new_def validator_registerSymbol_def

lemma demo_start: "engine_start (MatchingEngine_new, demo_world)"
  by (simp add: engine_start_def demo_defs)

lemma demo_submit1:
  "submitOrder 1 demo_engine0 demo_world
     = Some (\<lparr>rstatus = ACCEPTED, rtrades = [], rejectReason = ''''\<rparr>, demo_engine1, demo_world1)"
  by (simp add: submitOrder_def engine_demo_defs demo_world1_def demo_defs validate_def
      recordId_def submit_reason_def book_addOrder_def matchLimit_def drain_at_limit_def drain_bids_def
      drainSide.simps drain_continues_def restOrder_def index_order_def isFilled_def remainingQty_def
      level_addOrder_def PriceLevel_new_def Let_def world_simps less_eq_i64_def)

lemma demo_fits1: "engine_fits 1 demo_engine0 demo_world"
  by (simp add: engine_fits_def engine_demo_defs demo_defs own_refs_def)

lemma demo_run1:
  "engine_run (MatchingEngine_new, demo_world)
     [(Register ''ABC'', None), (Submit 1, Some \<lparr>rstatus = ACCEPTED, rtrades = [], rejectReason = ''''\<rparr>)]
     (demo_engine1, demo_world1)"
  using step_register [of MatchingEngine_new demo_world "''ABC''"] step_submit [OF demo_fits1 demo_submit1]
  by (auto intro!: run_step run_nil simp: demo_engine0_def)

lemma demo_reachable: "engine_reachable (demo_engine1, demo_world1)"
  using demo_start demo_run1 by (auto simp: engine_reachable_def)

lemma demo_inv: "engine_inv demo_engine1 demo_world1"
  using reachable_inv [OF demo_reachable] by simp

lemma demo_world1_order: "r \<noteq> 1 \<Longrightarrow> heap demo_world1 r = heap demo_world r"
  by (simp add: demo_world1_def world_simps)

lemma demo_fits10: "engine_fits 10 demo_engine1 demo_world1"
  by (simp add: engine_fits_def engine_demo_defs demo_world1_order demo_defs own_refs_def)

lemma demo_order10:
  "otype (heap demo_world1 10) = LIMIT" "acceptable_order (heap demo_world1 10) (validator demo_engine1)"
  "oid (heap demo_world1 10) = 10" "oquantity (heap demo_world1 10) = 12" "osymbol (heap demo_world1 10) = ''ABC''"
  by (simp_all add: demo_world1_order demo_defs acceptable_order_def demo_engine1_def less_i64_def)

section \<open>Safety of every reachable state\<close>

text \<open>
  C13: in every reachable state each book carries its own symbol, is well-formed (so
  uncrossed and consistent with its index and totals), passes the debug check, and holds only
  positive-price limit orders of that symbol; and order ids are unique across all books.
\<close>

theorem reachable_states_sound:
  assumes "engine_reachable (e, w)"
  shows "(\<forall>s b. books e s = Some b \<longrightarrow>
      book_symbol b = s \<and> book_wf (heap w) b \<and> checkInvariants (heap w) b \<and>
      (\<forall>r\<in>set (book_refs b). osymbol (heap w r) = s \<and> otype (heap w r) = LIMIT \<and> 0 < oprice (heap w r))) \<and>
    inj_on (\<lambda>r. oid (heap w r)) (engine_refs e)"
proof -
  from reachable_inv [OF assms] have inv: "engine_inv e w" by simp
  then have "inj_on (\<lambda>r. oid (heap w r)) (engine_refs e)" by (simp add: engine_inv_def)
  with engine_invD [OF inv] checkInvariants_wf show ?thesis by (auto simp: rests_in_def)
qed

theorem reachable_states_sound_witness:
  "book_wf (heap demo_world1) demo_rest_book \<and> checkInvariants (heap demo_world1) demo_rest_book"
proof -
  have "books demo_engine1 ''ABC'' = Some demo_rest_book" by (simp add: demo_engine1_def)
  with reachable_states_sound [OF demo_reachable] show ?thesis by blast
qed

text \<open>
  C14: in a reachable state every submission that keeps the side total in 64 bits returns: no
  call dereferences a null pointer or loops for ever.
\<close>

theorem submit_always_returns:
  assumes "engine_reachable (e, w)" and "engine_fits r e w"
  shows "\<exists>res e' w'. submitOrder r e w = Some (res, e', w') \<and> engine_reachable (e', w')"
proof -
  from reachable_inv [OF assms(1)] have inv: "engine_inv e w" by simp
  from submit_inv [OF inv assms(2)] obtain res e' w' where s: "submitOrder r e w = Some (res, e', w')" by blast
  from reachable_step [OF assms(1) step_submit [OF assms(2) s]] s show ?thesis by blast
qed

theorem submit_always_returns_witness:
  "\<exists>res e' w'. submitOrder 10 demo_engine1 demo_world1 = Some (res, e', w')"
  using submit_always_returns [OF demo_reachable demo_fits10] by blast

text \<open>
  C15: an order is rejected exactly when one of the pre-trade checks fails (quantity, limit
  price, symbol, fresh id); the reason names the first failing check, and nothing but that
  order's status and the processed counter changes.
\<close>

theorem rejection_exact:
  assumes "engine_reachable (e, w)" and "engine_fits r e w" and "otype (heap w r) \<noteq> CANCEL"
    and "submitOrder r e w = Some (res, e', w')"
  shows "(rstatus res = REJECTED \<longleftrightarrow> \<not> acceptable_order (heap w r) (validator e)) \<and>
    (rstatus res = REJECTED \<longrightarrow>
       rtrades res = [] \<and> rejectReason res = vr_reason (validate (heap w r) (validator e)) \<and>
       rejectReason res \<noteq> '''' \<and> e' = e\<lparr>ordersProcessed := ordersProcessed e + 1\<rparr> \<and>
       w' = set_status r REJECTED w)"
proof -
  from reachable_inv [OF assms(1)] have inv: "engine_inv e w" by simp
  show ?thesis
  proof (cases "acceptable_order (heap w r) (validator e)")
    case True
    from submit_executed [OF inv assms(2,3) True] assms(4) obtain b b' where
      "executed r e w res e' w' b b'" by auto
    then have "rstatus res = status_after (otype (heap w r)) (unat (oquantity (heap w r)))
        (open_qty (map abs_trade (rtrades res)))"
      by (simp del: map_map add: executed_def added_def Let_def)
    then have "rstatus res \<noteq> REJECTED" using assms(3) by (cases "otype (heap w r)") auto
    with True show ?thesis by simp
  next
    case False
    with submit_rejected [OF assms(3) False] assms(4) validate_reason show ?thesis by auto
  qed
qed

theorem rejection_exact_witness:
  "\<exists>res e' w'. submitOrder 10 demo_engine1 demo_world1 = Some (res, e', w') \<and> rstatus res \<noteq> REJECTED"
proof -
  from submit_inv [OF demo_inv demo_fits10] obtain res e' w' where
    s: "submitOrder 10 demo_engine1 demo_world1 = Some (res, e', w')" by blast
  with rejection_exact [OF demo_reachable demo_fits10 _ s] demo_order10 show ?thesis by auto
qed



text \<open>
  C17: once a cancellation has been confirmed, the order never takes part in a trade again,
  whatever the clients do, and no book knows its id.
\<close>

theorem cancelled_never_trades:
  assumes "engine_reachable (e, w)" and "engine_cancelOrder s i e w = (res, e')" and "rstatus res = CANCELLED"
    and "engine_run (e', w) tr st"
  shows "(\<forall>t\<in>set (run_trades tr). makerOrderId t \<noteq> i \<and> takerOrderId t \<noteq> i) \<and>
    (\<forall>s b. books (fst st) s = Some b \<longrightarrow> \<not> hasOrder i b)"
proof -
  from reachable_inv [OF assms(1)] have inv: "engine_inv e w" by simp
  have inv': "engine_inv e' w" using engine_cancel_inv [OF inv, of s i] assms(2) by simp
  have "retired i (e', w)" using cancel_confirmed [OF inv assms(2,3)] .
  with run_retired [OF assms(4)] inv' have
    r: "retired i st" "\<forall>t\<in>set (run_trades tr). \<not> involves i t" by auto
  have "state_inv st" using run_inv [OF assms(4)] inv' by simp
  from retired_absent [OF this r(1)] r(2) show ?thesis by (auto simp: involves_def)
qed

theorem cancelled_never_trades_witness:
  "\<exists>e'. engine_cancelOrder ''ABC'' 1 demo_engine1 demo_world1
        = (\<lparr>rstatus = CANCELLED, rtrades = [], rejectReason = ''''\<rparr>, e') \<and>
     (\<forall>s b. books e' s = Some b \<longrightarrow> \<not> hasOrder 1 b)"
proof -
  have c: "engine_cancelOrder ''ABC'' 1 demo_engine1 demo_world1
      = (\<lparr>rstatus = CANCELLED, rtrades = [], rejectReason = ''''\<rparr>,
         snd (engine_cancelOrder ''ABC'' 1 demo_engine1 demo_world1))"
    by (simp add: engine_cancelOrder_def engine_demo_defs book_cancelOrder_def Let_def)
  from cancelled_never_trades [OF demo_reachable c _ run_nil] c show ?thesis by auto
qed

text \<open>
  C18: no order ever trades more than its quantity, counting every trade of its whole life,
  as taker and as maker.
\<close>

theorem never_overfilled:
  assumes "engine_reachable (e, w)" and "engine_fits r e w" and "otype (heap w r) \<noteq> CANCEL"
    and "acceptable_order (heap w r) (validator e)" and "submitOrder r e w = Some (res, e', w')"
    and "engine_run (e', w') tr st"
  shows "volume (oid (heap w r)) (rtrades res @ run_trades tr) \<le> unat (oquantity (heap w r))"
proof -
  let ?i = "oid (heap w r)"
  from reachable_inv [OF assms(1)] have inv: "engine_inv e w" by simp
  from submit_executed [OF inv assms(2-4)] assms(5) obtain b b' where
    ex: "executed r e w res e' w' b b'" by auto
  have inv': "engine_inv e' w'" by (rule executed_inv [OF inv assms(3,4) ex])
  from executed_taker_law [OF inv assms(3,4) ex] show ?thesis
  proof
    assume a: "r \<in> engine_refs e' \<and> volume ?i (rtrades res) + open_of r (e', w') = unat (oquantity (heap w r))"
    with run_volume_bound [OF assms(6), of r] inv' show ?thesis by (simp add: executed_static [OF ex])
  next
    assume a: "retired ?i (e', w') \<and> volume ?i (rtrades res) \<le> unat (oquantity (heap w r))"
    with run_retired [OF assms(6), of ?i] inv' show ?thesis by (simp add: volume_none)
  qed
qed

theorem never_overfilled_witness:
  "\<exists>res e' w'. submitOrder 10 demo_engine1 demo_world1 = Some (res, e', w') \<and>
     volume 10 (rtrades res @ run_trades []) \<le> 12"
proof -
  from submit_inv [OF demo_inv demo_fits10] obtain res e' w' where
    s: "submitOrder 10 demo_engine1 demo_world1 = Some (res, e', w')" by blast
  from never_overfilled [OF demo_reachable demo_fits10 _ demo_order10(2) s run_nil] demo_order10 s
  show ?thesis by auto
qed

text \<open>
  C19: symbols are isolated: a submission or a cancellation about one symbol leaves every other
  book as it is, and neither fills nor renames an order resting there.
\<close>

theorem symbols_isolated:
  assumes "engine_reachable (e, w)" and "engine_fits r e w" and "submitOrder r e w = Some (res, e', w')"
  shows "untouched (osymbol (heap w r)) e w e' w' \<and> untouched s e w (snd (engine_cancelOrder s i e w)) w"
  using submit_untouched [OF _ assms(2,3)] reachable_inv [OF assms(1)] cancel_untouched by auto

theorem symbols_isolated_witness:
  "\<exists>res e' w'. submitOrder 10 demo_engine1 demo_world1 = Some (res, e', w') \<and> books e' ''XYZ'' = None"
proof -
  from submit_inv [OF demo_inv demo_fits10] obtain res e' w' where
    s: "submitOrder 10 demo_engine1 demo_world1 = Some (res, e', w')" by blast
  from symbols_isolated [OF demo_reachable demo_fits10 s]
  have "books e' ''XYZ'' = books demo_engine1 ''XYZ''" by (simp add: untouched_def demo_order10)
  with s show ?thesis by (simp add: demo_engine1_def)
qed

text \<open>
  The two counters count, modulo \<open>2^64\<close>, the submissions and the trades of the whole run.
\<close>

theorem counters_exact:
  assumes "engine_start st" and "engine_run st tr st'"
  shows "ordersProcessed (fst st') = of_nat (length (filter (is_submit \<circ> fst) tr)) \<and>
    tradesGenerated (fst st') = of_nat (length (run_trades tr))"
  using run_counters [OF assms(2)] assms(1) by (simp add: engine_start_def MatchingEngine_new_def)

theorem counters_exact_witness: "ordersProcessed demo_engine1 = 1 \<and> tradesGenerated demo_engine1 = 0"
  using counters_exact [OF demo_start demo_run1] by (simp add: is_submit_def)

text \<open>
  Every trade of every run has a positive price and a positive quantity, and no order
  trades with itself.
\<close>

theorem trades_positive:
  assumes "engine_reachable st" and "engine_run st tr st'" and "t \<in> set (run_trades tr)"
  shows "0 < tprice t \<and> 0 < tquantity t \<and> makerOrderId t \<noteq> takerOrderId t"
  using run_trades_positive [OF assms(2)] reachable_inv [OF assms(1)] assms(3) by blast

theorem trades_positive_witness:
  "\<exists>res st'. engine_step (demo_engine1, demo_world1) (Submit 10) (Some res) st' \<and>
     rtrades res \<noteq> [] \<and> 0 < tprice (hd (rtrades res))"
proof -
  from submit_executed [OF demo_inv demo_fits10 _ demo_order10(2)] demo_order10(1) obtain res e' w' b b' where
    s: "submitOrder 10 demo_engine1 demo_world1 = Some (res, e', w')"
    and ex: "executed 10 demo_engine1 demo_world1 res e' w' b b'" by auto
  have "b = demo_rest_book" "added 10 demo_rest_book demo_world1 (rtrades res) b' w'"
    using ex by (auto simp: executed_def demo_order10 demo_engine1_def)
  note F = added_fills(1) [OF this(2)]
  have "map abs_trade (rtrades res) = [((I64 100, 1), 5)]"
    unfolding F by (simp add: demo_order10 demo_rest_book_def demo_world1_def demo_defs world_simps
        spec_execute_def match_side_def abs_book_def entry_of_def remainingQty_def Let_def less_eq_i64_def)
  then have ne: "rtrades res \<noteq> []" by auto
  have st: "engine_step (demo_engine1, demo_world1) (Submit 10) (Some res) (e', w')"
    by (rule step_submit [OF demo_fits10 s])
  have "hd (rtrades res) \<in> set (run_trades [(Submit 10, Some res)])" using ne by simp
  from trades_positive [OF demo_reachable run_step [OF st run_nil] this] ne st show ?thesis by blast
qed

text \<open>
  C20: in every reachable state a cancellation is that of the value-based engine and leads to a
  reachable state.  It answers CANCELLED exactly when an order of that symbol and id rests, and then
  exactly that order leaves the books; otherwise REJECTED with the reason (no such symbol, or
  no such order, quoting the id), and then the engine does not change at all.
\<close>

theorem cancel_outcome:
  assumes "engine_reachable (e, w)" and "engine_cancelOrder s i e w = (res, e')"
  shows "(res, abs_engine (heap w) e') = spec_engine_cancel s i (abs_engine (heap w) e) \<and>
    engine_reachable (e', w) \<and>
    (if \<exists>r\<in>engine_refs e. oid (heap w r) = i \<and> osymbol (heap w r) = s
     then res = answer CANCELLED '''' \<and>
       engine_refs e' = {r \<in> engine_refs e. \<not> (oid (heap w r) = i \<and> osymbol (heap w r) = s)}
     else e' = e \<and> res = answer REJECTED
       (if books e s = None then ''unknown symbol'' else ''order not found: '' @ to_string_u64 i))"
    (is "?refines \<and> ?next \<and> ?outcome")
proof (intro conjI)
  have inv: "engine_inv e w" using reachable_inv [OF assms(1)] by simp
  show ?refines using engine_cancel_refines [OF inv, of s i] assms(2) by simp
  show ?next by (rule reachable_step [OF assms(1) step_cancel [OF assms(2)]])
  show ?outcome by (rule engine_cancel_outcome [OF inv assms(2)])
qed

theorem cancel_outcome_witness:
  "rejectReason (fst (engine_cancelOrder ''ABC'' 77 demo_engine1 demo_world1)) = ''order not found: 77''"
proof -
  have "to_string_u64 77 = ''77''"
    by (simp add: to_string_u64_def nat_digits.simps digit_char_eval)
  moreover have "books demo_engine1 ''ABC'' = Some demo_rest_book"
    by (simp add: demo_engine1_def)
  moreover have "77 \<notin> book_ids (abs_book (heap demo_world1) demo_rest_book)"
    by (simp add: demo_rest_book_def demo_world1_def demo_defs world_simps abs_book_def book_ids_def)
  ultimately show ?thesis
    using cancel_outcome [OF demo_reachable, of "''ABC''" 77
        "fst (engine_cancelOrder ''ABC'' 77 demo_engine1 demo_world1)"
        "snd (engine_cancelOrder ''ABC'' 77 demo_engine1 demo_world1)"]
    by (simp add: spec_engine_cancel_def abs_engine_def answer_def)
qed

text \<open>
  C21: in every reachable state a submission within the 64-bit bound computes, through heap, levels, caches and
  indexes, the result, the books, the validator, the counters and the clock readings of the
  value-based engine, which knows nothing of them.
\<close>

theorem engine_refines_spec:
  assumes "engine_reachable (e, w)" and "engine_fits r e w"
  shows "\<exists>res e' w'. submitOrder r e w = Some (res, e', w') \<and>
    (res, abs_engine (heap w') e', ticks w') = spec_submit (heap w r) (clock w) (ticks w) (abs_engine (heap w) e)"
  using submit_refines [OF _ assms(2)] reachable_inv [OF assms(1)] by auto

theorem engine_refines_spec_witness:
  "\<exists>res e' w'. submitOrder 12 demo_engine1 demo_world1 = Some (res, e', w') \<and>
     rstatus res = CANCELLED \<and> rejectReason res = ''IOC: no fill at limit price'' \<and> ticks w' = ticks demo_world1"
proof -
  have fits: "engine_fits 12 demo_engine1 demo_world1"
    by (simp add: engine_fits_def engine_demo_defs demo_world1_order demo_defs)
  let ?x = "heap demo_world1 12"
  have b: "ae_books (abs_engine (heap demo_world1) demo_engine1) ''ABC'' = Some (abs_book (heap demo_world1) demo_rest_book)"
    by (simp add: abs_engine_def demo_engine1_def)
  have x: "otype ?x = IOC" "osymbol ?x = ''ABC''" "acceptable_order ?x (validator demo_engine1)"
    by (simp_all add: demo_world1_order demo_defs acceptable_order_def demo_engine1_def)
  have m: "spec_add (oside ?x) (otype ?x) (oprice ?x) (oid ?x) (unat (oquantity ?x)) (abs_book (heap demo_world1) demo_rest_book)
      = ([], abs_book (heap demo_world1) demo_rest_book)"
    by (simp add: demo_rest_book_def demo_world1_order demo_world1_def demo_defs world_simps
        spec_execute_def match_side_def abs_book_def Let_def less_eq_i64_def)
  from engine_refines_spec [OF demo_reachable fits] obtain res e' w' where
    s: "submitOrder 12 demo_engine1 demo_world1 = Some (res, e', w')"
      "(res, abs_engine (heap w') e', ticks w')
        = spec_submit ?x (clock demo_world1) (ticks demo_world1) (abs_engine (heap demo_world1) demo_engine1)" by blast
  have v: "ae_validator (abs_engine (heap demo_world1) demo_engine1) = validator demo_engine1" by (simp add: abs_engine_def)
  have q: "oquantity ?x = 3" by (simp add: demo_world1_order demo_defs)
  from s(2) x b v have "(res, abs_engine (heap w') e', ticks w')
      = spec_execution ?x (clock demo_world1) (ticks demo_world1) (abs_book (heap demo_world1) demo_rest_book)
          ((abs_engine (heap demo_world1) demo_engine1)\<lparr>ae_processed := ae_processed (abs_engine (heap demo_world1) demo_engine1) + 1\<rparr>)"
    by (simp add: spec_submit_def Let_def)
  from this [unfolded spec_execution_def m]
  have "rstatus res = CANCELLED" "rejectReason res = ''IOC: no fill at limit price''" "ticks w' = ticks demo_world1"
    by (simp_all add: x(1) q submit_reason_def)
  with s(1) show ?thesis by blast
qed

end
