(* ===== verification/Memory_Pool.thy ===== *)
theory Memory_Pool
  imports Prelude
begin

text \<open>
  \<^verbatim>\<open>include/utils/MemoryPool.hpp\<close>: a slab of \<^verbatim>\<open>capacity\<close> slots and a stack of free slot indices.
  A slot holds \<open>Some\<close> object while one is constructed in it; a pointer into the slab is the
  index of its slot, the null pointer is \<open>None\<close>.  Indices are stored as \<^verbatim>\<open>uint32_t\<close>, and the
  model keeps that truncation.  Destroying a slot that holds no object is undefined behaviour,
  so \<open>pool_dealloc\<close> is partial.  A constructor that throws is the argument \<open>None\<close>.
  The invariant \<open>pool_wf\<close> and the contract \<open>allocator\<close> follow the definitions.
\<close>

section \<open>The class\<close>

record 'a pool =
  slots :: "nat \<Rightarrow> 'a option"
  freelist :: "u32 list"
  pool_capacity :: u64
  pool_allocated :: u64

datatype pool_error = Bad_alloc | Ctor_threw

text \<open>The loop of the constructor: indices pushed from \<^verbatim>\<open>capacity - 1\<close> down to 0.\<close>

fun fill_freelist :: "nat \<Rightarrow> u32 list \<Rightarrow> u32 list" where
  "fill_freelist 0 acc = acc"
| "fill_freelist (Suc i) acc = fill_freelist i (acc @ [of_nat i])"

definition pool_new :: "u64 \<Rightarrow> 'a pool" where
  "pool_new c =
     \<lparr>slots = Map.empty, freelist = fill_freelist (unat c) [], pool_capacity = c, pool_allocated = 0\<rparr>"

definition pool_alloc :: "'a option \<Rightarrow> 'a pool \<Rightarrow> (pool_error + nat) \<times> 'a pool" where
  "pool_alloc ctor P =
     (if freelist P = [] then (Inl Bad_alloc, P)
      else let idx = unat (last (freelist P));
               P' = P\<lparr>freelist := butlast (freelist P), pool_allocated := pool_allocated P + 1\<rparr>
           in case ctor of
                None \<Rightarrow> (Inl Ctor_threw, P')
              | Some x \<Rightarrow> (Inr idx, P'\<lparr>slots := (slots P')(idx \<mapsto> x)\<rparr>))"

definition pool_dealloc :: "nat option \<Rightarrow> 'a pool \<Rightarrow> 'a pool option" where
  "pool_dealloc p P =
     (case p of
        None \<Rightarrow> Some P
      | Some idx \<Rightarrow>
          if slots P idx = None \<or> unat (pool_capacity P) \<le> idx then None
          else Some (P\<lparr>slots := (slots P)(idx := None),
                       freelist := freelist P @ [of_nat idx],
                       pool_allocated := pool_allocated P - 1\<rparr>))"

definition pool_available :: "'a pool \<Rightarrow> u64" where
  "pool_available P = of_nat (length (freelist P))"

definition pool_full :: "'a pool \<Rightarrow> bool" where
  "pool_full P \<longleftrightarrow> freelist P = []"

section \<open>The invariant\<close>

definition free_slots :: "'a pool \<Rightarrow> nat list" where
  "free_slots P = map unat (freelist P)"

definition pool_wf :: "'a pool \<Rightarrow> bool" where
  "pool_wf P \<longleftrightarrow>
     unat (pool_capacity P) \<le> 2 ^ 32 \<and> distinct (free_slots P) \<and>
     set (free_slots P) \<inter> dom (slots P) = {} \<and>
     set (free_slots P) \<union> dom (slots P) \<subseteq> {..<unat (pool_capacity P)} \<and>
     unat (pool_allocated P) + length (freelist P) = unat (pool_capacity P)"

text \<open>No slot has been lost to a throwing constructor.\<close>

definition pool_tight :: "'a pool \<Rightarrow> bool" where
  "pool_tight P \<longleftrightarrow> set (free_slots P) \<union> dom (slots P) = {..<unat (pool_capacity P)}"

lemma unat_of_nat_u32: "n < 2 ^ 32 \<Longrightarrow> unat (of_nat n :: u32) = n"
  by (simp add: unsigned_of_nat take_bit_nat_eq_self)

lemma fill_freelist_rev: "fill_freelist n acc = acc @ map of_nat (rev [0..<n])"
  by (induction n arbitrary: acc) auto

lemma free_slots_new:
  assumes "unat c \<le> 2 ^ 32"
  shows "free_slots (pool_new c) = rev [0..<unat c]"
proof -
  have "map (\<lambda>n. unat (of_nat n :: u32)) (rev [0..<unat c]) = map id (rev [0..<unat c])"
    using assms by (intro map_cong) (auto intro!: unat_of_nat_u32)
  then show ?thesis by (simp add: free_slots_def pool_new_def fill_freelist_rev comp_def)
qed

lemma pool_new_simps [simp]:
  "slots (pool_new c) = Map.empty" "pool_capacity (pool_new c) = c" "pool_allocated (pool_new c) = 0"
  "length (freelist (pool_new c)) = unat c"
  by (simp_all add: pool_new_def fill_freelist_rev)

lemma pool_new_wf: "unat c \<le> 2 ^ 32 \<Longrightarrow> pool_wf (pool_new c)"
  by (auto simp: pool_wf_def free_slots_new)

lemma pool_new_tight: "unat c \<le> 2 ^ 32 \<Longrightarrow> pool_tight (pool_new c)"
  by (auto simp: pool_tight_def free_slots_new)

lemma free_slots_snoc:
  assumes "freelist P \<noteq> []"
  shows "free_slots P = map unat (butlast (freelist P)) @ [unat (last (freelist P))]"
  using assms by (cases "freelist P" rule: rev_cases) (simp_all add: free_slots_def)

lemma allocated_step:
  assumes "pool_wf P" and "freelist P \<noteq> []"
  shows "unat (pool_allocated P + 1) = Suc (unat (pool_allocated P))"
proof -
  have "unat (pool_allocated P) + unat (1 :: u64) < 2 ^ 64"
    using assms by (cases "freelist P") (auto simp: pool_wf_def)
  from unat_plus_less [OF this] show ?thesis by simp
qed

lemma pool_alloc_empty: "freelist P = [] \<Longrightarrow> pool_alloc c P = (Inl Bad_alloc, P)"
  by (simp add: pool_alloc_def)

lemma pool_alloc_ok:
  assumes wf: "pool_wf P" and ne: "freelist P \<noteq> []"
  shows "\<exists>p P'. pool_alloc (Some x) P = (Inr p, P') \<and> p = last (free_slots P) \<and> slots P p = None \<and>
      p < unat (pool_capacity P) \<and> slots P' = (slots P)(p \<mapsto> x) \<and> pool_wf P' \<and>
      free_slots P' = butlast (free_slots P) \<and> pool_capacity P' = pool_capacity P"
proof -
  let ?i = "unat (last (freelist P))"
  let ?P = "P\<lparr>freelist := butlast (freelist P), pool_allocated := pool_allocated P + 1, slots := (slots P)(?i \<mapsto> x)\<rparr>"
  note fs = free_slots_snoc [OF ne]
  have i: "?i < unat (pool_capacity P)" "slots P ?i = None" "?i \<notin> set (map unat (butlast (freelist P)))"
    using wf fs by (auto simp: pool_wf_def)
  have sub: "set (map unat (butlast (freelist P))) \<subseteq> set (free_slots P)" unfolding fs by auto
  have fs': "free_slots ?P = map unat (butlast (freelist P))" by (simp add: free_slots_def)
  have "pool_wf ?P"
    unfolding pool_wf_def fs'
  proof (intro conjI)
    show "unat (pool_capacity ?P) \<le> 2 ^ 32" using wf by (simp add: pool_wf_def)
    show "distinct (map unat (butlast (freelist P)))" using wf unfolding pool_wf_def fs by simp
    have "set (free_slots P) \<inter> dom (slots P) = {}" "set (free_slots P) \<union> dom (slots P) \<subseteq> {..<unat (pool_capacity P)}"
      using wf by (simp_all add: pool_wf_def)
    then show "set (map unat (butlast (freelist P))) \<inter> dom (slots ?P) = {}"
      and "set (map unat (butlast (freelist P))) \<union> dom (slots ?P) \<subseteq> {..<unat (pool_capacity ?P)}"
      using i(1,3) sub by auto
    show "unat (pool_allocated ?P) + length (freelist ?P) = unat (pool_capacity ?P)"
      using wf ne allocated_step [OF wf ne] by (cases "freelist P") (auto simp: pool_wf_def)
  qed
  moreover have "pool_alloc (Some x) P = (Inr ?i, ?P)" using ne by (simp add: pool_alloc_def Let_def)
  moreover have "?i = last (free_slots P)" "free_slots ?P = butlast (free_slots P)"
    unfolding fs by (simp_all add: free_slots_def)
  ultimately show ?thesis using i by (intro exI [of _ ?i] exI [of _ ?P]) simp
qed

lemma pool_dealloc_ok:
  assumes wf: "pool_wf P" and p: "slots P p = Some x"
  shows "\<exists>P'. pool_dealloc (Some p) P = Some P' \<and> slots P' = (slots P)(p := None) \<and> pool_wf P' \<and>
      free_slots P' = free_slots P @ [p] \<and> pool_capacity P' = pool_capacity P"
proof -
  let ?P = "P\<lparr>slots := (slots P)(p := None), freelist := freelist P @ [of_nat p],
              pool_allocated := pool_allocated P - 1\<rparr>"
  have lt: "p < unat (pool_capacity P)" and notfree: "p \<notin> set (free_slots P)"
    using wf p by (auto simp: pool_wf_def)
  then have up: "unat (of_nat p :: u32) = p" using wf by (intro unat_of_nat_u32) (simp add: pool_wf_def)
  have fs: "free_slots ?P = free_slots P @ [p]" by (simp add: free_slots_def up)
  have "set (free_slots P) \<subseteq> {..<unat (pool_capacity P)} - {p}" using wf notfree by (auto simp: pool_wf_def)
  then have "card (set (free_slots P)) < unat (pool_capacity P)"
    using lt by (metis card_Diff1_less card_lessThan card_mono finite_Diff finite_lessThan lessThan_iff order_le_less_trans)
  then have len: "length (freelist P) < unat (pool_capacity P)"
    using wf distinct_card [of "free_slots P"] by (simp add: pool_wf_def) (simp add: free_slots_def)
  then have pos: "0 < unat (pool_allocated P)" using wf by (simp add: pool_wf_def)
  then have "(1 :: u64) \<le> pool_allocated P" by (simp add: word_le_nat_alt)
  then have dec: "unat (pool_allocated P - 1) = unat (pool_allocated P) - 1" by (simp add: unat_minus_le)
  have "pool_wf ?P"
    unfolding pool_wf_def
  proof (intro conjI)
    show "unat (pool_capacity ?P) \<le> 2 ^ 32" using wf by (simp add: pool_wf_def)
    show "distinct (free_slots ?P)" unfolding fs using wf notfree by (simp add: pool_wf_def)
    show "set (free_slots ?P) \<inter> dom (slots ?P) = {}" unfolding fs using wf by (auto simp: pool_wf_def)
    show "set (free_slots ?P) \<union> dom (slots ?P) \<subseteq> {..<unat (pool_capacity ?P)}"
      unfolding fs using wf lt by (auto simp: pool_wf_def)
    show "unat (pool_allocated ?P) + length (freelist ?P) = unat (pool_capacity ?P)"
      using wf dec pos by (simp add: pool_wf_def)
  qed
  moreover have "pool_dealloc (Some p) P = Some ?P" using p lt by (simp add: pool_dealloc_def)
  ultimately show ?thesis using fs by (intro exI [of _ ?P]) simp
qed

section \<open>The contract of an allocator\<close>

text \<open>
  What a client relies on: a new object gets a place nothing lives at, everything else stays
  where it is, a full allocator refuses, and freeing a live place makes room again.
\<close>

locale allocator =
  fixes alloc :: "'a \<Rightarrow> 's \<Rightarrow> (nat \<times> 's) option"
    and dealloc :: "nat \<Rightarrow> 's \<Rightarrow> 's option"
    and view :: "'s \<Rightarrow> nat \<Rightarrow> 'a option"
    and avail :: "'s \<Rightarrow> nat"
    and inv :: "'s \<Rightarrow> bool"
  assumes alloc_refuses: "inv s \<Longrightarrow> avail s = 0 \<Longrightarrow> alloc x s = None"
    and alloc_fresh: "inv s \<Longrightarrow> 0 < avail s \<Longrightarrow>
      \<exists>p s'. alloc x s = Some (p, s') \<and> view s p = None \<and> view s' = (view s)(p \<mapsto> x) \<and>
             avail s' = avail s - 1 \<and> inv s'"
    and dealloc_live: "inv s \<Longrightarrow> view s p = Some x \<Longrightarrow>
      \<exists>s'. dealloc p s = Some s' \<and> view s' = (view s)(p := None) \<and> avail s' = avail s + 1 \<and> inv s'"

fun alloc_all :: "('a \<Rightarrow> 's \<Rightarrow> (nat \<times> 's) option) \<Rightarrow> 'a list \<Rightarrow> 's \<Rightarrow> (nat list \<times> 's) option" where
  "alloc_all al [] s = Some ([], s)"
| "alloc_all al (x # xs) s =
     (case al x s of
        None \<Rightarrow> None
      | Some (p, s1) \<Rightarrow> map_option (\<lambda>(ps, s2). (p # ps, s2)) (alloc_all al xs s1))"

fun dealloc_all :: "(nat \<Rightarrow> 's \<Rightarrow> 's option) \<Rightarrow> nat list \<Rightarrow> 's \<Rightarrow> 's option" where
  "dealloc_all de [] s = Some s"
| "dealloc_all de (p # ps) s = (case de p s of None \<Rightarrow> None | Some s1 \<Rightarrow> dealloc_all de ps s1)"

context allocator begin

lemma alloc_all_ok:
  "inv s \<Longrightarrow> length xs \<le> avail s \<Longrightarrow>
     \<exists>ps s'. alloc_all alloc xs s = Some (ps, s') \<and> inv s' \<and> avail s' = avail s - length xs \<and>
       length ps = length xs \<and> distinct ps \<and> set ps \<inter> dom (view s) = {} \<and>
       view s' = map_upds (view s) ps xs"
proof (induction xs arbitrary: s)
  case (Cons x xs)
  from alloc_fresh [OF Cons.prems(1)] Cons.prems(2) obtain p s1 where
    a: "alloc x s = Some (p, s1)" "view s p = None" "view s1 = (view s)(p \<mapsto> x)" "avail s1 = avail s - 1" "inv s1"
    by fastforce
  with Cons.IH [OF a(5)] Cons.prems(2) obtain ps s' where
    b: "alloc_all alloc xs s1 = Some (ps, s')" "inv s'" "avail s' = avail s1 - length xs"
      "length ps = length xs" "distinct ps" "set ps \<inter> dom (view s1) = {}" "view s' = map_upds (view s1) ps xs"
    by fastforce
  with a show ?case by (intro exI [of _ "p # ps"] exI [of _ s']) auto
qed simp

lemma alloc_all_too_many:
  "inv s \<Longrightarrow> avail s < length xs \<Longrightarrow> alloc_all alloc xs s = None"
proof (induction xs arbitrary: s)
  case (Cons x xs)
  show ?case
  proof (cases "avail s = 0")
    case False
    with alloc_fresh [OF Cons.prems(1)] obtain p s1 where
      "alloc x s = Some (p, s1)" "avail s1 = avail s - 1" "inv s1" by blast
    with Cons.IH [of s1] Cons.prems(2) False show ?thesis by simp
  qed (use alloc_refuses Cons.prems in simp)
qed simp

lemma dealloc_all_ok:
  "inv s \<Longrightarrow> distinct ps \<Longrightarrow> set ps \<subseteq> dom (view s) \<Longrightarrow>
     \<exists>s'. dealloc_all dealloc ps s = Some s' \<and> inv s' \<and> avail s' = avail s + length ps \<and>
       view s' = view s |` (- set ps)"
proof (induction ps arbitrary: s)
  case (Cons p ps)
  then obtain x where "view s p = Some x" by auto
  from dealloc_live [OF Cons.prems(1) this] obtain s1 where
    a: "dealloc p s = Some s1" "view s1 = (view s)(p := None)" "avail s1 = avail s + 1" "inv s1" by blast
  have "set ps \<subseteq> dom (view s1)" using Cons.prems(2,3) a(2) by auto
  from Cons.IH [OF a(4) _ this] Cons.prems(2) obtain s' where
    b: "dealloc_all dealloc ps s1 = Some s'" "inv s'" "avail s' = avail s1 + length ps" "view s' = view s1 |` (- set ps)"
    by auto
  have "view s1 |` (- set ps) = view s |` (- set (p # ps))"
    using a(2) by (auto simp: restrict_map_def fun_eq_iff)
  with a b show ?case by simp
qed (simp add: restrict_map_def)

end

section \<open>The pool is an allocator\<close>

definition pool_new_object :: "'a \<Rightarrow> 'a pool \<Rightarrow> (nat \<times> 'a pool) option" where
  "pool_new_object x P = (case pool_alloc (Some x) P of (Inr p, P') \<Rightarrow> Some (p, P') | _ \<Rightarrow> None)"

definition pool_delete :: "nat \<Rightarrow> 'a pool \<Rightarrow> 'a pool option" where
  "pool_delete p P = pool_dealloc (Some p) P"

interpretation pool: allocator pool_new_object pool_delete slots "\<lambda>P. length (freelist P)" pool_wf
proof
  show "pool_new_object x P = None" if "length (freelist P) = 0" for x :: 'a and P :: "'a pool"
    using that by (simp add: pool_new_object_def pool_alloc_empty)
next
  fix x :: 'a and P :: "'a pool"
  assume wf: "pool_wf P" and "0 < length (freelist P)"
  then have "freelist P \<noteq> []" by simp
  from pool_alloc_ok [OF wf this, of x] obtain p P' where
    a: "pool_alloc (Some x) P = (Inr p, P')" "slots P p = None" "slots P' = (slots P)(p \<mapsto> x)" "pool_wf P'"
      "free_slots P' = butlast (free_slots P)" by blast
  from arg_cong [OF a(5), of length] have "length (freelist P') = length (freelist P) - 1"
    by (simp add: free_slots_def)
  with a show "\<exists>p P'. pool_new_object x P = Some (p, P') \<and> slots P p = None \<and> slots P' = (slots P)(p \<mapsto> x) \<and>
      length (freelist P') = length (freelist P) - 1 \<and> pool_wf P'"
    by (intro exI [of _ p] exI [of _ P']) (simp add: pool_new_object_def)
next
  fix P :: "'a pool" and p x
  assume "pool_wf P" and "slots P p = Some x"
  from pool_dealloc_ok [OF this] obtain P' where
    a: "pool_dealloc (Some p) P = Some P'" "slots P' = (slots P)(p := None)" "pool_wf P'"
      "free_slots P' = free_slots P @ [p]" by blast
  from arg_cong [OF a(4), of length] have "length (freelist P') = length (freelist P) + 1"
    by (simp add: free_slots_def)
  with a show "\<exists>P'. pool_delete p P = Some P' \<and> slots P' = (slots P)(p := None) \<and>
      length (freelist P') = length (freelist P) + 1 \<and> pool_wf P'"
    by (simp add: pool_delete_def)
qed

end
