(* ===== verification/Pool_Properties.thy ===== *)
theory Pool_Properties
  imports Memory_Pool
begin

text \<open>The properties of the memory pool.\<close>

section \<open>The order in which slots are handed out\<close>

lemma alloc_ascending:
  "pool_wf P \<Longrightarrow> free_slots P = rev [k..<n] \<Longrightarrow> k + length xs \<le> n \<Longrightarrow>
     \<exists>P'. alloc_all pool_new_object xs P = Some ([k..<k + length xs], P') \<and> pool_wf P' \<and>
       free_slots P' = rev [k + length xs..<n] \<and> slots P' = map_upds (slots P) [k..<k + length xs] xs"
proof (induction xs arbitrary: P k)
  case (Cons x xs)
  then have lt: "k < n" by simp
  then have fs: "free_slots P = rev [Suc k..<n] @ [k]" using Cons.prems(2) by (simp add: upt_rec)
  then have ne: "freelist P \<noteq> []" by (auto simp: free_slots_def)
  from pool_alloc_ok [OF Cons.prems(1) ne, of x] obtain P1 where
    a: "pool_alloc (Some x) P = (Inr k, P1)" "slots P1 = (slots P)(k \<mapsto> x)" "pool_wf P1"
      "free_slots P1 = rev [Suc k..<n]"
    by (auto simp: fs)
  from Cons.IH [OF a(3,4)] Cons.prems(3) obtain P' where
    b: "alloc_all pool_new_object xs P1 = Some ([Suc k..<Suc k + length xs], P')" "pool_wf P'"
      "free_slots P' = rev [Suc k + length xs..<n]" "slots P' = map_upds (slots P1) [Suc k..<Suc k + length xs] xs"
    by auto
  have u: "[k..<k + length (x # xs)] = k # [Suc k..<Suc k + length xs]" by (simp add: upt_rec)
  have "alloc_all pool_new_object (x # xs) P = Some ([k..<k + length (x # xs)], P')"
    unfolding u using a(1) b(1) by (simp add: pool_new_object_def)
  moreover have "slots P' = map_upds (slots P) [k..<k + length (x # xs)] (x # xs)"
    unfolding u using a(2) b(4) by simp
  ultimately show ?case using b(2,3) by (intro exI [of _ P']) simp
qed simp

section \<open>Properties\<close>

definition small_pool :: "nat pool" where
  "small_pool = pool_new 2"

lemma small_pool_wf: "pool_wf small_pool" "freelist small_pool \<noteq> []"
proof -
  have "length (freelist small_pool) = 2" by (simp add: small_pool_def)
  then show "freelist small_pool \<noteq> []" by auto
qed (simp add: small_pool_def pool_new_wf)

text \<open>
  C39: a pool of capacity \<open>c\<close> (at most \<open>2^32\<close>) serves exactly \<open>c\<close> allocations, in ascending slots,
  each object in a slot of its own and left in place by the later ones; the next allocation
  throws \<^verbatim>\<open>bad_alloc\<close> and changes nothing.
\<close>

theorem pool_serves_capacity:
  assumes "unat c \<le> 2 ^ 32" and "length xs = unat c"
  shows "\<exists>P. alloc_all pool_new_object xs (pool_new c) = Some ([0..<unat c], P) \<and>
    (\<forall>i<unat c. slots P i = Some (xs ! i)) \<and> pool_full P \<and> pool_alloc (Some x) P = (Inl Bad_alloc, P)"
proof -
  have "0 + length xs \<le> unat c" using assms(2) by simp
  from alloc_ascending [OF pool_new_wf [OF assms(1)] free_slots_new [OF assms(1)] this] obtain P where
    P: "alloc_all pool_new_object xs (pool_new c) = Some ([0..<unat c], P)" "free_slots P = []"
      "slots P = map_upds Map.empty [0..<unat c] xs"
    using assms(2) by auto
  then have "freelist P = []" by (simp add: free_slots_def)
  moreover have "slots P i = Some (xs ! i)" if "i < unat c" for i
    using that assms(2) by (auto simp: P(3) map_upds_def in_set_zip rev_map [symmetric] intro!: map_of_is_SomeI exI [of _ i])
  ultimately show ?thesis
    using P(1) by (intro exI [of _ P]) (simp add: pool_full_def pool_alloc_empty)
qed

theorem pool_serves_capacity_witness:
  "\<exists>P. alloc_all pool_new_object [7, 8 :: nat] small_pool = Some ([0, 1], P) \<and> slots P 1 = Some 8 \<and>
     pool_alloc (Some 9) P = (Inl Bad_alloc, P)"
  using pool_serves_capacity [of 2 "[7, 8 :: nat]" 9] by (simp add: small_pool_def upt_rec) force

text \<open>
  Allocating an object and deallocating it gives back exactly the pool there was before.
\<close>

theorem alloc_dealloc_roundtrip:
  assumes "pool_wf P" and "pool_alloc (Some x) P = (Inr p, P')"
  shows "slots P' p = Some x \<and> pool_dealloc (Some p) P' = Some P"
proof -
  have ne: "freelist P \<noteq> []" using assms(2) pool_alloc_empty by (metis Inl_Inr_False prod.inject)
  from pool_alloc_ok [OF assms(1) ne, of x] assms(2) have
    p: "slots P p = None" "p < unat (pool_capacity P)" by auto
  have eq: "p = unat (last (freelist P))" "P' = P\<lparr>freelist := butlast (freelist P),
      pool_allocated := pool_allocated P + 1, slots := (slots P)(p \<mapsto> x)\<rparr>"
    using assms(2) ne by (auto simp: pool_alloc_def Let_def)
  have "of_nat p = last (freelist P)" by (simp add: eq(1))
  then show ?thesis
    using p ne by (simp add: eq(2) pool_dealloc_def fun_upd_idem)
qed

theorem alloc_dealloc_roundtrip_witness:
  "\<exists>p P'. pool_alloc (Some 5) small_pool = (Inr p, P') \<and> pool_dealloc (Some p) P' = Some small_pool"
proof -
  from pool_alloc_ok [OF small_pool_wf] obtain p P' where a: "pool_alloc (Some 5) small_pool = (Inr p, P')" by blast
  from alloc_dealloc_roundtrip [OF small_pool_wf(1) a] a show ?thesis by blast
qed

text \<open>Every pool a client can get to.\<close>

inductive pool_reach :: "u64 \<Rightarrow> 'a pool \<Rightarrow> bool" for c where
  pool_reach_new: "pool_reach c (pool_new c)"
| pool_reach_alloc: "pool_reach c P \<Longrightarrow> pool_alloc ctor P = (out, P') \<Longrightarrow> pool_reach c P'"
| pool_reach_dealloc: "pool_reach c P \<Longrightarrow> pool_dealloc p P = Some P' \<Longrightarrow> pool_reach c P'"

lemma pool_alloc_throw_wf:
  assumes "pool_wf P" shows "pool_wf (snd (pool_alloc None P))"
proof (cases "freelist P = []")
  case False
  note fs = free_slots_snoc [OF False]
  have "unat (pool_allocated P + 1) + length (butlast (freelist P)) = unat (pool_capacity P)"
    using assms allocated_step [OF assms False] False
    by (cases "freelist P" rule: rev_cases) (auto simp: pool_wf_def)
  moreover have "snd (pool_alloc None P) = P\<lparr>freelist := butlast (freelist P), pool_allocated := pool_allocated P + 1\<rparr>"
    using False by (simp add: pool_alloc_def Let_def)
  ultimately show ?thesis
    using assms unfolding pool_wf_def fs by (auto simp: free_slots_def)
qed (use assms in \<open>simp add: pool_alloc_def\<close>)

lemma pool_alloc_wf:
  assumes "pool_wf P" and "pool_alloc ctor P = (out, P')" shows "pool_wf P'"
proof (cases "freelist P = []")
  case True
  with assms show ?thesis by (simp add: pool_alloc_def)
next
  case False
  show ?thesis
  proof (cases ctor)
    case None
    with pool_alloc_throw_wf [OF assms(1)] assms(2) show ?thesis by simp
  next
    case (Some x)
    with pool_alloc_ok [OF assms(1) False, of x] assms(2) show ?thesis by auto
  qed
qed

lemma pool_dealloc_wf:
  assumes "pool_wf P" and "pool_dealloc p P = Some P'" shows "pool_wf P'"
proof (cases p)
  case (Some i)
  with assms(2) obtain x where "slots P i = Some x" by (auto simp: pool_dealloc_def split: if_splits)
  with pool_dealloc_ok [OF assms(1) this] Some assms(2) show ?thesis by auto
qed (use assms in \<open>simp add: pool_dealloc_def\<close>)

lemma pool_reach_wf: "pool_reach c P \<Longrightarrow> unat c \<le> 2 ^ 32 \<Longrightarrow> pool_wf P"
  by (induction rule: pool_reach.induct) (auto intro: pool_new_wf pool_alloc_wf pool_dealloc_wf)

text \<open>
  The bookkeeping is exact whatever is allocated and freed: in every pool reached from a
  new one the invariant holds, an allocation lands in a free slot and touches no other object,
  and the live objects, the free list and the counter add up.
\<close>

theorem pool_bookkeeping:
  assumes "pool_reach c P" and "unat c \<le> 2 ^ 32"
  shows "pool_wf P \<and>
    (\<forall>x p P'. pool_alloc (Some x) P = (Inr p, P') \<longrightarrow>
       slots P p = None \<and> p < unat (pool_capacity P) \<and> slots P' = (slots P)(p \<mapsto> x)) \<and>
    (\<forall>p P'. pool_dealloc (Some p) P = Some P' \<longrightarrow>
       p \<in> dom (slots P) \<and> slots P' = (slots P)(p := None) \<and> pool_available P' = pool_available P + 1)"
proof (intro conjI allI impI)
  show wf: "pool_wf P" by (rule pool_reach_wf [OF assms])
  fix x p P' assume a: "pool_alloc (Some x) P = (Inr p, P')"
  then have "freelist P \<noteq> []" using pool_alloc_empty by (metis Inl_Inr_False prod.inject)
  from pool_alloc_ok [OF wf this, of x] a
  show "slots P p = None" "p < unat (pool_capacity P)" "slots P' = (slots P)(p \<mapsto> x)" by auto
next
  fix p P' assume "pool_dealloc (Some p) P = Some P'"
  then show "p \<in> dom (slots P)" "slots P' = (slots P)(p := None)" "pool_available P' = pool_available P + 1"
    by (auto simp: pool_dealloc_def pool_available_def split: if_splits)
qed

theorem pool_bookkeeping_witness: "pool_wf (pool_new 3 :: nat pool)"
  using pool_bookkeeping [of 3 "pool_new 3 :: nat pool", OF pool_reach_new] by simp

text \<open>
  Beyond \<open>2^32\<close> slots the 32-bit indices repeat: a pool of \<open>2^32 + 1\<close> slots has slot 0 on its
  free list twice, first and last, so it is handed out a second time while in use.
\<close>

theorem pool_index_truncation:
  "hd (freelist (pool_new 4294967297 :: 'a pool)) = 0 \<and> last (freelist (pool_new 4294967297 :: 'a pool)) = 0 \<and>
   length (freelist (pool_new 4294967297 :: 'a pool)) = 4294967297 \<and> \<not> pool_wf (pool_new 4294967297 :: 'a pool)"
proof -
  have gen: "hd (map of_nat (rev [0..<n])) = (of_nat (n - 1) :: u32) \<and> last (map of_nat (rev [0..<n])) = (0 :: u32)"
    if "0 < n" for n
    using that by (simp add: hd_map last_map hd_rev last_rev)
  have n: "unat (4294967297 :: u64) = 4294967297" by simp
  have f: "freelist (pool_new 4294967297 :: 'a pool) = map of_nat (rev [0..<4294967297])"
    by (simp only: pool_new_def fill_freelist_rev n) simp
  have z: "(of_nat (4294967297 - 1) :: u32) = 0" by simp
  have "hd (freelist (pool_new 4294967297 :: 'a pool)) = 0 \<and> last (freelist (pool_new 4294967297 :: 'a pool)) = 0"
    unfolding f using gen [of 4294967297] z by (simp del: upt_rec upt_rec_numeral)
  moreover have "length (freelist (pool_new 4294967297 :: 'a pool)) = 4294967297" by simp
  moreover have "\<not> pool_wf (pool_new 4294967297 :: 'a pool)" by (simp add: pool_wf_def)
  ultimately show ?thesis by simp
qed

text \<open>
  When the constructor of the object throws, its slot is lost: it is neither live nor
  free, and the counter still counts it.
\<close>

theorem throwing_ctor_leaks:
  assumes "pool_wf P" and "pool_tight P" and "freelist P \<noteq> []"
  shows "\<exists>P'. pool_alloc None P = (Inl Ctor_threw, P') \<and> slots P' = slots P \<and>
    length (freelist P') = length (freelist P) - 1 \<and> pool_allocated P' = pool_allocated P + 1 \<and> \<not> pool_tight P'"
proof -
  let ?P = "P\<lparr>freelist := butlast (freelist P), pool_allocated := pool_allocated P + 1\<rparr>"
  note fs = free_slots_snoc [OF assms(3)]
  let ?i = "unat (last (freelist P))"
  have "?i < unat (pool_capacity P)" "?i \<notin> dom (slots P)" "?i \<notin> set (map unat (butlast (freelist P)))"
    using assms(1) fs by (auto simp: pool_wf_def)
  then have "\<not> pool_tight ?P" by (auto simp: pool_tight_def free_slots_def)
  then show ?thesis using assms(3) by (intro exI [of _ ?P]) (simp add: pool_alloc_def Let_def)
qed

theorem throwing_ctor_leaks_witness:
  "\<exists>P'. pool_alloc None small_pool = (Inl Ctor_threw, P') \<and> length (freelist P') = 1"
  using throwing_ctor_leaks [OF small_pool_wf(1) _ small_pool_wf(2)] pool_new_tight [of 2]
  by (auto simp: small_pool_def)

end
