(* ===== verification/Spsc_Ring.thy ===== *)
theory Spsc_Ring
  imports Prelude "HOL-Library.Monad_Syntax"
begin

unbundle bit_operations_syntax

text \<open>
  \<^verbatim>\<open>include/utils/SpscRingBuffer.hpp\<close>: a ring of slots with a head and a tail index, used by one
  producer and one consumer.  A slot holds \<open>Some\<close> item while an object lives in it.  First the
  class as a sequential object, then its contract as a FIFO channel.  \<open>Spsc_Steps\<close> interleaves
  the two threads at the granularity of their atomic accesses.

  The ring stores a list when its slots are \<open>layout\<close> of it: the items follow each other from
  the head, modulo the capacity, and every other slot is empty.
\<close>

section \<open>The class\<close>

record 'a ring =
  ring_capacity :: u64
  ring_mask :: u64
  ring_slots :: "nat \<Rightarrow> 'a option"
  ring_head :: u64
  ring_tail :: u64

text \<open>\<^verbatim>\<open>while (p < n) p <<= 1\<close>: \<open>None\<close> is a loop that never ends.\<close>

partial_function (option) pow2_loop :: "u64 \<Rightarrow> u64 \<Rightarrow> u64 option" where
  "pow2_loop n p = (if p < n then pow2_loop n (push_bit 1 p) else Some p)"

definition nextPow2 :: "u64 \<Rightarrow> u64 option" where
  "nextPow2 n = (if n < 2 then Some 2 else pow2_loop n 1)"

definition ring_new :: "u64 \<Rightarrow> 'a ring option" where
  "ring_new c = do {
     cap \<leftarrow> nextPow2 c;
     Some \<lparr>ring_capacity = cap, ring_mask = cap - 1, ring_slots = Map.empty, ring_head = 0, ring_tail = 0\<rparr>
   }"

definition ring_next :: "'a ring \<Rightarrow> u64 \<Rightarrow> u64" where
  "ring_next r i = (i + 1) AND ring_mask r"

definition ring_push :: "'a \<Rightarrow> 'a ring \<Rightarrow> bool \<times> 'a ring" where
  "ring_push x r =
     (let tail = ring_tail r; nxt = ring_next r tail
      in if nxt = ring_head r then (False, r)
         else (True, r\<lparr>ring_slots := (ring_slots r)(unat tail \<mapsto> x), ring_tail := nxt\<rparr>))"

text \<open>The outer option is undefined behaviour: reading a slot no object lives in.\<close>

definition ring_pop :: "'a ring \<Rightarrow> ('a option \<times> 'a ring) option" where
  "ring_pop r =
     (let head = ring_head r
      in if head = ring_tail r then Some (None, r)
         else case ring_slots r (unat head) of
                None \<Rightarrow> None
              | Some item \<Rightarrow>
                  Some (Some item, r\<lparr>ring_slots := (ring_slots r)(unat head := None),
                                     ring_head := ring_next r head\<rparr>))"

definition ring_empty :: "'a ring \<Rightarrow> bool" where
  "ring_empty r \<longleftrightarrow> ring_head r = ring_tail r"

definition ring_approxSize :: "'a ring \<Rightarrow> u64" where
  "ring_approxSize r = (ring_tail r - ring_head r + ring_capacity r) AND ring_mask r"

section \<open>Rounding up to a power of two\<close>

lemma unat_push_bit_one:
  assumes "unat p < 2 ^ 63" shows "unat (push_bit 1 (p :: u64)) = 2 * unat p"
proof -
  have "push_bit 1 p = p + p" by (simp add: push_bit_eq_mult mult_2_right)
  moreover have "unat p + unat p < 2 ^ 64" using assms by simp
  ultimately show ?thesis using unat_plus_less [of p p] by (simp only: mult_2)
qed

lemma pow2_loop_smallest:
  assumes "unat p = 2 ^ i" and "unat n \<le> 2 ^ (i + d)" and "i + d \<le> 63"
    and "\<forall>j. 2 ^ j < unat p \<longrightarrow> 2 ^ j < unat n"
  shows "\<exists>m k. pow2_loop n p = Some m \<and> unat m = 2 ^ k \<and> i \<le> k \<and> k \<le> 63 \<and> unat n \<le> 2 ^ k \<and>
    (\<forall>j. 2 ^ j < unat m \<longrightarrow> 2 ^ j < unat n)"
  using assms
proof (induction d arbitrary: p i)
  case 0
  then have "\<not> p < n" by (simp add: word_less_nat_alt)
  then have "pow2_loop n p = Some p" by (subst pow2_loop.simps) simp
  with 0 show ?case by (intro exI [of _ p] exI [of _ i]) auto
next
  case (Suc d)
  show ?case
  proof (cases "p < n")
    case False
    then have "pow2_loop n p = Some p" by (subst pow2_loop.simps) simp
    with False Suc.prems show ?thesis
      by (intro exI [of _ p] exI [of _ i]) (auto simp: word_less_nat_alt)
  next
    case True
    have "(2::nat) ^ i < 2 ^ 63" using Suc.prems(3) by (intro power_strict_increasing) auto
    then have p2: "unat (push_bit 1 p) = 2 ^ Suc i" using unat_push_bit_one [of p] Suc.prems(1) by simp
    have small: "\<forall>j. 2 ^ j < unat (push_bit 1 p) \<longrightarrow> 2 ^ j < unat n"
    proof (intro allI impI)
      fix j assume "2 ^ j < unat (push_bit 1 p)"
      then have "(2::nat) ^ j < 2 ^ Suc i" unfolding p2 .
      then have "j < Suc i" by (rule power_less_imp_less_exp [rotated]) simp
      then have "j \<le> i" by simp
      then have "(2::nat) ^ j \<le> unat p" unfolding Suc.prems(1) by (intro power_increasing) auto
      with True show "2 ^ j < unat n" by (simp add: word_less_nat_alt)
    qed
    from Suc.IH [OF p2 _ _ small] Suc.prems(2,3) obtain m k where
      "pow2_loop n (push_bit 1 p) = Some m" "unat m = 2 ^ k" "Suc i \<le> k" "k \<le> 63" "unat n \<le> 2 ^ k"
      "\<forall>j. 2 ^ j < unat m \<longrightarrow> 2 ^ j < unat n" by auto
    with True show ?thesis by (subst pow2_loop.simps) (auto intro!: exI [of _ m] exI [of _ k])
  qed
qed

lemma nextPow2_correct:
  assumes "unat n \<le> 2 ^ 63"
  shows "\<exists>m k. nextPow2 n = Some m \<and> unat m = 2 ^ k \<and> 1 \<le> k \<and> k \<le> 63 \<and> unat n \<le> 2 ^ k \<and>
    (\<forall>j. 2 ^ j < unat m \<longrightarrow> 2 ^ j < max 2 (unat n))"
proof (cases "n < 2")
  case True
  then have "nextPow2 n = Some 2" by (simp add: nextPow2_def)
  with True show ?thesis
    by (intro exI [of _ 2] exI [of _ 1]) (auto simp: word_less_nat_alt)
next
  case False
  then have two: "2 \<le> unat n" by (simp add: word_less_nat_alt)
  from pow2_loop_smallest [of 1 0 n 63] assms obtain m k where
    m: "pow2_loop n 1 = Some m" "unat m = 2 ^ k" "k \<le> 63" "unat n \<le> 2 ^ k"
      "\<forall>j. 2 ^ j < unat m \<longrightarrow> 2 ^ j < unat n" by auto
  have "k \<noteq> 0" using m(4) two by (intro notI) simp
  with m False two show ?thesis by (intro exI [of _ m] exI [of _ k]) (auto simp: nextPow2_def)
qed

text \<open>Beyond \<open>2^63\<close> the shifted value falls to 0 and the loop never ends.\<close>

definition pow2_or_zero :: "u64 \<Rightarrow> bool" where
  "pow2_or_zero p \<longleftrightarrow> p = 0 \<or> (\<exists>i\<le>63. unat p = 2 ^ i)"

lemma pow2_or_zero_le: "pow2_or_zero p \<Longrightarrow> unat p \<le> 2 ^ 63"
proof -
  have "(2::nat) ^ i \<le> 2 ^ 63" if "i \<le> 63" for i :: nat using that by (intro power_increasing) auto
  then show "pow2_or_zero p \<Longrightarrow> unat p \<le> 2 ^ 63" by (auto simp: pow2_or_zero_def)
qed

lemma pow2_or_zero_shift: "pow2_or_zero p \<Longrightarrow> pow2_or_zero (push_bit 1 p)"
proof -
  assume "pow2_or_zero p"
  then consider "p = 0" | i where "i \<le> 63" "unat p = 2 ^ i" by (auto simp: pow2_or_zero_def)
  then show ?thesis
  proof cases
    case 2
    show ?thesis
    proof (cases "i = 63")
      case True
      with 2 have "p = of_nat (2 ^ 63)" by (intro unat_eq_of_nat) simp
      then have "push_bit 1 p = 0" by simp
      then show ?thesis by (simp add: pow2_or_zero_def)
    next
      case False
      then have "(2::nat) ^ i < 2 ^ 63" using 2(1) by (intro power_strict_increasing) auto
      with 2 have "unat (push_bit 1 p) = 2 ^ Suc i" using unat_push_bit_one [of p] by simp
      moreover have "Suc i \<le> 63" using False 2(1) by simp
      ultimately show ?thesis unfolding pow2_or_zero_def by blast
    qed
  qed (simp add: pow2_or_zero_def)
qed

lemma pow2_loop_stuck:
  assumes "pow2_loop n p = Some m"
  shows "2 ^ 63 < unat n \<longrightarrow> \<not> pow2_or_zero p"
proof (rule pow2_loop.raw_induct [OF _ assms, where P = "\<lambda>n p m. 2 ^ 63 < unat n \<longrightarrow> \<not> pow2_or_zero p"])
  fix loop n p m
  assume IH: "\<And>n p m. loop n p = Some m \<Longrightarrow> 2 ^ 63 < unat n \<longrightarrow> \<not> pow2_or_zero p"
    and body: "(if p < n then loop n (push_bit 1 p) else Some p) = Some m"
  show "2 ^ 63 < unat n \<longrightarrow> \<not> pow2_or_zero p"
  proof (intro impI notI)
    assume n: "2 ^ 63 < unat n" and p: "pow2_or_zero p"
    with pow2_or_zero_le [OF p] have "p < n" by (simp add: word_less_nat_alt)
    with body IH [of n "push_bit 1 p" m] n pow2_or_zero_shift [OF p] show False by simp
  qed
qed

lemma nextPow2_diverges: "2 ^ 63 < unat n \<Longrightarrow> nextPow2 n = None"
proof -
  assume n: "2 ^ 63 < unat n"
  then have "\<not> n < 2" by (simp add: word_less_nat_alt)
  moreover have "pow2_loop n 1 \<noteq> Some m" for m

  proof -
    have "unat (1 :: u64) = 2 ^ 0" by simp
    then have "pow2_or_zero 1" unfolding pow2_or_zero_def by blast
    with pow2_loop_stuck [of n 1 m] n show ?thesis by blast
  qed
  ultimately show ?thesis by (cases "pow2_loop n 1") (auto simp: nextPow2_def)
qed

section \<open>Layout of a list in the slots\<close>

fun layout :: "nat \<Rightarrow> nat \<Rightarrow> 'a list \<Rightarrow> nat \<Rightarrow> 'a option" where
  "layout n h [] = Map.empty"
| "layout n h (x # q) = (layout n (Suc h mod n) q)(h \<mapsto> x)"

declare layout.simps [simp del]

lemma layout_simps [simp]:
  "layout n h [] = Map.empty"
  "layout n h (x # q) = (layout n (Suc h mod n) q)(h \<mapsto> x)"
  by (auto simp: layout.simps fun_eq_iff)

lemma wrap_add: "h < n \<Longrightarrow> i \<le> n \<Longrightarrow> (h + i) mod n = (if h + i < n then h + i else h + i - n)"
  for h i n :: nat
  by (simp add: mod_if)

lemma wrap_inj: "h < n \<Longrightarrow> i < n \<Longrightarrow> j < n \<Longrightarrow> (h + i) mod n = (h + j) mod n \<longleftrightarrow> i = j"
  for h i j n :: nat
  by (simp add: wrap_add split: if_splits) linarith

lemma wrap_Suc: "(Suc h mod n + i) mod n = (h + Suc i) mod n"
  by (simp add: mod_simps)

lemma layout_occupied:
  "h < n \<Longrightarrow> layout n h q j \<noteq> None \<longleftrightarrow> (\<exists>i<length q. j = (h + i) mod n)"
proof (induction q arbitrary: h)
  case (Cons x q)
  have "layout n (Suc h mod n) q j \<noteq> None \<longleftrightarrow> (\<exists>i<length q. j = (h + Suc i) mod n)"
    using Cons.IH [of "Suc h mod n"] Cons.prems unfolding wrap_Suc by simp
  moreover have "layout n h (x # q) j \<noteq> None \<longleftrightarrow> j = h \<or> layout n (Suc h mod n) q j \<noteq> None"
    by simp
  ultimately show ?case using Cons.prems by (simp only: list.size Ex_less_Suc2 add_Suc_right add_0_right) simp
qed simp

lemma layout_head: "layout n h (x # q) h = Some x"
  by simp

lemma layout_take:
  assumes h: "h < n" and q: "length q < n"
  shows "(layout n h (x # q))(h := None) = layout n (Suc h mod n) q"
proof (rule ext)
  fix j
  have "layout n (Suc h mod n) q h = None"
  proof (rule ccontr)
    assume "layout n (Suc h mod n) q h \<noteq> None"
    then obtain i where i: "i < length q" "h = (h + Suc i) mod n"
      using layout_occupied [of "Suc h mod n" n q h] h unfolding wrap_Suc by auto
    with wrap_inj [OF h, of "Suc i" 0] h q show False by simp
  qed
  then show "((layout n h (x # q))(h := None)) j = layout n (Suc h mod n) q j" by simp
qed

lemma layout_snoc:
  assumes "h < n" and "length q < n"
  shows "layout n h (q @ [x]) = (layout n h q)((h + length q) mod n \<mapsto> x)"
proof -
  have "layout n h (q @ [x]) j = (if j = (h + length q) mod n then Some x else layout n h q j)" for j
    using assms
  proof (induction q arbitrary: h)
    case (Cons y q)
    have ne: "(h + Suc (length q)) mod n \<noteq> h" using wrap_inj [of h n "Suc (length q)" 0] Cons.prems by simp
    have "layout n (Suc h mod n) (q @ [x]) j
        = (if j = (h + Suc (length q)) mod n then Some x else layout n (Suc h mod n) q j)"
      using Cons.IH [of "Suc h mod n"] Cons.prems unfolding wrap_Suc by simp
    with ne show ?case by auto
  qed simp
  then show ?thesis by (auto intro!: ext)
qed

section \<open>What a ring stores\<close>

text \<open>The indices of a ring of \<open>n = 2^k\<close> slots around a list of this length.\<close>

definition ring_shape :: "nat \<Rightarrow> 'a ring \<Rightarrow> nat \<Rightarrow> bool" where
  "ring_shape n r len \<longleftrightarrow>
     (\<exists>k. 1 \<le> k \<and> k \<le> 63 \<and> n = 2 ^ k) \<and> unat (ring_capacity r) = n \<and> ring_mask r = ring_capacity r - 1 \<and>
     unat (ring_head r) < n \<and> len < n \<and> unat (ring_tail r) = (unat (ring_head r) + len) mod n"

definition ring_holds :: "'a ring \<Rightarrow> 'a list \<Rightarrow> bool" where
  "ring_holds r q \<longleftrightarrow>
     (\<exists>n. ring_shape n r (length q) \<and> ring_slots r = layout n (unat (ring_head r)) q)"

definition ring_usable :: "'a ring \<Rightarrow> nat" where
  "ring_usable r = unat (ring_capacity r) - 1"

lemma and_pow2_mask:
  assumes "unat c = 2 ^ k" and "k \<le> 63"
  shows "unat (x AND (c - 1) :: u64) = unat x mod 2 ^ k"
proof -
  have "c = of_nat (2 ^ k)" using assms(1) by (rule unat_eq_of_nat)
  then have "c = 2 ^ k" by simp
  then have "c - 1 = mask k" by (simp add: mask_eq_decr_exp)
  then have "x AND (c - 1) = take_bit k x" by (simp add: take_bit_eq_mask)
  then show ?thesis by (simp add: unsigned_take_bit_eq del: take_bit_eq_mod) (simp add: take_bit_eq_mod)
qed

lemma ring_next_unat:
  assumes "ring_shape n r len" and "unat i < n"
  shows "unat (ring_next r i) = Suc (unat i) mod n"
proof -
  from assms(1) obtain k where k: "k \<le> 63" "n = 2 ^ k" "unat (ring_capacity r) = 2 ^ k"
    "ring_mask r = ring_capacity r - 1" by (auto simp: ring_shape_def)
  have "(2::nat) ^ k \<le> 2 ^ 63" using k(1) by (intro power_increasing) auto
  then have "unat i + unat (1::u64) < 2 ^ 64" using assms(2) k(2) by simp
  then have "unat (i + 1) = Suc (unat i)" using unat_plus_less [of i 1] by simp
  with and_pow2_mask [OF k(3,1)] show ?thesis by (simp add: ring_next_def k(2,4))
qed

lemma ring_shape_bounds:
  "ring_shape n r len \<Longrightarrow> 2 \<le> n \<and> unat (ring_head r) < n \<and> len < n \<and> ring_usable r = n - 1"
proof -
  assume s: "ring_shape n r len"
  then obtain k where "1 \<le> k" "n = 2 ^ k" by (auto simp: ring_shape_def)
  then have "(2::nat) ^ 1 \<le> n" by (simp only: power_increasing one_le_numeral)
  with s show ?thesis by (auto simp: ring_shape_def ring_usable_def)
qed

lemma ring_empty_iff: "ring_shape n r len \<Longrightarrow> ring_head r = ring_tail r \<longleftrightarrow> len = 0"
proof -
  assume s: "ring_shape n r len"
  have "ring_head r = ring_tail r \<longleftrightarrow> unat (ring_head r) = unat (ring_tail r)" by (metis unat_eq_of_nat)
  also have "\<dots> \<longleftrightarrow> len = 0"
    using s wrap_inj [of "unat (ring_head r)" n 0 len] by (auto simp: ring_shape_def)
  finally show ?thesis .
qed

lemma ring_full_iff:
  "ring_shape n r len \<Longrightarrow> ring_next r (ring_tail r) = ring_head r \<longleftrightarrow> Suc len = n"
proof -
  assume s: "ring_shape n r len"
  note b = ring_shape_bounds [OF s]
  have t: "unat (ring_tail r) < n" "unat (ring_tail r) = (unat (ring_head r) + len) mod n"
    using s b by (auto simp: ring_shape_def)
  have "ring_next r (ring_tail r) = ring_head r \<longleftrightarrow> unat (ring_next r (ring_tail r)) = unat (ring_head r)"
    by (metis unat_eq_of_nat)
  also have "\<dots> \<longleftrightarrow> (unat (ring_head r) + Suc len) mod n = unat (ring_head r)"
    using ring_next_unat [OF s t(1)] t(2) by (simp add: mod_Suc_eq)
  also have "\<dots> \<longleftrightarrow> Suc len = n"
    using b wrap_add [of "unat (ring_head r)" n "Suc len"] by (auto split: if_splits)
  finally show ?thesis .
qed

text \<open>The indices after the tail, respectively the head, has advanced.\<close>

lemma ring_shape_push:
  assumes s: "ring_shape n r len" and "Suc len < n"
  shows "ring_shape n (r\<lparr>ring_slots := f, ring_tail := ring_next r (ring_tail r)\<rparr>) (Suc len)"
proof -
  have t: "unat (ring_tail r) < n" "unat (ring_tail r) = (unat (ring_head r) + len) mod n"
    using s ring_shape_bounds [OF s] by (auto simp: ring_shape_def)
  have "unat (ring_next r (ring_tail r)) = (unat (ring_head r) + Suc len) mod n"
    using ring_next_unat [OF s t(1)] t(2) by (simp add: mod_Suc_eq)
  with s assms(2) show ?thesis by (simp add: ring_shape_def)
qed

lemma ring_shape_pop:
  assumes s: "ring_shape n r (Suc len)"
  shows "ring_shape n (r\<lparr>ring_slots := f, ring_head := ring_next r (ring_head r)\<rparr>) len"
proof -
  note b = ring_shape_bounds [OF s]
  have "unat (ring_next r (ring_head r)) = Suc (unat (ring_head r)) mod n" using ring_next_unat [OF s] b by simp
  with s b show ?thesis by (auto simp: ring_shape_def wrap_Suc)
qed

section \<open>The operations as list operations\<close>

lemma ring_new_holds:
  assumes "unat c \<le> 2 ^ 63"
  shows "\<exists>r. ring_new c = Some r \<and> ring_holds r [] \<and> (\<exists>k. unat (ring_capacity r) = 2 ^ k) \<and>
    unat c \<le> unat (ring_capacity r)"
proof -
  from nextPow2_correct [OF assms] obtain m k where
    m: "nextPow2 c = Some m" "unat m = 2 ^ k" "1 \<le> k" "k \<le> 63" "unat c \<le> 2 ^ k" by blast
  let ?r = "\<lparr>ring_capacity = m, ring_mask = m - 1, ring_slots = Map.empty, ring_head = 0, ring_tail = 0\<rparr>"
  have "ring_shape (2 ^ k) ?r 0" using m by (auto simp: ring_shape_def)
  then have "ring_holds ?r []" by (auto simp: ring_holds_def)
  with m show ?thesis by (intro exI [of _ ?r]) (auto simp: ring_new_def)
qed

lemma ring_push_ok:
  assumes "ring_holds r q" and "length q < ring_usable r"
  shows "\<exists>r'. ring_push x r = (True, r') \<and> ring_holds r' (q @ [x]) \<and> ring_usable r' = ring_usable r"
proof -
  from assms(1) obtain n where s: "ring_shape n r (length q)" and sl: "ring_slots r = layout n (unat (ring_head r)) q"
    by (auto simp: ring_holds_def)
  note b = ring_shape_bounds [OF s]
  let ?r = "r\<lparr>ring_slots := (ring_slots r)(unat (ring_tail r) \<mapsto> x), ring_tail := ring_next r (ring_tail r)\<rparr>"
  have "ring_push x r = (True, ?r)"
    using ring_full_iff [OF s] b assms(2) by (auto simp: ring_push_def Let_def)
  moreover have "ring_shape n ?r (length (q @ [x]))"
    using ring_shape_push [OF s] b assms(2) by simp
  moreover have "ring_slots ?r = layout n (unat (ring_head ?r)) (q @ [x])"
    using layout_snoc [of "unat (ring_head r)" n q x] b s sl by (simp add: ring_shape_def)
  ultimately show ?thesis by (intro exI [of _ ?r]) (auto simp: ring_holds_def ring_usable_def)
qed

lemma ring_push_full:
  assumes "ring_holds r q" and "\<not> length q < ring_usable r"
  shows "ring_push x r = (False, r)"
proof -
  from assms(1) obtain n where s: "ring_shape n r (length q)" by (auto simp: ring_holds_def)
  from ring_full_iff [OF s] ring_shape_bounds [OF s] assms(2) show ?thesis
    by (auto simp: ring_push_def Let_def)
qed

lemma ring_pop_empty: "ring_holds r [] \<Longrightarrow> ring_pop r = Some (None, r)"
  using ring_empty_iff by (fastforce simp: ring_holds_def ring_pop_def Let_def)

lemma ring_pop_ok:
  assumes "ring_holds r (x # q)"
  shows "\<exists>r'. ring_pop r = Some (Some x, r') \<and> ring_holds r' q \<and> ring_usable r' = ring_usable r"
proof -
  from assms obtain n where s: "ring_shape n r (Suc (length q))"
    and sl: "ring_slots r = layout n (unat (ring_head r)) (x # q)"
    by (auto simp: ring_holds_def)
  note b = ring_shape_bounds [OF s]
  let ?r = "r\<lparr>ring_slots := (ring_slots r)(unat (ring_head r) := None), ring_head := ring_next r (ring_head r)\<rparr>"
  have "ring_pop r = Some (Some x, ?r)"
    using ring_empty_iff [OF s] by (simp add: ring_pop_def sl Let_def)
  moreover have "ring_shape n ?r (length q)" by (rule ring_shape_pop [OF s])
  moreover have "ring_slots ?r = layout n (unat (ring_head ?r)) q"
    using layout_take [of "unat (ring_head r)" n q x] b ring_next_unat [OF s] by (simp add: sl)
  ultimately show ?thesis by (intro exI [of _ ?r]) (auto simp: ring_holds_def ring_usable_def)
qed

section \<open>Occupancy\<close>

lemma ring_approxSize_unat:
  assumes "ring_holds r q" shows "unat (ring_approxSize r) = length q"
proof -
  from assms obtain n where s: "ring_shape n r (length q)" by (auto simp: ring_holds_def)
  then obtain k where k: "k \<le> 63" "n = 2 ^ k" "unat (ring_capacity r) = 2 ^ k" "ring_mask r = ring_capacity r - 1"
    by (auto simp: ring_shape_def)
  note b = ring_shape_bounds [OF s]
  have n63: "n \<le> 2 ^ 63" unfolding k(2) using k(1) by (intro power_increasing) auto
  have t: "unat (ring_tail r) < n" "unat (ring_tail r) = (unat (ring_head r) + length q) mod n"
    using s b by (auto simp: ring_shape_def)
  have e: "ring_tail r - ring_head r + ring_capacity r = ring_tail r + ring_capacity r - ring_head r" by simp
  have sum: "unat (ring_tail r + ring_capacity r) = unat (ring_tail r) + n"
    using unat_plus_less [of "ring_tail r" "ring_capacity r"] t(1) n63 k(2,3) by simp
  have "ring_head r \<le> ring_tail r + ring_capacity r" using sum b by (simp add: word_le_nat_alt)
  then have "unat (ring_tail r - ring_head r + ring_capacity r) = unat (ring_tail r) + n - unat (ring_head r)"
    unfolding e using sum by (simp add: unat_sub)
  then have "unat (ring_approxSize r) = (unat (ring_tail r) + n - unat (ring_head r)) mod n"
    using and_pow2_mask [OF k(3,1)] by (simp add: ring_approxSize_def k(2,4))
  also have "\<dots> = length q" unfolding t(2) using b wrap_add [of "unat (ring_head r)" n "length q"] by auto
  finally show ?thesis .
qed

end
