(* ===== verification/Fifo_Channel.thy ===== *)
theory Fifo_Channel
  imports Spsc_Ring
begin

text \<open>
  The contract of a bounded FIFO channel, the bounded list it stands for, what a client may
  conclude about any mix of pushes and pops, and the ring buffer as a provider of the contract.
\<close>

datatype 'a channel_op = Push 'a | Pop
datatype 'a channel_result = Pushed bool | Popped "'a option"

section \<open>Runs of operations\<close>

text \<open>On an implementation (\<open>None\<close>: an operation has undefined behaviour), and on a list of at most
  \<open>n\<close> items, the specification.\<close>

fun channel_run ::
  "('a \<Rightarrow> 's \<Rightarrow> bool \<times> 's) \<Rightarrow> ('s \<Rightarrow> ('a option \<times> 's) option) \<Rightarrow> 'a channel_op list \<Rightarrow> 's \<Rightarrow>
     ('a channel_result list \<times> 's) option" where
  "channel_run ps pp [] s = Some ([], s)"
| "channel_run ps pp (Push x # ops) s =
     (let (ok, s1) = ps x s in map_option (apfst ((#) (Pushed ok))) (channel_run ps pp ops s1))"
| "channel_run ps pp (Pop # ops) s =
     (case pp s of
        None \<Rightarrow> None
      | Some (item, s1) \<Rightarrow> map_option (apfst ((#) (Popped item))) (channel_run ps pp ops s1))"

fun queue_run :: "nat \<Rightarrow> 'a channel_op list \<Rightarrow> 'a list \<Rightarrow> 'a channel_result list \<times> 'a list" where
  "queue_run n [] q = ([], q)"
| "queue_run n (Push x # ops) q =
     (if length q < n then apfst ((#) (Pushed True)) (queue_run n ops (q @ [x]))
      else apfst ((#) (Pushed False)) (queue_run n ops q))"
| "queue_run n (Pop # ops) [] = apfst ((#) (Popped None)) (queue_run n ops [])"
| "queue_run n (Pop # ops) (x # q) = apfst ((#) (Popped (Some x))) (queue_run n ops q)"

text \<open>The items a run accepted and the items it delivered.\<close>

fun accepted :: "'a channel_op list \<Rightarrow> 'a channel_result list \<Rightarrow> 'a list" where
  "accepted (Push x # ops) (Pushed True # rs) = x # accepted ops rs"
| "accepted (_ # ops) (_ # rs) = accepted ops rs"
| "accepted _ _ = []"

fun delivered :: "'a channel_result list \<Rightarrow> 'a list" where
  "delivered (Popped (Some x) # rs) = x # delivered rs"
| "delivered (_ # rs) = delivered rs"
| "delivered [] = []"

lemma queue_run_fifo:
  "queue_run n ops q = (rs, q') \<Longrightarrow> length q \<le> n \<Longrightarrow>
     q @ accepted ops rs = delivered rs @ q' \<and> length q' \<le> n \<and> length rs = length ops"
proof (induction n ops q arbitrary: rs rule: queue_run.induct)
  case (2 n x ops q)
  then show ?case
    by (cases "length q < n"; cases "queue_run n ops (q @ [x])"; cases "queue_run n ops q") auto
next
  case (3 n ops)
  then show ?case by (cases "queue_run n ops []") auto
next
  case (4 n ops x q)
  then show ?case by (cases "queue_run n ops q") auto
qed simp

section \<open>The contract\<close>

locale fifo_channel =
  fixes push :: "'a \<Rightarrow> 's \<Rightarrow> bool \<times> 's"
    and pop :: "'s \<Rightarrow> ('a option \<times> 's) option"
    and holds :: "'s \<Rightarrow> 'a list \<Rightarrow> bool"
    and room :: "'s \<Rightarrow> nat"
  assumes push_accepts: "holds s q \<Longrightarrow> length q < room s \<Longrightarrow>
      \<exists>s'. push x s = (True, s') \<and> holds s' (q @ [x]) \<and> room s' = room s"
    and push_refuses: "holds s q \<Longrightarrow> \<not> length q < room s \<Longrightarrow> push x s = (False, s)"
    and pop_nothing: "holds s [] \<Longrightarrow> pop s = Some (None, s)"
    and pop_oldest: "holds s (x # q) \<Longrightarrow>
      \<exists>s'. pop s = Some (Some x, s') \<and> holds s' q \<and> room s' = room s"

context fifo_channel begin

text \<open>A run answers exactly what the bounded list answers, and no pop reads an empty slot.\<close>

lemma run_refines:
  "holds s q \<Longrightarrow> \<exists>rs s' q'. channel_run push pop ops s = Some (rs, s') \<and>
     queue_run (room s) ops q = (rs, q') \<and> holds s' q' \<and> room s' = room s"
proof (induction ops arbitrary: s q)
  case (Cons c ops)
  show ?case
  proof (cases c)
    case (Push x)
    show ?thesis
    proof (cases "length q < room s")
      case True
      from push_accepts [OF Cons.prems True, of x] obtain s1 where
        p: "push x s = (True, s1)" "holds s1 (q @ [x])" "room s1 = room s" by blast
      from Cons.IH [OF p(2)] p True Push show ?thesis by fastforce
    next
      case False
      from push_refuses [OF Cons.prems False, of x] Cons.IH [OF Cons.prems] Push False
      show ?thesis by fastforce
    qed
  next
    case Pop
    show ?thesis
    proof (cases q)
      case Nil
      with pop_nothing [of s] Cons.prems Cons.IH [OF Cons.prems] Pop show ?thesis by fastforce
    next
      case (Cons x q1)
      with pop_oldest [of s x q1] \<open>holds s q\<close> obtain s1 where
        p: "pop s = Some (Some x, s1)" "holds s1 q1" "room s1 = room s" by blast
      from Cons.IH [OF p(2)] p Pop Cons show ?thesis by fastforce
    qed
  qed
qed simp

end

interpretation ring: fifo_channel ring_push ring_pop ring_holds ring_usable
  by unfold_locales (rule ring_push_ok ring_push_full ring_pop_empty ring_pop_ok; assumption)+

end
