(* ===== verification/Spsc_Steps.thy ===== *)
theory Spsc_Steps
  imports Spsc_Ring
begin

text \<open>
  The ring buffer under its two threads.  \<^verbatim>\<open>push\<close> and \<^verbatim>\<open>pop\<close> are split at their shared accesses:
  the producer loads its tail, loads the head, writes the slot and stores the tail; the
  consumer loads its head, loads the tail, takes the item out of the slot and stores the
  head.  Steps of the two interleave freely; here every load returns the last value stored, what the
  memory orders of the code allow beyond that is added in \<open>Spsc_Weak\<close>.  Two ghost fields
  record the items accepted and delivered.
\<close>

section \<open>Program counters and steps\<close>

datatype 'a producer =
    P_idle
  | P_tail 'a u64
  | P_free 'a u64
  | P_written 'a u64

datatype 'a consumer =
    C_idle
  | C_head u64
  | C_avail u64
  | C_taken 'a u64

record 'a spsc =
  sp_ring :: "'a ring"
  sp_producer :: "'a producer"
  sp_consumer :: "'a consumer"
  sp_sent :: "'a list"
  sp_received :: "'a list"

inductive producer_step :: "'a spsc \<Rightarrow> 'a spsc \<Rightarrow> bool" where
  push_load_tail:
    "sp_producer s = P_idle \<Longrightarrow>
     producer_step s (s\<lparr>sp_producer := P_tail x (ring_tail (sp_ring s))\<rparr>)"
| push_load_head_full:
    "sp_producer s = P_tail x tail \<Longrightarrow> ring_next (sp_ring s) tail = ring_head (sp_ring s) \<Longrightarrow>
     producer_step s (s\<lparr>sp_producer := P_idle\<rparr>)"
| push_load_head:
    "sp_producer s = P_tail x tail \<Longrightarrow> ring_next (sp_ring s) tail \<noteq> ring_head (sp_ring s) \<Longrightarrow>
     producer_step s (s\<lparr>sp_producer := P_free x tail\<rparr>)"
| push_write_slot:
    "sp_producer s = P_free x tail \<Longrightarrow>
     producer_step s (s\<lparr>sp_ring := (sp_ring s)\<lparr>ring_slots := (ring_slots (sp_ring s))(unat tail \<mapsto> x)\<rparr>,
                        sp_producer := P_written x tail\<rparr>)"
| push_store_tail:
    "sp_producer s = P_written x tail \<Longrightarrow>
     producer_step s (s\<lparr>sp_ring := (sp_ring s)\<lparr>ring_tail := ring_next (sp_ring s) tail\<rparr>,
                        sp_producer := P_idle, sp_sent := sp_sent s @ [x]\<rparr>)"

inductive consumer_step :: "'a spsc \<Rightarrow> 'a spsc \<Rightarrow> bool" where
  pop_load_head:
    "sp_consumer s = C_idle \<Longrightarrow>
     consumer_step s (s\<lparr>sp_consumer := C_head (ring_head (sp_ring s))\<rparr>)"
| pop_load_tail_empty:
    "sp_consumer s = C_head head \<Longrightarrow> head = ring_tail (sp_ring s) \<Longrightarrow>
     consumer_step s (s\<lparr>sp_consumer := C_idle\<rparr>)"
| pop_load_tail:
    "sp_consumer s = C_head head \<Longrightarrow> head \<noteq> ring_tail (sp_ring s) \<Longrightarrow>
     consumer_step s (s\<lparr>sp_consumer := C_avail head\<rparr>)"
| pop_take_slot:
    "sp_consumer s = C_avail head \<Longrightarrow> ring_slots (sp_ring s) (unat head) = Some item \<Longrightarrow>
     consumer_step s (s\<lparr>sp_ring := (sp_ring s)\<lparr>ring_slots := (ring_slots (sp_ring s))(unat head := None)\<rparr>,
                        sp_consumer := C_taken item head\<rparr>)"
| pop_store_head:
    "sp_consumer s = C_taken item head \<Longrightarrow>
     consumer_step s (s\<lparr>sp_ring := (sp_ring s)\<lparr>ring_head := ring_next (sp_ring s) head\<rparr>,
                        sp_consumer := C_idle, sp_received := sp_received s @ [item]\<rparr>)"

definition spsc_step :: "'a spsc \<Rightarrow> 'a spsc \<Rightarrow> bool" where
  "spsc_step s s' \<longleftrightarrow> producer_step s s' \<or> consumer_step s s'"

definition spsc_start :: "'a ring \<Rightarrow> 'a spsc" where
  "spsc_start r = \<lparr>sp_ring = r, sp_producer = P_idle, sp_consumer = C_idle, sp_sent = [], sp_received = []\<rparr>"

inductive spsc_reachable :: "u64 \<Rightarrow> 'a spsc \<Rightarrow> bool" for c where
  spsc_init: "ring_new c = Some r \<Longrightarrow> spsc_reachable c (spsc_start r)"
| spsc_next: "spsc_reachable c s \<Longrightarrow> spsc_step s s' \<Longrightarrow> spsc_reachable c s'"

inductive_cases producer_stepE: "producer_step s s'"
inductive_cases consumer_stepE: "consumer_step s s'"

section \<open>The invariant\<close>

text \<open>
  Around the list \<open>q\<close> of published, not yet consumed items: what each program counter has
  learnt, and the slots as the layout of \<open>q\<close>, but for the item being written and the one
  being taken.
\<close>

fun producer_knows :: "nat \<Rightarrow> 'a ring \<Rightarrow> 'a list \<Rightarrow> 'a producer \<Rightarrow> bool" where
  "producer_knows n r q P_idle \<longleftrightarrow> True"
| "producer_knows n r q (P_tail x t) \<longleftrightarrow> t = ring_tail r"
| "producer_knows n r q (P_free x t) \<longleftrightarrow> t = ring_tail r \<and> Suc (length q) < n"
| "producer_knows n r q (P_written x t) \<longleftrightarrow> t = ring_tail r \<and> Suc (length q) < n"

fun consumer_knows :: "'a ring \<Rightarrow> 'a list \<Rightarrow> 'a consumer \<Rightarrow> bool" where
  "consumer_knows r q C_idle \<longleftrightarrow> True"
| "consumer_knows r q (C_head h) \<longleftrightarrow> h = ring_head r"
| "consumer_knows r q (C_avail h) \<longleftrightarrow> h = ring_head r \<and> q \<noteq> []"
| "consumer_knows r q (C_taken x h) \<longleftrightarrow> h = ring_head r \<and> q \<noteq> [] \<and> hd q = x"

fun being_taken :: "'a consumer \<Rightarrow> (nat \<Rightarrow> 'a option) \<Rightarrow> nat \<Rightarrow> 'a option" where
  "being_taken (C_taken x h) f = f(unat h := None)"
| "being_taken _ f = f"

fun being_written :: "'a producer \<Rightarrow> (nat \<Rightarrow> 'a option) \<Rightarrow> nat \<Rightarrow> 'a option" where
  "being_written (P_written x t) f = f(unat t \<mapsto> x)"
| "being_written _ f = f"

definition spsc_around :: "nat \<Rightarrow> 'a list \<Rightarrow> 'a spsc \<Rightarrow> bool" where
  "spsc_around n q s \<longleftrightarrow>
     ring_shape n (sp_ring s) (length q) \<and>
     producer_knows n (sp_ring s) q (sp_producer s) \<and> consumer_knows (sp_ring s) q (sp_consumer s) \<and>
     ring_slots (sp_ring s) = being_written (sp_producer s)
       (being_taken (sp_consumer s) (layout n (unat (ring_head (sp_ring s))) q)) \<and>
     sp_sent s = sp_received s @ q"

definition spsc_inv :: "'a spsc \<Rightarrow> bool" where
  "spsc_inv s \<longleftrightarrow> (\<exists>n q. spsc_around n q s)"

text \<open>The slot the producer may write and the slot the consumer may read differ.\<close>

lemma tail_not_head:
  assumes "ring_shape n r (length q)" and "q \<noteq> []"
  shows "unat (ring_tail r) \<noteq> unat (ring_head r)"
  using ring_empty_iff [OF assms(1)] assms(2) by (metis length_0_conv unat_eq_of_nat)

lemma ring_shape_slots: "ring_shape n (r\<lparr>ring_slots := f\<rparr>) len = ring_shape n r len"
  by (simp add: ring_shape_def)

lemma ring_next_slots:
  "ring_next (r\<lparr>ring_slots := f\<rparr>) i = ring_next r i" "ring_next (r\<lparr>ring_tail := t\<rparr>) i = ring_next r i"
  "ring_next (r\<lparr>ring_head := t\<rparr>) i = ring_next r i"
  by (simp_all add: ring_next_def)

lemma producer_step_inv:
  assumes "producer_step s s'" and "spsc_around n q s"
  shows "\<exists>q'. spsc_around n q' s'"
  using assms(1)
proof cases
  case (push_load_tail x)
  with assms(2) show ?thesis by (intro exI [of _ q]) (auto simp: spsc_around_def)
next
  case (push_load_head_full x tail)
  with assms(2) show ?thesis by (intro exI [of _ q]) (auto simp: spsc_around_def)
next
  case (push_load_head x tail)
  from assms(2) have s: "ring_shape n (sp_ring s) (length q)" by (simp add: spsc_around_def)
  from ring_full_iff [OF s] ring_shape_bounds [OF s] assms(2) push_load_head
  have "Suc (length q) < n" by (auto simp: spsc_around_def)
  with push_load_head assms(2) show ?thesis by (intro exI [of _ q]) (auto simp: spsc_around_def)
next
  case (push_write_slot x tail)
  with assms(2) show ?thesis
    by (intro exI [of _ q], cases "sp_consumer s") (auto simp: spsc_around_def ring_shape_slots)
next
  case (push_store_tail x tail)
  let ?r = "sp_ring s" and ?h = "unat (ring_head (sp_ring s))"
  from assms(2) push_store_tail have s: "ring_shape n ?r (length q)" and lt: "Suc (length q) < n"
    and t: "tail = ring_tail ?r" and sl: "ring_slots ?r = (being_taken (sp_consumer s) (layout n ?h q))(unat tail \<mapsto> x)"
    and ck: "consumer_knows ?r q (sp_consumer s)" and sent: "sp_sent s = sp_received s @ q"
    by (simp_all add: spsc_around_def)
  have tl: "unat tail = (?h + length q) mod n" using s t by (simp add: ring_shape_def)
  have snoc: "layout n ?h (q @ [x]) = (layout n ?h q)(unat tail \<mapsto> x)"
    unfolding tl using ring_shape_bounds [OF s] by (intro layout_snoc) auto
  have "ring_slots ?r = being_taken (sp_consumer s) (layout n ?h (q @ [x]))"
  proof (cases "sp_consumer s")
    case (C_taken y h)
    with ck have h: "h = ring_head ?r" "q \<noteq> []" by simp_all
    from tail_not_head [OF s h(2)] C_taken show ?thesis
      by (simp add: sl snoc h(1) t fun_upd_twist [of "unat (ring_tail ?r)"])
  qed (simp_all add: sl snoc)
  moreover have "consumer_knows (?r\<lparr>ring_tail := ring_next ?r tail\<rparr>) (q @ [x]) (sp_consumer s)"
    using ck by (cases "sp_consumer s") auto
  moreover have "ring_shape n (?r\<lparr>ring_tail := ring_next ?r tail\<rparr>) (length (q @ [x]))"
    using ring_shape_push [OF s lt, of "ring_slots ?r"] t by simp
  ultimately have "spsc_around n (q @ [x]) s'"
    using push_store_tail sent by (simp add: spsc_around_def)
  then show ?thesis by blast
qed

lemma consumer_step_inv:
  assumes "consumer_step s s'" and "spsc_around n q s"
  shows "\<exists>q'. spsc_around n q' s'"
  using assms(1)
proof cases
  case pop_load_head
  with assms(2) show ?thesis by (intro exI [of _ q]) (auto simp: spsc_around_def)
next
  case (pop_load_tail_empty head)
  with assms(2) show ?thesis by (intro exI [of _ q]) (auto simp: spsc_around_def)
next
  case (pop_load_tail head)
  from assms(2) have s: "ring_shape n (sp_ring s) (length q)" by (simp add: spsc_around_def)
  from ring_empty_iff [OF s] pop_load_tail assms(2) have "q \<noteq> []" by (auto simp: spsc_around_def)
  with pop_load_tail assms(2) show ?thesis by (intro exI [of _ q]) (auto simp: spsc_around_def)
next
  case (pop_take_slot head item)
  let ?r = "sp_ring s"
  from assms(2) pop_take_slot have s: "ring_shape n ?r (length q)" and q: "q \<noteq> []" and h: "head = ring_head ?r"
    and sl: "ring_slots ?r = being_written (sp_producer s) (layout n (unat (ring_head ?r)) q)"
    and pk: "producer_knows n ?r q (sp_producer s)"
    by (simp_all add: spsc_around_def)
  note ne = tail_not_head [OF s q]
  obtain y q1 where q1: "q = y # q1" using q by (cases q) auto
  have "ring_slots ?r (unat head) = Some y"
    using ne pk by (cases "sp_producer s") (simp_all add: sl h q1)
  with pop_take_slot have "item = y" by simp
  moreover have "(ring_slots ?r)(unat head := None)
      = being_written (sp_producer s) ((layout n (unat (ring_head ?r)) q)(unat head := None))"
    using ne pk by (cases "sp_producer s") (simp_all add: sl h fun_upd_twist [of "unat (ring_tail ?r)"])
  moreover have "producer_knows n (?r\<lparr>ring_slots := f\<rparr>) q (sp_producer s)" for f
    using pk by (cases "sp_producer s") auto
  ultimately have "spsc_around n q s'"
    using pop_take_slot assms(2) s h q q1 by (simp add: spsc_around_def ring_shape_slots)
  then show ?thesis by blast
next
  case (pop_store_head item head)
  let ?r = "sp_ring s"
  from assms(2) pop_store_head have s: "ring_shape n ?r (length q)" and h: "head = ring_head ?r"
    and sl: "ring_slots ?r = being_written (sp_producer s) ((layout n (unat (ring_head ?r)) q)(unat head := None))"
    and pk: "producer_knows n ?r q (sp_producer s)" and q: "q \<noteq> []" "hd q = item"
    and sent: "sp_sent s = sp_received s @ q"
    by (simp_all add: spsc_around_def)
  obtain q1 where q1: "q = item # q1" using q by (cases q) auto
  then have s1: "ring_shape n ?r (Suc (length q1))" using s by simp
  note b = ring_shape_bounds [OF s1]
  have nh: "unat (ring_next ?r head) = Suc (unat (ring_head ?r)) mod n" using ring_next_unat [OF s1, of head] b h by simp
  have "(layout n (unat (ring_head ?r)) q)(unat head := None) = layout n (unat (ring_next ?r head)) q1"
    using layout_take [of "unat (ring_head ?r)" n q1 item] b nh by (simp add: q1 h)
  moreover have "ring_shape n (?r\<lparr>ring_head := ring_next ?r head\<rparr>) (length q1)"
    using ring_shape_pop [OF s1, of "ring_slots ?r"] h by simp
  moreover have "producer_knows n (?r\<lparr>ring_head := f\<rparr>) q1 (sp_producer s)" for f
    using pk q1 by (cases "sp_producer s") auto
  ultimately have "spsc_around n q1 s'"
    using pop_store_head sl sent q1 by (simp add: spsc_around_def)
  then show ?thesis by blast
qed

lemma spsc_reachable_inv:
  assumes "spsc_reachable c s" and "unat c \<le> 2 ^ 63"
  shows "spsc_inv s"
  using assms
proof (induction rule: spsc_reachable.induct)
  case (spsc_init r)
  from ring_new_holds [of c, where ?'a = 'a] spsc_init have "ring_holds r []" by auto
  then obtain n where "ring_shape n r 0" "ring_slots r = Map.empty" by (auto simp: ring_holds_def)
  then have "spsc_around n [] (spsc_start r)" by (simp add: spsc_around_def spsc_start_def)
  then show ?case by (auto simp: spsc_inv_def)
next
  case (spsc_next s s')
  then obtain n q where "spsc_around n q s" by (auto simp: spsc_inv_def)
  with spsc_next.hyps(2) producer_step_inv [of s s' n q] consumer_step_inv [of s s' n q] show ?case
    by (auto simp: spsc_inv_def spsc_step_def)
qed

section \<open>Progress of each thread\<close>

fun producer_left :: "'a producer \<Rightarrow> nat" where
  "producer_left P_idle = 0"
| "producer_left (P_written x t) = 1"
| "producer_left (P_free x t) = 2"
| "producer_left (P_tail x t) = 3"

fun consumer_left :: "'a consumer \<Rightarrow> nat" where
  "consumer_left C_idle = 0"
| "consumer_left (C_taken x h) = 1"
| "consumer_left (C_avail h) = 2"
| "consumer_left (C_head h) = 3"

lemma producer_enabled: "\<exists>s'. producer_step s s'"
proof (cases "sp_producer s")
  case (P_tail x t)
  then show ?thesis
    by (cases "ring_next (sp_ring s) t = ring_head (sp_ring s)")
      (rule exI, erule (1) push_load_head_full push_load_head)+
qed (rule exI, erule push_load_tail push_write_slot push_store_tail)+

text \<open>The slot a consumer is about to read holds the oldest published item.\<close>

lemma avail_item:
  assumes "spsc_around n q s" and "sp_consumer s = C_avail h"
  shows "q \<noteq> []" and "ring_slots (sp_ring s) (unat h) = Some (hd q)"
proof -
  from assms have s: "ring_shape n (sp_ring s) (length q)" and q: "q \<noteq> []" and h: "h = ring_head (sp_ring s)"
    and sl: "ring_slots (sp_ring s) = being_written (sp_producer s) (layout n (unat (ring_head (sp_ring s))) q)"
    and pk: "producer_knows n (sp_ring s) q (sp_producer s)"
    by (simp_all add: spsc_around_def)
  show "q \<noteq> []" by (rule q)
  obtain y q1 where "q = y # q1" using q by (cases q) auto
  then show "ring_slots (sp_ring s) (unat h) = Some (hd q)"
    using tail_not_head [OF s q] pk by (cases "sp_producer s") (simp_all add: sl h)
qed

text \<open>The slot a producer is about to write is empty.\<close>

lemma free_slot_empty:
  assumes "spsc_around n q s" and "sp_producer s = P_free x t"
  shows "ring_slots (sp_ring s) (unat t) = None"
proof -
  from assms have s: "ring_shape n (sp_ring s) (length q)" and lt: "Suc (length q) < n" and t: "t = ring_tail (sp_ring s)"
    and sl: "ring_slots (sp_ring s) = being_taken (sp_consumer s) (layout n (unat (ring_head (sp_ring s))) q)"
    by (simp_all add: spsc_around_def)
  note b = ring_shape_bounds [OF s]
  have tl: "unat t = (unat (ring_head (sp_ring s)) + length q) mod n" using s t by (simp add: ring_shape_def)
  have "layout n (unat (ring_head (sp_ring s))) q (unat t) = None"
  proof (rule ccontr)
    assume occ: "layout n (unat (ring_head (sp_ring s))) q (unat t) \<noteq> None"
    from b have "unat (ring_head (sp_ring s)) < n" by simp
    from iffD1 [OF layout_occupied [OF this] occ] obtain i
      where i: "i < length q" "unat t = (unat (ring_head (sp_ring s)) + i) mod n" by auto
    with wrap_inj [of "unat (ring_head (sp_ring s))" n "length q" i] b tl show False by simp
  qed
  then show ?thesis by (cases "sp_consumer s") (simp_all add: sl)
qed

lemma consumer_enabled:
  assumes "spsc_inv s" shows "\<exists>s'. consumer_step s s'"
proof (cases "sp_consumer s")
  case (C_head h)
  then show ?thesis
    by (cases "h = ring_tail (sp_ring s)") (rule exI, erule (1) pop_load_tail_empty pop_load_tail)+
next
  case (C_avail h)
  from assms obtain n q where "spsc_around n q s" by (auto simp: spsc_inv_def)
  from pop_take_slot [OF C_avail avail_item(2) [OF this C_avail]] show ?thesis by blast
qed (rule exI, erule pop_load_head pop_store_head)+

text \<open>
  A run labels each step with the thread that made it and lists the states after the steps.  If the
  steps of each thread take it closer to the end of its call and leave the other one where it is,
  a call ends within as many own steps as are left, whatever the other thread does.
\<close>

datatype thread = Producer | Consumer

inductive thread_run :: "('s \<Rightarrow> 's \<Rightarrow> bool) \<Rightarrow> ('s \<Rightarrow> 's \<Rightarrow> bool) \<Rightarrow> thread list \<Rightarrow> 's \<Rightarrow> 's list \<Rightarrow> bool"
  for p_step c_step where
  run_done: "thread_run p_step c_step [] s []"
| run_producer: "p_step s s' \<Longrightarrow> thread_run p_step c_step ls s' vs \<Longrightarrow> thread_run p_step c_step (Producer # ls) s (s' # vs)"
| run_consumer: "c_step s s' \<Longrightarrow> thread_run p_step c_step ls s' vs \<Longrightarrow> thread_run p_step c_step (Consumer # ls) s (s' # vs)"

locale thread_pair =
  fixes p_step c_step :: "'s \<Rightarrow> 's \<Rightarrow> bool" and p_left c_left :: "'s \<Rightarrow> nat"
  assumes p_closer: "p_step s s' \<Longrightarrow> 0 < p_left s \<Longrightarrow> p_left s' < p_left s"
    and p_alone: "p_step s s' \<Longrightarrow> c_left s' = c_left s"
    and c_closer: "c_step s s' \<Longrightarrow> 0 < c_left s \<Longrightarrow> c_left s' < c_left s"
    and c_alone: "c_step s s' \<Longrightarrow> p_left s' = p_left s"
begin

lemma producer_ends:
  "thread_run p_step c_step ls s vs \<Longrightarrow> 0 < p_left s \<Longrightarrow> p_left s \<le> count_list ls Producer \<Longrightarrow> \<exists>v\<in>set vs. p_left v = 0"
proof (induction rule: thread_run.induct)
  case (run_done s)
  then show ?case by simp
next
  case (run_producer s s' ls vs)
  then show ?case using p_closer [OF run_producer.hyps(1)] by (cases "p_left s' = 0") force+
next
  case (run_consumer s s' ls vs)
  then show ?case using c_alone [OF run_consumer.hyps(1)] by simp
qed

lemma consumer_ends:
  "thread_run p_step c_step ls s vs \<Longrightarrow> 0 < c_left s \<Longrightarrow> c_left s \<le> count_list ls Consumer \<Longrightarrow> \<exists>v\<in>set vs. c_left v = 0"
proof (induction rule: thread_run.induct)
  case (run_done s)
  then show ?case by simp
next
  case (run_consumer s s' ls vs)
  then show ?case using c_closer [OF run_consumer.hyps(1)] by (cases "c_left s' = 0") force+
next
  case (run_producer s s' ls vs)
  then show ?case using p_alone [OF run_producer.hyps(1)] by simp
qed

end

interpretation strong: thread_pair producer_step consumer_step "\<lambda>s. producer_left (sp_producer s)" "\<lambda>s. consumer_left (sp_consumer s)"
  by unfold_locales (auto elim!: producer_stepE consumer_stepE)

lemma left_zero: "producer_left p = 0 \<longleftrightarrow> p = P_idle" "consumer_left c = 0 \<longleftrightarrow> c = C_idle"
  by (cases p; simp) (cases c; simp)

lemma thread_left_le: "producer_left p \<le> 3" "consumer_left c \<le> 3"
  by (cases p; simp) (cases c; simp)

end
