(* ===== verification/Spsc_Weak.thy ===== *)
theory Spsc_Weak
  imports Spsc_Steps
begin

text \<open>
  The ring buffer under the memory orders it asks for.  \<^verbatim>\<open>head_\<close> and \<^verbatim>\<open>tail_\<close> are atomics with one writer
  each: their modification orders are the lists of the values stored.  A load with \<^verbatim>\<open>acquire\<close> may
  return an old value, but none before the last one the thread has seen; it makes visible what the writer did
  before the \<^verbatim>\<open>release\<close> store of that value.  A thread loads its own index with \<^verbatim>\<open>relaxed\<close> and finds the
  last value.  The slots are ordinary memory: for each slot we keep the number of the store that
  publishes the last access of either thread, and two accesses are ordered (do not race) if the
  later thread has acquired that store or a later one.
\<close>

section \<open>Steps\<close>

record 'a weak =
  wk_spsc :: "'a spsc"
  wk_heads :: "u64 list"
  wk_tails :: "u64 list"
  wk_seen_head :: nat
  wk_seen_tail :: nat
  wk_wrote :: "nat \<Rightarrow> nat"
  wk_took :: "nat \<Rightarrow> nat"

abbreviation wk_ring :: "'a weak \<Rightarrow> 'a ring" where
  "wk_ring s \<equiv> sp_ring (wk_spsc s)"

inductive weak_push :: "'a weak \<Rightarrow> 'a weak \<Rightarrow> bool" where
  weak_load_tail:
    "sp_producer (wk_spsc s) = P_idle \<Longrightarrow>
     weak_push s (s\<lparr>wk_spsc := (wk_spsc s)\<lparr>sp_producer := P_tail x (last (wk_tails s))\<rparr>\<rparr>)"
| weak_load_head_full:
    "sp_producer (wk_spsc s) = P_tail x tail \<Longrightarrow> wk_seen_head s \<le> j \<Longrightarrow> j < length (wk_heads s) \<Longrightarrow>
     ring_next (wk_ring s) tail = wk_heads s ! j \<Longrightarrow>
     weak_push s (s\<lparr>wk_spsc := (wk_spsc s)\<lparr>sp_producer := P_idle\<rparr>, wk_seen_head := j\<rparr>)"
| weak_load_head:
    "sp_producer (wk_spsc s) = P_tail x tail \<Longrightarrow> wk_seen_head s \<le> j \<Longrightarrow> j < length (wk_heads s) \<Longrightarrow>
     ring_next (wk_ring s) tail \<noteq> wk_heads s ! j \<Longrightarrow>
     weak_push s (s\<lparr>wk_spsc := (wk_spsc s)\<lparr>sp_producer := P_free x tail\<rparr>, wk_seen_head := j\<rparr>)"
| weak_write_slot:
    "sp_producer (wk_spsc s) = P_free x tail \<Longrightarrow>
     weak_push s (s\<lparr>wk_spsc := (wk_spsc s)\<lparr>sp_ring := (wk_ring s)\<lparr>ring_slots := (ring_slots (wk_ring s))(unat tail \<mapsto> x)\<rparr>,
                                            sp_producer := P_written x tail\<rparr>,
                    wk_wrote := (wk_wrote s)(unat tail := length (wk_tails s))\<rparr>)"
| weak_store_tail:
    "sp_producer (wk_spsc s) = P_written x tail \<Longrightarrow>
     weak_push s (s\<lparr>wk_spsc := (wk_spsc s)\<lparr>sp_ring := (wk_ring s)\<lparr>ring_tail := ring_next (wk_ring s) tail\<rparr>,
                                            sp_producer := P_idle, sp_sent := sp_sent (wk_spsc s) @ [x]\<rparr>,
                    wk_tails := wk_tails s @ [ring_next (wk_ring s) tail]\<rparr>)"

inductive weak_pop :: "'a weak \<Rightarrow> 'a weak \<Rightarrow> bool" where
  weak_load_own_head:
    "sp_consumer (wk_spsc s) = C_idle \<Longrightarrow>
     weak_pop s (s\<lparr>wk_spsc := (wk_spsc s)\<lparr>sp_consumer := C_head (last (wk_heads s))\<rparr>\<rparr>)"
| weak_load_tail_empty:
    "sp_consumer (wk_spsc s) = C_head head \<Longrightarrow> wk_seen_tail s \<le> j \<Longrightarrow> j < length (wk_tails s) \<Longrightarrow>
     head = wk_tails s ! j \<Longrightarrow>
     weak_pop s (s\<lparr>wk_spsc := (wk_spsc s)\<lparr>sp_consumer := C_idle\<rparr>, wk_seen_tail := j\<rparr>)"
| weak_load_other_tail:
    "sp_consumer (wk_spsc s) = C_head head \<Longrightarrow> wk_seen_tail s \<le> j \<Longrightarrow> j < length (wk_tails s) \<Longrightarrow>
     head \<noteq> wk_tails s ! j \<Longrightarrow>
     weak_pop s (s\<lparr>wk_spsc := (wk_spsc s)\<lparr>sp_consumer := C_avail head\<rparr>, wk_seen_tail := j\<rparr>)"
| weak_take_slot:
    "sp_consumer (wk_spsc s) = C_avail head \<Longrightarrow> ring_slots (wk_ring s) (unat head) = Some item \<Longrightarrow>
     weak_pop s (s\<lparr>wk_spsc := (wk_spsc s)\<lparr>sp_ring := (wk_ring s)\<lparr>ring_slots := (ring_slots (wk_ring s))(unat head := None)\<rparr>,
                                           sp_consumer := C_taken item head\<rparr>,
                   wk_took := (wk_took s)(unat head := length (wk_heads s))\<rparr>)"
| weak_store_head:
    "sp_consumer (wk_spsc s) = C_taken item head \<Longrightarrow>
     weak_pop s (s\<lparr>wk_spsc := (wk_spsc s)\<lparr>sp_ring := (wk_ring s)\<lparr>ring_head := ring_next (wk_ring s) head\<rparr>,
                                           sp_consumer := C_idle, sp_received := sp_received (wk_spsc s) @ [item]\<rparr>,
                   wk_heads := wk_heads s @ [ring_next (wk_ring s) head]\<rparr>)"

definition weak_start :: "'a ring \<Rightarrow> 'a weak" where
  "weak_start r =
     \<lparr>wk_spsc = spsc_start r, wk_heads = [ring_head r], wk_tails = [ring_tail r],
      wk_seen_head = 0, wk_seen_tail = 0, wk_wrote = (\<lambda>_. 0), wk_took = (\<lambda>_. 0)\<rparr>"

inductive weak_reachable :: "u64 \<Rightarrow> 'a weak \<Rightarrow> bool" for c where
  weak_init: "ring_new c = Some r \<Longrightarrow> weak_reachable c (weak_start r)"
| weak_pushes: "weak_reachable c s \<Longrightarrow> weak_push s s' \<Longrightarrow> weak_reachable c s'"
| weak_pops: "weak_reachable c s \<Longrightarrow> weak_pop s s' \<Longrightarrow> weak_reachable c s'"

inductive_cases weak_pushE: "weak_push s s'"
inductive_cases weak_popE: "weak_pop s s'"

section \<open>Histories of an index\<close>

text \<open>After \<open>m\<close> stores the values of an index count from 0 and wrap at \<open>n\<close>.\<close>

definition history :: "nat \<Rightarrow> nat \<Rightarrow> u64 list" where
  "history n m = map (\<lambda>i. of_nat (i mod n)) [0..<Suc m]"

lemma history_length [simp]: "length (history n m) = Suc m"
  by (simp add: history_def)

lemma history_nth: "j \<le> m \<Longrightarrow> history n m ! j = of_nat (j mod n)"
  unfolding history_def by (subst nth_map) (simp_all del: upt_Suc)

lemma history_last: "last (history n m) = of_nat (m mod n)"
  by (simp add: history_def)

lemma history_snoc: "history n (Suc m) = history n m @ [of_nat (Suc m mod n)]"
  by (simp add: history_def)

lemma index_inject:
  assumes "a < n" and "b < n" and "n \<le> 2 ^ 63"
  shows "(of_nat a :: u64) = of_nat b \<longleftrightarrow> a = b"
proof -
  have "unat (of_nat a :: u64) = a" "unat (of_nat b :: u64) = b"
    using assms by (simp_all add: unat_of_nat_u64)
  then show ?thesis by metis
qed

lemma mod_close:
  fixes a b n :: nat
  assumes "a mod n = b mod n" and "a \<le> b" and "b < a + n"
  shows "a = b"
proof -
  have "n dvd b - a" using mod_eq_dvd_iff_nat [OF assms(2), of n] assms(1) by simp
  moreover have "b - a < n" using assms(2,3) by linarith
  ultimately have "b - a = 0" by (metis dvd_imp_le not_less neq0_conv)
  with assms(2) show ?thesis by simp
qed

section \<open>The invariant\<close>

text \<open>Accesses to slots: the \<open>k\<close>-th item lives in slot \<open>k mod n\<close> and is published by store \<open>k + 1\<close>.\<close>

definition accesses :: "nat \<Rightarrow> nat \<Rightarrow> (nat \<Rightarrow> nat) \<Rightarrow> bool" where
  "accesses n m f \<longleftrightarrow> (\<forall>i k. f i = Suc k \<longrightarrow> i = k mod n \<and> k < m)"

fun written :: "'a producer \<Rightarrow> nat" where
  "written (P_written x t) = 1"
| "written _ = 0"

fun taken :: "'a consumer \<Rightarrow> nat" where
  "taken (C_taken x h) = 1"
| "taken _ = 0"

fun has_room :: "'a producer \<Rightarrow> bool" where
  "has_room (P_free x t) = True"
| "has_room (P_written x t) = True"
| "has_room _ = False"

fun has_item :: "'a consumer \<Rightarrow> bool" where
  "has_item (C_avail h) = True"
| "has_item (C_taken x h) = True"
| "has_item _ = False"

abbreviation wk_pushed :: "'a weak \<Rightarrow> nat" where
  "wk_pushed s \<equiv> length (sp_sent (wk_spsc s))"

abbreviation wk_popped :: "'a weak \<Rightarrow> nat" where
  "wk_popped s \<equiv> length (sp_received (wk_spsc s))"

definition weak_around :: "nat \<Rightarrow> 'a list \<Rightarrow> 'a weak \<Rightarrow> bool" where
  "weak_around n q s \<longleftrightarrow>
     spsc_around n q (wk_spsc s) \<and> unat (ring_head (wk_ring s)) = wk_popped s mod n \<and>
     wk_tails s = history n (wk_pushed s) \<and> wk_heads s = history n (wk_popped s) \<and>
     wk_seen_head s \<le> wk_popped s \<and> wk_popped s \<le> wk_seen_tail s \<and> wk_seen_tail s \<le> wk_pushed s \<and>
     wk_pushed s < wk_seen_head s + n \<and>
     (has_room (sp_producer (wk_spsc s)) \<longrightarrow> Suc (wk_pushed s) < wk_seen_head s + n) \<and>
     (has_item (sp_consumer (wk_spsc s)) \<longrightarrow> wk_popped s < wk_seen_tail s) \<and>
     accesses n (wk_pushed s + written (sp_producer (wk_spsc s))) (wk_wrote s) \<and>
     accesses n (wk_popped s + taken (sp_consumer (wk_spsc s))) (wk_took s)"

lemma weak_shape:
  assumes "weak_around n q s"
  shows "2 \<le> n" and "n \<le> 2 ^ 63" and "wk_pushed s = wk_popped s + length q"
    and "unat (ring_tail (wk_ring s)) = wk_pushed s mod n"
    and "ring_tail (wk_ring s) = of_nat (wk_pushed s mod n)" and "ring_head (wk_ring s) = of_nat (wk_popped s mod n)"
proof -
  from assms have sh: "ring_shape n (wk_ring s) (length q)" and h: "unat (ring_head (wk_ring s)) = wk_popped s mod n"
    and se: "sp_sent (wk_spsc s) = sp_received (wk_spsc s) @ q" by (simp_all add: weak_around_def spsc_around_def)
  show "2 \<le> n" using ring_shape_bounds [OF sh] by simp
  from sh obtain k where "k \<le> 63" "n = 2 ^ k" by (auto simp: ring_shape_def)
  moreover have "(2::nat) ^ k \<le> 2 ^ 63" if "k \<le> 63" for k using that by (intro power_increasing) auto
  ultimately show "n \<le> 2 ^ 63" by blast
  show p: "wk_pushed s = wk_popped s + length q" using se by simp
  show t: "unat (ring_tail (wk_ring s)) = wk_pushed s mod n" using sh h by (simp add: ring_shape_def p mod_simps)
  show "ring_tail (wk_ring s) = of_nat (wk_pushed s mod n)" by (rule unat_eq_of_nat [OF t])
  show "ring_head (wk_ring s) = of_nat (wk_popped s mod n)" by (rule unat_eq_of_nat [OF h])
qed

lemma weak_next:
  assumes "weak_around n q s" shows "ring_next (wk_ring s) (of_nat (m mod n)) = of_nat (Suc m mod n)"
proof -
  from assms have sh: "ring_shape n (wk_ring s) (length q)" by (simp add: weak_around_def spsc_around_def)
  note b = weak_shape(1,2) [OF assms]
  have m: "m mod n < n" using b(1) by simp
  with b(2) have u: "unat (of_nat (m mod n) :: u64) = m mod n" by (simp add: unat_of_nat_u64)
  from ring_next_unat [OF sh, of "of_nat (m mod n)"] m u
  have "unat (ring_next (wk_ring s) (of_nat (m mod n))) = Suc m mod n" by (simp add: mod_Suc_eq)
  then show ?thesis by (rule unat_eq_of_nat)
qed

text \<open>What a thread concludes from an old value of the other index.\<close>

lemma stale_head_room:
  assumes "weak_around n q s" and "wk_seen_head s \<le> j" and "j < length (wk_heads s)"
    and "ring_next (wk_ring s) (ring_tail (wk_ring s)) \<noteq> wk_heads s ! j"
  shows "Suc (wk_pushed s) < j + n"
proof -
  note b = weak_shape [OF assms(1)]
  from assms(1,3) have j: "j \<le> wk_popped s" "wk_heads s ! j = of_nat (j mod n)" "wk_pushed s < wk_seen_head s + n"
    by (simp_all add: weak_around_def history_nth)
  have "Suc (wk_pushed s) mod n \<noteq> j mod n" using assms(4) weak_next [OF assms(1)] b(5) j(2) by auto
  then have "Suc (wk_pushed s) \<noteq> j + n" by (metis mod_add_self2)
  with j assms(2) show ?thesis by linarith
qed

lemma stale_tail_item:
  assumes "weak_around n q s" and "wk_seen_tail s \<le> j" and "j < length (wk_tails s)"
    and "ring_head (wk_ring s) \<noteq> wk_tails s ! j"
  shows "wk_popped s < j"
proof -
  note b = weak_shape [OF assms(1)]
  from assms(1-3) have j: "wk_popped s \<le> j" "wk_tails s ! j = of_nat (j mod n)"
    by (simp_all add: weak_around_def history_nth)
  have "wk_popped s \<noteq> j" using assms(4) b(6) j(2) by auto
  with j show ?thesis by simp
qed

section \<open>Preservation\<close>

lemma accesses_update: "accesses n m f \<Longrightarrow> i = m mod n \<Longrightarrow> accesses n (Suc m) (f(i := Suc m))"
  by (auto simp: accesses_def less_Suc_eq)

lemma weak_ring: "weak_around n q s \<Longrightarrow> spsc_around n q (wk_spsc s)"
  by (simp add: weak_around_def)

lemma weak_push_inv:
  assumes "weak_push s s'" and a: "weak_around n q s"
  shows "\<exists>q'. weak_around n q' s'"
  using assms(1)
proof cases
  case (weak_load_tail x)
  have "last (wk_tails s) = ring_tail (wk_ring s)" using a weak_shape(5) [OF a] by (simp add: weak_around_def history_last)
  with weak_load_tail a show ?thesis by (intro exI [of _ q]) (auto simp: weak_around_def spsc_around_def)
next
  case (weak_load_head_full x tail j)
  with a show ?thesis by (intro exI [of _ q]) (auto simp: weak_around_def spsc_around_def)
next
  case (weak_load_head x tail j)
  have t: "tail = ring_tail (wk_ring s)" using a weak_load_head by (simp add: weak_around_def spsc_around_def)
  have room: "Suc (wk_pushed s) < j + n" using stale_head_room [OF a] weak_load_head t by simp
  moreover have "j \<le> wk_popped s" using a weak_load_head by (simp add: weak_around_def)
  ultimately have "Suc (length q) < n" using weak_shape(3) [OF a] by linarith
  with room weak_load_head a t show ?thesis by (intro exI [of _ q]) (auto simp: weak_around_def spsc_around_def)
next
  case (weak_write_slot x tail)
  note b = weak_shape [OF a]
  have t: "tail = ring_tail (wk_ring s)" and len: "length (wk_tails s) = Suc (wk_pushed s)"
    using a weak_write_slot by (simp_all add: weak_around_def spsc_around_def)
  have "accesses n (wk_pushed s) (wk_wrote s)" using a weak_write_slot by (simp add: weak_around_def)
  then have "accesses n (Suc (wk_pushed s)) ((wk_wrote s)(unat tail := length (wk_tails s)))"
    using b(4) unfolding t len by (rule accesses_update)
  moreover have "spsc_around n q (wk_spsc s')"
    using a weak_write_slot by (cases "sp_consumer (wk_spsc s)") (auto simp: weak_around_def spsc_around_def ring_shape_slots)
  ultimately show ?thesis using weak_write_slot a by (intro exI [of _ q]) (auto simp: weak_around_def)
next
  case (weak_store_tail x tail)
  note b = weak_shape [OF a]
  have t: "tail = of_nat (wk_pushed s mod n)" using a b(5) weak_store_tail by (simp add: weak_around_def spsc_around_def)
  have "producer_step (wk_spsc s) (wk_spsc s')" using push_store_tail [OF weak_store_tail(2)] weak_store_tail by simp
  from producer_step_inv [OF this weak_ring [OF a]] obtain q' where q': "spsc_around n q' (wk_spsc s')" by blast
  have h: "wk_tails s' = history n (wk_pushed s')"
    using a weak_store_tail weak_next [OF a] t by (simp add: weak_around_def history_snoc)
  show ?thesis using weak_store_tail a q' h by (intro exI [of _ q']) (auto simp: weak_around_def)
qed

lemma weak_pop_inv:
  assumes "weak_pop s s'" and a: "weak_around n q s"
  shows "\<exists>q'. weak_around n q' s'"
  using assms(1)
proof cases
  case weak_load_own_head
  have "last (wk_heads s) = ring_head (wk_ring s)" using a weak_shape(6) [OF a] by (simp add: weak_around_def history_last)
  with weak_load_own_head a show ?thesis by (intro exI [of _ q]) (auto simp: weak_around_def spsc_around_def)
next
  case (weak_load_tail_empty head j)
  with a show ?thesis by (intro exI [of _ q]) (auto simp: weak_around_def spsc_around_def)
next
  case (weak_load_other_tail head j)
  have t: "head = ring_head (wk_ring s)" using a weak_load_other_tail by (simp add: weak_around_def spsc_around_def)
  have item: "wk_popped s < j" using stale_tail_item [OF a] weak_load_other_tail t by simp
  moreover have "j \<le> wk_pushed s" using a weak_load_other_tail by (simp add: weak_around_def)
  ultimately have "q \<noteq> []" using weak_shape(3) [OF a] by auto
  with item weak_load_other_tail a t show ?thesis by (intro exI [of _ q]) (auto simp: weak_around_def spsc_around_def)
next
  case (weak_take_slot head item)
  have t: "unat head = wk_popped s mod n" and len: "length (wk_heads s) = Suc (wk_popped s)"
    using a weak_take_slot by (simp_all add: weak_around_def spsc_around_def)
  have "consumer_step (wk_spsc s) (wk_spsc s')" using pop_take_slot [OF weak_take_slot(2,3)] weak_take_slot by simp
  from consumer_step_inv [OF this weak_ring [OF a]] obtain q' where q': "spsc_around n q' (wk_spsc s')" by blast
  moreover have "accesses n (wk_popped s) (wk_took s)" using a weak_take_slot by (simp add: weak_around_def)
  then have "accesses n (Suc (wk_popped s)) ((wk_took s)(unat head := length (wk_heads s)))"
    using t unfolding len by (rule accesses_update)
  ultimately show ?thesis using weak_take_slot a by (intro exI [of _ q']) (auto simp: weak_around_def)
next
  case (weak_store_head item head)
  note b = weak_shape [OF a]
  have t: "head = of_nat (wk_popped s mod n)" using a b(6) weak_store_head by (simp add: weak_around_def spsc_around_def)
  have "consumer_step (wk_spsc s) (wk_spsc s')" using pop_store_head [OF weak_store_head(2)] weak_store_head by simp
  from consumer_step_inv [OF this weak_ring [OF a]] obtain q' where q': "spsc_around n q' (wk_spsc s')" by blast
  note nx = weak_next [OF a, of "wk_popped s"]
  have h: "wk_heads s' = history n (wk_popped s')"
    using a weak_store_head nx t by (simp add: weak_around_def history_snoc)
  have "Suc (wk_popped s) mod n < 2 ^ 64"
    using b(1,2) by (intro less_le_trans [OF mod_less_divisor [of n]]) simp_all
  then have "unat (ring_head (wk_ring s')) = Suc (wk_popped s) mod n"
    using weak_store_head nx t by (simp add: unat_of_nat_u64)
  then show ?thesis using weak_store_head a q' h by (intro exI [of _ q']) (auto simp: weak_around_def)
qed

lemma weak_reachable_inv:
  assumes "weak_reachable c s" and "unat c \<le> 2 ^ 63"
  shows "\<exists>n q. weak_around n q s"
  using assms
proof (induction rule: weak_reachable.induct)
  case (weak_init r)
  from ring_new_holds [of c, where ?'a = 'a] weak_init have "ring_holds r []" by auto
  then obtain n where n: "ring_shape n r 0" "ring_slots r = Map.empty" by (auto simp: ring_holds_def)
  have "ring_head r = 0 \<and> ring_tail r = 0" using weak_init by (cases "nextPow2 c") (auto simp: ring_new_def)
  with n ring_shape_bounds [OF n(1)] have "weak_around n [] (weak_start r)"
    by (simp add: weak_around_def weak_start_def spsc_around_def spsc_start_def history_def accesses_def)
  then show ?case by blast
next
  case (weak_pushes s s')
  then show ?case using weak_push_inv by blast
next
  case (weak_pops s s')
  then show ?case using weak_pop_inv by blast
qed

section \<open>No race, and the steps of the simpler model\<close>

text \<open>The last access of the consumer to the slot the producer is about to write is one it has acquired.\<close>

lemma write_ordered:
  assumes a: "weak_around n q s" and p: "sp_producer (wk_spsc s) = P_free x t"
  shows "wk_took s (unat t) \<le> wk_seen_head s"
proof (cases "wk_took s (unat t)")
  case (Suc k)
  note b = weak_shape [OF a]
  have t: "unat t = wk_pushed s mod n" using a p b(4) by (simp add: weak_around_def spsc_around_def)
  have room: "Suc (wk_pushed s) < wk_seen_head s + n" and seen: "wk_popped s \<le> wk_seen_tail s" "wk_seen_tail s \<le> wk_pushed s"
    and item: "has_item (sp_consumer (wk_spsc s)) \<longrightarrow> wk_popped s < wk_seen_tail s"
    and k: "unat t = k mod n" "k < wk_popped s + taken (sp_consumer (wk_spsc s))"
    using a p Suc by (simp_all add: weak_around_def accesses_def)
  have "k < wk_pushed s" using k(2) seen item by (cases "sp_consumer (wk_spsc s)") simp_all
  moreover have "k mod n = wk_pushed s mod n" using k(1) t by simp
  ultimately have "k + n \<le> wk_pushed s" using mod_close [of k n "wk_pushed s"] by fastforce
  with room Suc show ?thesis by simp
qed simp

text \<open>And the other way round.\<close>

lemma take_ordered:
  assumes a: "weak_around n q s" and c: "sp_consumer (wk_spsc s) = C_avail h"
  shows "wk_wrote s (unat h) \<le> wk_seen_tail s"
proof (cases "wk_wrote s (unat h)")
  case (Suc k)
  note b = weak_shape [OF a]
  have h: "unat h = wk_popped s mod n" using a c by (simp add: weak_around_def spsc_around_def)
  have room: "wk_pushed s < wk_seen_head s + n" "has_room (sp_producer (wk_spsc s)) \<longrightarrow> Suc (wk_pushed s) < wk_seen_head s + n"
    and seen: "wk_seen_head s \<le> wk_popped s" and item: "wk_popped s < wk_seen_tail s"
    and k: "unat h = k mod n" "k < wk_pushed s + written (sp_producer (wk_spsc s))"
    using a c Suc by (simp_all add: weak_around_def accesses_def)
  have "k < wk_popped s + n" using k(2) room seen by (cases "sp_producer (wk_spsc s)") simp_all
  moreover have "wk_popped s mod n = k mod n" using k(1) h by simp
  ultimately have "k \<le> wk_popped s" using mod_close [of "wk_popped s" n k] by fastforce
  with item Suc show ?thesis by simp
qed simp

text \<open>
  Seen from the ring, a step with old values is a step with current ones or fails needlessly: the
  producer reports a full ring, the consumer an empty one, that is not.
\<close>

inductive stale_failure :: "'a spsc \<Rightarrow> 'a spsc \<Rightarrow> bool" where
  stale_full: "sp_producer s = P_tail x t \<Longrightarrow> stale_failure s (s\<lparr>sp_producer := P_idle\<rparr>)"
| stale_empty: "sp_consumer s = C_head h \<Longrightarrow> stale_failure s (s\<lparr>sp_consumer := C_idle\<rparr>)"

lemma weak_push_steps:
  assumes "weak_push s s'" and a: "weak_around n q s"
  shows "producer_step (wk_spsc s) (wk_spsc s') \<or> stale_failure (wk_spsc s) (wk_spsc s')"
  using assms(1)
proof cases
  case (weak_load_tail x)
  have "last (wk_tails s) = ring_tail (wk_ring s)" using a weak_shape(5) [OF a] by (simp add: weak_around_def history_last)
  with push_load_tail [OF weak_load_tail(2), of x] weak_load_tail(1) show ?thesis by simp
next
  case (weak_load_head_full x tail j)
  then show ?thesis using stale_full [OF weak_load_head_full(2)] by simp
next
  case (weak_load_head x tail j)
  have t: "tail = ring_tail (wk_ring s)" and sh: "ring_shape n (wk_ring s) (length q)"
    using a weak_load_head by (simp_all add: weak_around_def spsc_around_def)
  have "Suc (wk_pushed s) < j + n" using stale_head_room [OF a] weak_load_head t by simp
  moreover have "j \<le> wk_popped s" using a weak_load_head by (simp add: weak_around_def)
  ultimately have "Suc (length q) \<noteq> n" using weak_shape(3) [OF a] by linarith
  then have "ring_next (wk_ring s) tail \<noteq> ring_head (wk_ring s)" using ring_full_iff [OF sh] t by simp
  from push_load_head [OF weak_load_head(2) this] weak_load_head(1) show ?thesis by simp
next
  case (weak_write_slot x tail)
  then show ?thesis using push_write_slot [OF weak_write_slot(2)] by simp
next
  case (weak_store_tail x tail)
  then show ?thesis using push_store_tail [OF weak_store_tail(2)] by simp
qed

lemma weak_pop_steps:
  assumes "weak_pop s s'" and a: "weak_around n q s"
  shows "consumer_step (wk_spsc s) (wk_spsc s') \<or> stale_failure (wk_spsc s) (wk_spsc s')"
  using assms(1)
proof cases
  case weak_load_own_head
  have "last (wk_heads s) = ring_head (wk_ring s)" using a weak_shape(6) [OF a] by (simp add: weak_around_def history_last)
  with pop_load_head [OF weak_load_own_head(2)] weak_load_own_head(1) show ?thesis by simp
next
  case (weak_load_tail_empty head j)
  then show ?thesis using stale_empty [OF weak_load_tail_empty(2)] by simp
next
  case (weak_load_other_tail head j)
  have t: "head = ring_head (wk_ring s)" and sh: "ring_shape n (wk_ring s) (length q)"
    using a weak_load_other_tail by (simp_all add: weak_around_def spsc_around_def)
  have "wk_popped s < j" using stale_tail_item [OF a] weak_load_other_tail t by simp
  moreover have "j \<le> wk_pushed s" using a weak_load_other_tail by (simp add: weak_around_def)
  ultimately have "length q \<noteq> 0" using weak_shape(3) [OF a] by linarith
  then have "head \<noteq> ring_tail (wk_ring s)" using ring_empty_iff [OF sh] t by simp
  from pop_load_tail [OF weak_load_other_tail(2) this] weak_load_other_tail(1) show ?thesis by simp
next
  case (weak_take_slot head item)
  then show ?thesis using pop_take_slot [OF weak_take_slot(2,3)] by simp
next
  case (weak_store_head item head)
  then show ?thesis using pop_store_head [OF weak_store_head(2)] by simp
qed

text \<open>Conversely, whoever always sees the last value makes the steps of the simpler model.\<close>

lemma strong_push_weak:
  assumes "producer_step (wk_spsc s) v" and a: "weak_around n q s"
  shows "\<exists>s'. weak_push s s' \<and> wk_spsc s' = v"
proof -
  note b = weak_shape [OF a]
  have t: "last (wk_tails s) = ring_tail (wk_ring s)" and h: "wk_heads s ! wk_popped s = ring_head (wk_ring s)"
    and l: "wk_seen_head s \<le> wk_popped s" "wk_popped s < length (wk_heads s)"
    using a b(5,6) by (simp_all add: weak_around_def history_last history_nth)
  from assms(1) show ?thesis
  proof cases
    case (push_load_tail x)
    with weak_load_tail [OF push_load_tail(2), of x] t show ?thesis by force
  next
    case (push_load_head_full x tail)
    with weak_load_head_full [OF push_load_head_full(2) l] h show ?thesis by force
  next
    case (push_load_head x tail)
    with weak_load_head [OF push_load_head(2) l] h show ?thesis by force
  next
    case (push_write_slot x tail)
    with weak_write_slot [OF push_write_slot(2)] show ?thesis by force
  next
    case (push_store_tail x tail)
    with weak_store_tail [OF push_store_tail(2)] show ?thesis by force
  qed
qed

lemma strong_pop_weak:
  assumes "consumer_step (wk_spsc s) v" and a: "weak_around n q s"
  shows "\<exists>s'. weak_pop s s' \<and> wk_spsc s' = v"
proof -
  note b = weak_shape [OF a]
  have h: "last (wk_heads s) = ring_head (wk_ring s)" and t: "wk_tails s ! wk_pushed s = ring_tail (wk_ring s)"
    and l: "wk_seen_tail s \<le> wk_pushed s" "wk_pushed s < length (wk_tails s)"
    using a b(5,6) by (simp_all add: weak_around_def history_last history_nth)
  from assms(1) show ?thesis
  proof cases
    case pop_load_head
    with weak_load_own_head [OF pop_load_head(2)] h show ?thesis by force
  next
    case (pop_load_tail_empty head)
    with weak_load_tail_empty [OF pop_load_tail_empty(2) l] t show ?thesis by force
  next
    case (pop_load_tail head)
    with weak_load_other_tail [OF pop_load_tail(2) l] t show ?thesis by force
  next
    case (pop_take_slot head item)
    with weak_take_slot [OF pop_take_slot(2,3)] show ?thesis by force
  next
    case (pop_store_head item head)
    with weak_store_head [OF pop_store_head(2)] show ?thesis by force
  qed
qed

lemma strong_reachable_weak:
  assumes "spsc_reachable c s" and "unat c \<le> 2 ^ 63"
  shows "\<exists>s'. weak_reachable c s' \<and> wk_spsc s' = s"
  using assms(1)
proof (induction rule: spsc_reachable.induct)
  case (spsc_init r)
  from weak_init [OF this] show ?case by (intro exI [of _ "weak_start r"]) (simp add: weak_start_def)
next
  case (spsc_next s v)
  then obtain s1 where s1: "weak_reachable c s1" "wk_spsc s1 = s" by blast
  from weak_reachable_inv [OF s1(1) assms(2)] obtain n q where "weak_around n q s1" by blast
  with spsc_next.hyps(2) s1 strong_push_weak [of s1 v n q] strong_pop_weak [of s1 v n q] show ?case
    by (auto simp: spsc_step_def intro: weak_pushes weak_pops)
qed

section \<open>Progress of each thread\<close>

interpretation weak: thread_pair weak_push weak_pop
  "\<lambda>s. producer_left (sp_producer (wk_spsc s))" "\<lambda>s. consumer_left (sp_consumer (wk_spsc s))"
  by unfold_locales (auto elim!: weak_pushE weak_popE)

lemma weak_enabled:
  assumes "weak_around n q s" shows "\<exists>s'. weak_push s s'" and "\<exists>s'. weak_pop s s'"
proof -
  from producer_enabled [of "wk_spsc s"] strong_push_weak [OF _ assms] show "\<exists>s'. weak_push s s'" by blast
  have "spsc_inv (wk_spsc s)" using weak_ring [OF assms] by (auto simp: spsc_inv_def)
  from consumer_enabled [OF this] strong_pop_weak [OF _ assms] show "\<exists>s'. weak_pop s s'" by blast
qed

end
