(* ===== verification/Ring_Properties.thy ===== *)
theory Ring_Properties
  imports Fifo_Channel Spsc_Weak
begin

text \<open>
  The properties of the ring buffer: its capacity, its behaviour as a bounded FIFO channel, and
  what survives the free interleaving of its two threads.
\<close>

section \<open>Capacity\<close>

text \<open>
  C33: Up to 2^63, the constructor returns a ring whose capacity is the least power of two that is
  at least the requested capacity and at least 2; beyond 2^63 the rounding loop never ends.
\<close>

theorem ring_capacity_rounding:
  "(unat c \<le> 2 ^ 63 \<longrightarrow> (\<exists>(r :: 'a ring) k. ring_new c = Some r \<and> unat (ring_capacity r) = 2 ^ k \<and>
      max 2 (unat c) \<le> 2 ^ k \<and> (\<forall>j. max 2 (unat c) \<le> 2 ^ j \<longrightarrow> k \<le> j))) \<and>
   (2 ^ 63 < unat c \<longrightarrow> (ring_new c :: 'a ring option) = None)"
proof (intro conjI impI)
  assume "unat c \<le> 2 ^ 63"
  from nextPow2_correct [OF this] obtain m k where
    m: "nextPow2 c = Some m" "unat m = 2 ^ k" "1 \<le> k" "unat c \<le> 2 ^ k"
      "\<forall>j. 2 ^ j < unat m \<longrightarrow> 2 ^ j < max 2 (unat c)" by blast
  have "(2::nat) ^ 1 \<le> 2 ^ k" using m(3) by (intro power_increasing) auto
  moreover have "k \<le> j" if "max 2 (unat c) \<le> 2 ^ j" for j
  proof (rule ccontr)
    assume "\<not> k \<le> j"
    then have "(2::nat) ^ j < unat m" unfolding m(2) by (intro power_strict_increasing) auto
    with m(5) have "2 ^ j < max 2 (unat c)" by blast
    with that show False by linarith
  qed
  ultimately show "\<exists>(r :: 'a ring) k. ring_new c = Some r \<and> unat (ring_capacity r) = 2 ^ k \<and>
      max 2 (unat c) \<le> 2 ^ k \<and> (\<forall>j. max 2 (unat c) \<le> 2 ^ j \<longrightarrow> k \<le> j)"
    using m by (auto simp: ring_new_def intro!: exI [of _ k])
next
  assume "2 ^ 63 < unat c"
  then show "(ring_new c :: 'a ring option) = None" by (simp add: ring_new_def nextPow2_diverges)
qed

lemma ring_capacity_rounding_witness:
  "(\<exists>(r :: nat ring) k. ring_new 5 = Some r \<and> unat (ring_capacity r) = 2 ^ k \<and> 5 \<le> (2::nat) ^ k \<and> k \<le> 3) \<and>
   (ring_new (2 ^ 63 + 1) :: nat ring option) = None"
proof -
  have "unat (5 :: u64) \<le> 2 ^ 63" "2 ^ 63 < unat (2 ^ 63 + 1 :: u64)" by simp_all
  with conjunct1 [OF ring_capacity_rounding [of 5, where 'a = nat]]
    conjunct2 [OF ring_capacity_rounding [of "2 ^ 63 + 1", where 'a = nat]]
  obtain r k where "(ring_new 5 :: nat ring option) = Some r" "unat (ring_capacity r) = 2 ^ k" "max 2 (unat (5::u64)) \<le> 2 ^ k"
    "\<forall>j. max 2 (unat (5::u64)) \<le> 2 ^ j \<longrightarrow> k \<le> j" "(ring_new (2 ^ 63 + 1) :: nat ring option) = None" by auto
  moreover from this(4) have "k \<le> 3" by (elim allE [of _ 3]) simp
  ultimately show ?thesis by auto
qed

section \<open>One object used sequentially\<close>

text \<open>
  C32: Any sequence of pushes and pops on a new ring answers exactly like a list bounded by the
  capacity less one; no pop reads a slot without an object, the items still inside are those
  accepted and not delivered, in order, and \<^verbatim>\<open>approxSize\<close> and \<^verbatim>\<open>empty\<close> report them.
\<close>

theorem ring_is_bounded_queue:
  assumes "ring_new c = Some r" and "unat c \<le> 2 ^ 63"
  shows "\<exists>rs r' q. channel_run ring_push ring_pop ops r = Some (rs, r') \<and>
    queue_run (unat (ring_capacity r) - 1) ops [] = (rs, q) \<and> accepted ops rs = delivered rs @ q \<and>
    unat (ring_approxSize r') = length q \<and> (ring_empty r' \<longleftrightarrow> q = []) \<and> length q < unat (ring_capacity r)"
proof -
  from ring_new_holds [OF assms(2), where ?'a = 'a] assms(1) have h: "ring_holds r []" by auto
  from ring.run_refines [OF h, of ops] obtain rs r' q where
    run: "channel_run ring_push ring_pop ops r = Some (rs, r')" "queue_run (ring_usable r) ops [] = (rs, q)"
      "ring_holds r' q" by blast
  have "ring_empty r' \<longleftrightarrow> q = []" using run(3) ring_empty_iff by (auto simp: ring_holds_def ring_empty_def)
  moreover have "2 \<le> unat (ring_capacity r)"
    using h ring_shape_bounds by (fastforce simp: ring_holds_def ring_shape_def)
  ultimately show ?thesis
    using run queue_run_fifo [OF run(2)] ring_approxSize_unat [OF run(3)] by (auto simp: ring_usable_def)
qed

definition ring2 :: "nat ring" where
  "ring2 = \<lparr>ring_capacity = 2, ring_mask = 1, ring_slots = Map.empty, ring_head = 0, ring_tail = 0\<rparr>"

lemma ring2_new: "ring_new 2 = Some ring2"
  by (simp add: ring_new_def nextPow2_def pow2_loop.simps ring2_def)

lemma ring_is_bounded_queue_witness:
  "\<exists>rs r' q. channel_run ring_push ring_pop [Push 7, Push 8, Pop, Pop] ring2 = Some (rs, r') \<and>
     queue_run 1 [Push 7, Push 8, Pop, Pop] [] = (rs, q) \<and> rs = [Pushed True, Pushed False, Popped (Some 7), Popped None]"
proof -
  have "unat (2 :: u64) \<le> 2 ^ 63" by simp
  from ring_is_bounded_queue [OF ring2_new this, of "[Push 7, Push 8, Pop, Pop]"] show ?thesis
    by (auto simp: ring2_def)
qed

section \<open>Two threads\<close>

text \<open>
  C30: In every state the two threads can reach under the memory orders of the code, each of them seeing old or
  current values of the other's index, the items sent are the items received followed by those still
  inside, fewer than the capacity; a consumer about to read finds the oldest of them, and has acquired the store
  that published it; a producer about to write finds a slot without an object, and has acquired the
  store that freed it; and the two never touch the same slot.
\<close>

theorem spsc_fifo_race_free:
  assumes "weak_reachable c s" and "unat c \<le> 2 ^ 63"
  shows "\<exists>q. sp_sent (wk_spsc s) = sp_received (wk_spsc s) @ q \<and> length q < unat (ring_capacity (wk_ring s)) \<and>
    (\<forall>h. sp_consumer (wk_spsc s) = C_avail h \<longrightarrow>
       q \<noteq> [] \<and> ring_slots (wk_ring s) (unat h) = Some (hd q) \<and> wk_wrote s (unat h) \<le> wk_seen_tail s) \<and>
    (\<forall>x t. sp_producer (wk_spsc s) = P_free x t \<longrightarrow>
       ring_slots (wk_ring s) (unat t) = None \<and> wk_took s (unat t) \<le> wk_seen_head s) \<and>
    (\<forall>x t h. sp_producer (wk_spsc s) = P_free x t \<and> sp_consumer (wk_spsc s) = C_avail h \<longrightarrow> t \<noteq> h)"
proof -
  from weak_reachable_inv [OF assms] obtain n q where w: "weak_around n q s" by blast
  note i = weak_ring [OF w]
  then have s: "ring_shape n (wk_ring s) (length q)" and "sp_sent (wk_spsc s) = sp_received (wk_spsc s) @ q"
    by (simp_all add: spsc_around_def)
  moreover have "length q < unat (ring_capacity (wk_ring s))" using s by (simp add: ring_shape_def)
  moreover have "t \<noteq> h" if "sp_producer (wk_spsc s) = P_free x t" "sp_consumer (wk_spsc s) = C_avail h" for x t h
    using free_slot_empty [OF i that(1)] avail_item(2) [OF i that(2)] by auto
  ultimately show ?thesis
    using avail_item [OF i] free_slot_empty [OF i] write_ordered [OF w] take_ordered [OF w] by blast
qed

text \<open>A state in which the ring holds an item, the consumer is about to read and the producer has
  found room again.\<close>

definition busy_spsc :: "nat spsc" where
  "busy_spsc = \<lparr>sp_ring = \<lparr>ring_capacity = 4, ring_mask = 3, ring_slots = Map.empty(0 \<mapsto> 7), ring_head = 0, ring_tail = 1\<rparr>,
     sp_producer = P_free 8 1, sp_consumer = C_avail 0, sp_sent = [7], sp_received = []\<rparr>"

lemma busy_reachable: "spsc_reachable 4 busy_spsc"
proof -
  let ?r0 = "\<lparr>ring_capacity = 4, ring_mask = 3, ring_slots = Map.empty, ring_head = 0, ring_tail = 0\<rparr> :: nat ring"
  let ?r1 = "?r0\<lparr>ring_slots := Map.empty(0 \<mapsto> 7)\<rparr>"
  let ?r2 = "?r1\<lparr>ring_tail := 1\<rparr>"
  have "ring_new 4 = Some ?r0" by (simp add: ring_new_def nextPow2_def pow2_loop.simps)
  from spsc_init [OF this] have s0: "spsc_reachable 4 (spsc_start ?r0)" .
  note step = spsc_next [OF _ iffD2 [OF spsc_step_def disjI1]] spsc_next [OF _ iffD2 [OF spsc_step_def disjI2]]
  from step(1) [OF s0 push_load_tail [of _ 7]]
  have s1: "spsc_reachable 4 \<lparr>sp_ring = ?r0, sp_producer = P_tail 7 0, sp_consumer = C_idle, sp_sent = [], sp_received = []\<rparr>"
    by (simp add: spsc_start_def)
  from step(1) [OF s1 push_load_head [of _ 7 0]]
  have s2: "spsc_reachable 4 \<lparr>sp_ring = ?r0, sp_producer = P_free 7 0, sp_consumer = C_idle, sp_sent = [], sp_received = []\<rparr>"
    by (simp add: ring_next_def)
  from step(1) [OF s2 push_write_slot [of _ 7 0]]
  have s3: "spsc_reachable 4 \<lparr>sp_ring = ?r1, sp_producer = P_written 7 0, sp_consumer = C_idle, sp_sent = [], sp_received = []\<rparr>"
    by simp
  from step(1) [OF s3 push_store_tail [of _ 7 0]]
  have s4: "spsc_reachable 4 \<lparr>sp_ring = ?r2, sp_producer = P_idle, sp_consumer = C_idle, sp_sent = [7], sp_received = []\<rparr>"
    by (simp add: ring_next_def)
  from step(2) [OF s4 pop_load_head]
  have s5: "spsc_reachable 4 \<lparr>sp_ring = ?r2, sp_producer = P_idle, sp_consumer = C_head 0, sp_sent = [7], sp_received = []\<rparr>"
    by simp
  from step(2) [OF s5 pop_load_tail [of _ 0]]
  have s6: "spsc_reachable 4 \<lparr>sp_ring = ?r2, sp_producer = P_idle, sp_consumer = C_avail 0, sp_sent = [7], sp_received = []\<rparr>"
    by simp
  from step(1) [OF s6 push_load_tail [of _ 8]]
  have s7: "spsc_reachable 4 \<lparr>sp_ring = ?r2, sp_producer = P_tail 8 1, sp_consumer = C_avail 0, sp_sent = [7], sp_received = []\<rparr>"
    by simp
  from step(1) [OF s7 push_load_head [of _ 8 1]] show ?thesis by (simp add: ring_next_def busy_spsc_def)
qed

lemma spsc_fifo_race_free_witness:
  "\<exists>s. weak_reachable 4 s \<and> wk_spsc s = busy_spsc \<and> ring_slots (wk_ring s) 0 = Some 7 \<and> wk_wrote s 0 \<le> wk_seen_tail s \<and>
     ring_slots (wk_ring s) 1 = None \<and> wk_took s 1 \<le> wk_seen_head s"
proof -
  have c: "unat (4 :: u64) \<le> 2 ^ 63" by simp
  from strong_reachable_weak [OF busy_reachable c] obtain s where s: "weak_reachable 4 s" "wk_spsc s = busy_spsc" by blast
  from spsc_fifo_race_free [OF s(1) c] s show ?thesis by (intro exI [of _ s]) (auto simp: busy_spsc_def)
qed

text \<open>
  C31: Neither thread can block: from every state reached under the memory orders of the code each of
  the two can make a step, and a thread inside \<^verbatim>\<open>push\<close> or \<^verbatim>\<open>pop\<close> finishes the call within three of
  its own steps, whatever the other thread does meanwhile and however old the values are that it sees.
\<close>

theorem spsc_wait_free:
  assumes "weak_reachable c s" and "unat c \<le> 2 ^ 63"
  shows "(\<exists>s'. weak_push s s') \<and> (\<exists>s'. weak_pop s s') \<and>
    (\<forall>ls vs. thread_run weak_push weak_pop ls s vs \<longrightarrow>
       (sp_producer (wk_spsc s) \<noteq> P_idle \<and> 3 \<le> count_list ls Producer \<longrightarrow> (\<exists>v\<in>set vs. sp_producer (wk_spsc v) = P_idle)) \<and>
       (sp_consumer (wk_spsc s) \<noteq> C_idle \<and> 3 \<le> count_list ls Consumer \<longrightarrow> (\<exists>v\<in>set vs. sp_consumer (wk_spsc v) = C_idle)))"
proof -
  from weak_reachable_inv [OF assms] obtain n q where w: "weak_around n q s" by blast
  note l = thread_left_le(1) [of "sp_producer (wk_spsc s)"] thread_left_le(2) [of "sp_consumer (wk_spsc s)"]
  show ?thesis
    using weak_enabled [OF w] weak.producer_ends [of _ s] weak.consumer_ends [of _ s] l
    by (auto simp: left_zero zero_less_iff_neq_zero dest: le_trans)
qed

lemma spsc_wait_free_witness:
  "\<exists>s. wk_spsc s = busy_spsc \<and> (\<exists>s'. weak_push s s') \<and> (\<exists>s'. weak_pop s s')"
proof -
  have c: "unat (4 :: u64) \<le> 2 ^ 63" by simp
  from strong_reachable_weak [OF busy_reachable c] obtain s where s: "weak_reachable 4 s" "wk_spsc s = busy_spsc" by blast
  from spsc_wait_free [OF s(1) c] s(2) show ?thesis by blast
qed

end
