(* ===== verification/Std_Double.thy ===== *)
theory Std_Double
  imports Prelude Complex_Main
begin

text \<open>
  The C++ type \<^verbatim>\<open>double\<close> as IEEE 754 binary64 in the default rounding mode.  A finite double is the
  rational it stands for (the sign of zero, which no operation used here can observe, is left out);
  an operation computes the exact rational and rounds it once, to the nearest double, ties to
  the even significand.  \<open>fl_error\<close> bounds the error of one rounding; \<open>fl_int\<close> says that integers
  up to \<open>2^53\<close> are exact.
\<close>

section \<open>Rounding\<close>

fun ilog2 :: "nat \<Rightarrow> nat" where
  "ilog2 n = (if n < 2 then 0 else Suc (ilog2 (n div 2)))"

declare ilog2.simps [simp del]

definition round_even :: "rat \<Rightarrow> int" where
  "round_even q =
     (let n = \<lfloor>q\<rfloor>; r = q - of_int n
      in if r < 1 / 2 then n else if 1 / 2 < r then n + 1 else if even n then n else n + 1)"

text \<open>The exponent of the last bit of the significand: 53 bits, fewer for subnormal numbers.\<close>

definition ulp_exp :: "rat \<Rightarrow> int" where
  "ulp_exp q =
     (if 1 \<le> \<bar>q\<bar> then int (ilog2 (nat \<lfloor>\<bar>q\<bar>\<rfloor>)) - 52
      else max (- 1074) (int (ilog2 (nat \<lfloor>\<bar>q\<bar> * 2 ^ 1074\<rfloor>)) - 1126))"

definition fl :: "rat \<Rightarrow> rat" where
  "fl q = of_int (round_even (q / 2 powi ulp_exp q)) * 2 powi ulp_exp q"

lemma ilog2_bounds: "0 < n \<Longrightarrow> 2 ^ ilog2 n \<le> n \<and> n < 2 ^ Suc (ilog2 n)"
proof (induction n rule: ilog2.induct)
  case (1 n)
  show ?case
  proof (cases "n < 2")
    case True
    with 1 show ?thesis by (subst (1 2) ilog2.simps) simp
  next
    case False
    with 1 have "2 ^ ilog2 (n div 2) \<le> n div 2 \<and> n div 2 < 2 ^ Suc (ilog2 (n div 2))" by simp
    with False show ?thesis by (subst (1 2) ilog2.simps) auto
  qed
qed

lemma round_even_error: "\<bar>of_int (round_even q) - q\<bar> \<le> 1 / 2"
proof -
  have "of_int \<lfloor>q\<rfloor> \<le> q" "q < of_int \<lfloor>q\<rfloor> + 1" using floor_correct [of q] by simp_all
  then show ?thesis unfolding round_even_def Let_def abs_le_iff by (simp split: if_splits) linarith
qed

lemma round_even_int [simp]: "round_even (of_int n) = n"
  by (simp add: round_even_def)

lemma powi_pos: "(0 :: rat) < 2 powi e"
  by simp

lemma fl_within_half_ulp: "\<bar>fl q - q\<bar> \<le> 2 powi ulp_exp q / 2"
proof -
  let ?u = "2 powi ulp_exp q :: rat"
  have "fl q - q = (of_int (round_even (q / ?u)) - q / ?u) * ?u" by (simp add: fl_def algebra_simps)
  then have "\<bar>fl q - q\<bar> = \<bar>of_int (round_even (q / ?u)) - q / ?u\<bar> * ?u" by (simp add: abs_mult)
  also have "\<dots> \<le> 1 / 2 * ?u" using round_even_error [of "q / ?u"] by (intro mult_right_mono) auto
  finally show ?thesis by simp
qed

lemma ulp_exp_le:
  assumes "1 / 2 ^ 1022 \<le> \<bar>q\<bar>"
  shows "2 powi ulp_exp q \<le> \<bar>q\<bar> / 2 ^ 52"
proof (cases "1 \<le> \<bar>q\<bar>")
  case True
  let ?n = "nat \<lfloor>\<bar>q\<bar>\<rfloor>"
  have "0 < ?n" using True by simp
  from ilog2_bounds [OF this] have "(2::nat) ^ ilog2 ?n \<le> ?n" by blast
  then have "(of_nat (2 ^ ilog2 ?n) :: rat) \<le> of_nat ?n" by (simp only: of_nat_le_iff)
  also have "\<dots> \<le> \<bar>q\<bar>" using True by simp
  finally have "(2 :: rat) ^ ilog2 ?n \<le> \<bar>q\<bar>" by simp
  moreover have "(2 :: rat) powi ulp_exp q = 2 ^ ilog2 ?n / 2 ^ 52"
    using True by (simp add: ulp_exp_def power_int_diff)
  ultimately show ?thesis by (simp add: divide_right_mono)
next
  case False
  let ?n = "nat \<lfloor>\<bar>q\<bar> * 2 ^ 1074\<rfloor>"
  have "(2 :: rat) ^ 52 \<le> \<bar>q\<bar> * 2 ^ 1074"
    using mult_right_mono [OF assms, of "2 ^ 1074"] by simp
  then have f: "2 ^ 52 \<le> \<lfloor>\<bar>q\<bar> * 2 ^ 1074\<rfloor>" by (simp only: le_floor_iff) simp
  have "2 ^ 52 \<le> z \<Longrightarrow> 2 ^ 52 \<le> nat z" for z :: int by simp
  from this [OF f] have n: "2 ^ 52 \<le> ?n" .
  have "2 ^ 52 \<le> m \<Longrightarrow> 0 < m" for m :: nat by simp
  from this [OF n] have "0 < ?n" .
  from ilog2_bounds [OF this] have lo: "2 ^ ilog2 ?n \<le> ?n" and hi: "?n < 2 ^ Suc (ilog2 ?n)" by blast+
  from n hi have "(2::nat) ^ 52 < 2 ^ Suc (ilog2 ?n)" by linarith
  then have "52 < Suc (ilog2 ?n)" by (rule power_less_imp_less_exp [rotated]) simp
  then have e: "ulp_exp q = int (ilog2 ?n) - 1126" using False by (simp add: ulp_exp_def)
  have "(of_nat (2 ^ ilog2 ?n) :: rat) \<le> of_nat ?n" using lo by (simp only: of_nat_le_iff)
  also have "\<dots> \<le> \<bar>q\<bar> * 2 ^ 1074" by simp
  finally have "(2 :: rat) ^ ilog2 ?n / 2 ^ 1126 \<le> \<bar>q\<bar> * 2 ^ 1074 / 2 ^ 1126"
    by (intro divide_right_mono) simp_all
  then show ?thesis unfolding e by (simp add: power_int_diff)
qed

lemma fl_error:
  assumes "1 / 2 ^ 1022 \<le> \<bar>q\<bar>"
  shows "\<bar>fl q - q\<bar> \<le> \<bar>q\<bar> / 2 ^ 53"
  using fl_within_half_ulp [of q] ulp_exp_le [OF assms] by simp

lemma fl_int:
  assumes "\<bar>n\<bar> < 2 ^ 53"
  shows "fl (of_int n) = of_int n"
proof (cases "n = 0")
  case False
  let ?m = "nat \<bar>n\<bar>"
  have fl: "nat \<lfloor>\<bar>of_int n :: rat\<bar>\<rfloor> = ?m" by (metis floor_of_int of_int_abs)
  from False have "0 < ?m" by simp
  from ilog2_bounds [OF this] have "2 ^ ilog2 ?m \<le> ?m" by blast
  also have "?m < 2 ^ 53" using assms by simp
  finally have "ilog2 ?m < 53" by (rule power_less_imp_less_exp [rotated]) simp
  then have e: "ulp_exp (of_int n) = - int (52 - ilog2 ?m)"
    using False fl by (simp add: ulp_exp_def of_int_abs [symmetric] del: of_int_abs)
  have "(of_int n :: rat) / 2 powi ulp_exp (of_int n) = of_int (n * 2 ^ (52 - ilog2 ?m))"
    unfolding e by (simp add: power_int_minus divide_inverse)
  then have "fl (of_int n) = of_int (n * 2 ^ (52 - ilog2 ?m)) * 2 powi ulp_exp (of_int n)"
    unfolding fl_def by (simp only: round_even_int)
  then show ?thesis unfolding e by (simp add: power_int_minus)
qed (simp add: fl_def round_even_def)

section \<open>Doubles and their conversions\<close>

datatype double = Finite rat | Infinity bool | NotANumber

definition to_double :: "rat \<Rightarrow> double" where
  "to_double q = (let r = fl q in if \<bar>r\<bar> < 2 ^ 1024 then Finite r else Infinity (q < 0))"

text \<open>An operation with a constant, whose effect on infinities and NaN is to keep them.\<close>

definition dbl_apply :: "(rat \<Rightarrow> rat) \<Rightarrow> double \<Rightarrow> double" where
  "dbl_apply f d = (case d of Finite q \<Rightarrow> to_double (f q) | _ \<Rightarrow> d)"

definition trunc_rat :: "rat \<Rightarrow> int" where
  "trunc_rat q = (if q < 0 then \<lceil>q\<rceil> else \<lfloor>q\<rfloor>)"

text \<open>\<^verbatim>\<open>static_cast<int64_t>\<close>: undefined when the truncated value does not fit.\<close>

definition dbl_to_i64 :: "double \<Rightarrow> i64 option" where
  "dbl_to_i64 d =
     (case d of
        Finite q \<Rightarrow> (let t = trunc_rat q
                     in if - (2 ^ 63) \<le> t \<and> t < 2 ^ 63 then Some (I64 (of_int t)) else None)
      | _ \<Rightarrow> None)"

definition i64_to_dbl :: "i64 \<Rightarrow> double" where
  "i64_to_dbl x = to_double (of_int (i64_val x))"

lemma fl_abs_le: "1 / 2 ^ 1022 \<le> \<bar>q\<bar> \<Longrightarrow> \<bar>fl q\<bar> \<le> 2 * \<bar>q\<bar>"
  using fl_error [of q] by (simp add: abs_if split: if_splits)

lemma to_double_small:
  assumes "\<bar>q\<bar> \<le> 2 ^ 1022" and "q = 0 \<or> 1 / 2 ^ 1022 \<le> \<bar>q\<bar>"
  shows "to_double q = Finite (fl q)"
proof -
  have "\<bar>fl q\<bar> \<le> 2 * \<bar>q\<bar>" using assms(2) fl_abs_le [of q] fl_int [of 0] by auto
  also have "\<dots> < 2 ^ 1024" using assms(1) by simp
  finally show ?thesis by (simp add: to_double_def Let_def)
qed

lemma i64_val_of_int: "- (2 ^ 63) \<le> n \<Longrightarrow> n < 2 ^ 63 \<Longrightarrow> i64_val (I64 (of_int n)) = n"
  by (simp add: signed_of_int signed_take_bit_int_eq_self)

lemma i64_of_val: "I64 (of_int (i64_val x)) = x"
  by (cases x) simp

lemma fl_relative:
  assumes "1 / 2 ^ 1022 \<le> q"
  shows "q * (1 - 1 / 2 ^ 53) \<le> fl q" and "fl q \<le> q * (1 + 1 / 2 ^ 53)"
proof -
  have "0 < (1 / 2 ^ 1022 :: rat)" by simp
  with assms have q: "0 < q" by linarith
  then have "\<bar>fl q - q\<bar> \<le> q / 2 ^ 53" using fl_error [of q] assms by simp
  then have "q - q / 2 ^ 53 \<le> fl q" "fl q \<le> q + q / 2 ^ 53" by linarith+
  then show "q * (1 - 1 / 2 ^ 53) \<le> fl q" "fl q \<le> q * (1 + 1 / 2 ^ 53)"
    by (simp_all add: right_diff_distrib distrib_left)
qed

text \<open>A double operation on a value between \<open>2^-200\<close> and \<open>2^200\<close> is finite and off by at most a factor 2.\<close>

lemma dbl_apply_moderate:
  assumes "1 / 2 ^ 200 \<le> f q" and "f q \<le> 2 ^ 200"
  shows "dbl_apply f (Finite q) = Finite (fl (f q))" and "f q / 2 \<le> fl (f q)" and "fl (f q) \<le> 2 * f q"
proof -
  have "(1 :: rat) / 2 ^ 1022 \<le> 1 / 2 ^ 200" "(2 :: rat) ^ 200 \<le> 2 ^ 1022" "0 \<le> (1 :: rat) / 2 ^ 200" by simp_all
  with assms have z: "1 / 2 ^ 1022 \<le> f q" "\<bar>f q\<bar> \<le> 2 ^ 1022" "0 \<le> f q" by linarith+
  then show "dbl_apply f (Finite q) = Finite (fl (f q))"
    by (simp only: dbl_apply_def double.case) (rule to_double_small, simp_all)
  show "f q / 2 \<le> fl (f q)" "fl (f q) \<le> 2 * f q"
    using fl_relative [OF z(1)] z(3) by simp_all
qed

section \<open>Values near integers, and values below one\<close>

lemma fl_nat: "m < 2 ^ 53 \<Longrightarrow> fl (of_nat m) = of_nat m"
  using fl_int [of "int m"] by simp

lemma ilog2_eq: "2 ^ k \<le> n \<Longrightarrow> n < 2 ^ Suc k \<Longrightarrow> ilog2 n = k"
proof -
  assume k: "2 ^ k \<le> n" "n < 2 ^ Suc k"
  have "(0 :: nat) < 2 ^ k" by simp
  with k(1) have "0 < n" by linarith
  from ilog2_bounds [OF this] k have "(2 :: nat) ^ ilog2 n < 2 ^ Suc k" "(2 :: nat) ^ k < 2 ^ Suc (ilog2 n)" by linarith+
  then have "ilog2 n < Suc k" "k < Suc (ilog2 n)" by (simp_all only: power_strict_increasing_iff one_less_numeral_iff semiring_norm)
  then show ?thesis by simp
qed

lemma round_even_near:
  assumes "\<bar>q - of_int n\<bar> < 1 / 2" shows "round_even q = n"
proof (cases "of_int n \<le> q")
  case True
  with assms have "\<lfloor>q\<rfloor> = n" by (intro floor_unique) simp_all
  with assms True show ?thesis by (simp add: round_even_def)
next
  case False
  with assms have "\<lfloor>q\<rfloor> = n - 1" by (intro floor_unique) simp_all
  with assms False show ?thesis by (simp add: round_even_def)
qed

lemma fl_half_one:
  assumes "1 / 2 \<le> q" and "q < 1"
  shows "fl q = of_int (round_even (q * 2 ^ 53)) / 2 ^ 53"
proof -
  let ?m = "nat \<lfloor>q * 2 ^ 1074\<rfloor>"
  have "(2 :: rat) ^ 1073 \<le> q * 2 ^ 1074" using mult_right_mono [OF assms(1), of "2 ^ 1074"] by simp
  then have lo: "(2 :: int) ^ 1073 \<le> \<lfloor>q * 2 ^ 1074\<rfloor>" by (simp only: le_floor_iff) simp
  have "q * 2 ^ 1074 < 1 * 2 ^ 1074" using assms(2) by (intro mult_strict_right_mono) simp_all
  then have hi: "\<lfloor>q * 2 ^ 1074\<rfloor> < (2 :: int) ^ 1074" by (simp only: floor_less_iff) simp
  have "ilog2 ?m = 1073"
  proof (rule ilog2_eq)
    show "2 ^ 1073 \<le> ?m" using nat_mono [OF lo] by (simp only: nat_power_eq nat_numeral)
    have "0 \<le> z \<Longrightarrow> z < 2 ^ 1074 \<Longrightarrow> nat z < 2 ^ 1074" for z :: int by simp
    from this [OF _ hi] assms(1) show "?m < 2 ^ Suc 1073" by simp
  qed
  moreover have "\<not> 1 \<le> \<bar>q\<bar>" "\<bar>q\<bar> = q" using assms by simp_all
  ultimately have e: "ulp_exp q = - 53" by (simp add: ulp_exp_def)
  have p: "(2 :: rat) powi (- 53) = 1 / 2 ^ 53" by (simp add: power_int_def power_one_over)
  show ?thesis unfolding fl_def e p by simp
qed

text \<open>A value just below an integer is rounded up to it.\<close>

lemma fl_reach:
  assumes "1 \<le> y" and "y \<le> of_nat N" and "of_nat N - y < of_nat N / 2 ^ 54" and N: "N < 2 ^ 50"
  shows "fl y = of_nat N"
proof (cases "y = of_nat N")
  case True
  have "N < 2 ^ 53" using N by simp
  with True show ?thesis by (simp add: fl_nat)
next
  case False
  with assms(2) have less: "y < of_nat N" by simp
  have "(of_nat N :: rat) < 2 ^ 50" using N of_nat_less_iff [of N "2 ^ 50", where 'a = rat] by simp
  then have "of_nat N / 2 ^ 54 < (1 :: rat)" by simp
  with assms(3) have "of_nat N - 1 \<le> y" by simp
  with less have fy: "\<lfloor>y\<rfloor> = int N - 1" by (intro floor_unique) simp_all
  have N2: "2 \<le> N"
  proof -
    have "(of_nat 1 :: rat) < of_nat N" using assms(1) less by simp
    then have "1 < N" by (simp only: of_nat_less_iff)
    then show ?thesis by simp
  qed
  let ?k = "ilog2 (N - 1)"
  have "0 < N - 1" using N2 by simp
  from ilog2_bounds [OF this] have k: "2 ^ ?k \<le> N - 1" "N - 1 < 2 ^ Suc ?k" by blast+
  have "(2 :: nat) ^ ?k < 2 ^ 50" using k(1) N by linarith
  then have k50: "?k < 50" by (simp only: power_strict_increasing_iff one_less_numeral_iff semiring_norm)
  have e: "ulp_exp y = - int (52 - ?k)"
  proof -
    have "nat \<lfloor>\<bar>y\<bar>\<rfloor> = N - 1" using assms(1) fy by (simp add: nat_diff_distrib)
    with assms(1) k50 show ?thesis by (simp add: ulp_exp_def)
  qed
  let ?u = "2 ^ (52 - ?k) :: rat"
  have "N \<le> 2 ^ Suc ?k" using k(2) by linarith
  then have "(of_nat N :: rat) \<le> 2 ^ Suc ?k" using of_nat_le_iff [of N "2 ^ Suc ?k", where 'a = rat] by simp
  then have "of_nat N * ?u \<le> 2 ^ Suc ?k * ?u" by (intro mult_right_mono) simp_all
  also have "2 ^ Suc ?k * ?u = 2 ^ 53" using k50 by (simp flip: power_add)
  finally have top: "of_nat N * ?u \<le> 2 ^ 53" .
  have "(of_nat N - y) * ?u < of_nat N / 2 ^ 54 * ?u" using assms(3) by (intro mult_strict_right_mono) simp_all
  also have "\<dots> = of_nat N * ?u / 2 ^ 54" by simp
  also have "\<dots> \<le> 2 ^ 53 / 2 ^ 54" using top by (rule divide_right_mono) simp
  finally have near: "of_nat N * ?u - y * ?u < 1 / 2" by (simp add: left_diff_distrib)
  have "0 < (of_nat N - y) * ?u" using less by simp
  then have below: "y * ?u < of_nat N * ?u" by (simp add: left_diff_distrib)
  let ?M = "int N * 2 ^ (52 - ?k)"
  have M: "of_int ?M = of_nat N * ?u" by simp
  have "round_even (y * ?u) = ?M" using near below by (intro round_even_near) (simp only: M abs_less_iff, linarith)
  then have "fl y = of_int ?M / ?u"
    unfolding fl_def e by (simp add: power_int_minus divide_inverse)
  then show ?thesis unfolding M by simp
qed

lemma fl_factor:
  assumes "1 / 2 ^ 1000 \<le> q"
  shows "q * (1 - 1 / 2 ^ 53) \<le> fl q" and "fl q \<le> q * (1 + 1 / 2 ^ 53)" and "q / 2 \<le> fl q" and "0 < q"
proof -
  have "(1 :: rat) / 2 ^ 1022 \<le> 1 / 2 ^ 1000" "(0 :: rat) < 1 / 2 ^ 1000" by simp_all
  with assms show z: "0 < q" by linarith
  have "1 / 2 ^ 1022 \<le> q" using assms \<open>(1 :: rat) / 2 ^ 1022 \<le> 1 / 2 ^ 1000\<close> by linarith
  from fl_relative [OF this] show "q * (1 - 1 / 2 ^ 53) \<le> fl q" "fl q \<le> q * (1 + 1 / 2 ^ 53)" .
  then show "q / 2 \<le> fl q" using z by simp
qed

end
