(* ===== verification/Std_Parse.thy ===== *)
theory Std_Parse
  imports Std_Double Std_String
begin

text \<open>
  The readers of the C++ library the program uses, in the "C" locale: \<^verbatim>\<open>std::getline\<close> repeated to the
  end of a stream, \<^verbatim>\<open>std::stoull\<close> (and \<^verbatim>\<open>std::stoul\<close>, the same on a 64-bit target) and \<^verbatim>\<open>std::stod\<close>.  The
  two number readers skip white space, take an optional sign and ignore whatever follows the
  number; an exception is \<open>None\<close>.  \<^verbatim>\<open>stoull\<close> negates modulo \<open>2^64\<close>.  \<^verbatim>\<open>stod\<close> rounds the number once and
  throws when it overflows, or when it is subnormal and inexact (the range error of glibc).
\<close>

section \<open>Characters\<close>

definition is_digit :: "char \<Rightarrow> bool" where
  "is_digit c \<longleftrightarrow> 48 \<le> (of_char c :: nat) \<and> (of_char c :: nat) \<le> 57"

definition is_space :: "char \<Rightarrow> bool" where
  "is_space c \<longleftrightarrow> (of_char c :: nat) = 32 \<or> 9 \<le> (of_char c :: nat) \<and> (of_char c :: nat) \<le> 13"

definition lower :: "char \<Rightarrow> char" where
  "lower c = (if 65 \<le> (of_char c :: nat) \<and> (of_char c :: nat) \<le> 90 then char_of (of_char c + 32 :: nat) else c)"

definition is_xdigit :: "char \<Rightarrow> bool" where
  "is_xdigit c \<longleftrightarrow> is_digit c \<or> 97 \<le> (of_char (lower c) :: nat) \<and> (of_char (lower c) :: nat) \<le> 102"

definition xdigit_val :: "char \<Rightarrow> nat" where
  "xdigit_val c = (if is_digit c then digit_val c else of_char (lower c) - 87)"

definition read_xdigits :: "string \<Rightarrow> nat" where
  "read_xdigits s = foldl (\<lambda>n c. 16 * n + xdigit_val c) 0 s"

section \<open>Lines and tokens\<close>

function getlines :: "char \<Rightarrow> string \<Rightarrow> string list" where
  "getlines d [] = []"
| "getlines d (c # s) =
     takeWhile (\<lambda>x. x \<noteq> d) (c # s) # getlines d (drop (Suc (length (takeWhile (\<lambda>x. x \<noteq> d) (c # s)))) (c # s))"
  by pat_completeness auto
termination by (relation "measure (length \<circ> snd)") auto

declare getlines.simps(2) [simp del]

lemma getlines_token: "d \<notin> set t \<Longrightarrow> getlines d (t @ d # s) = t # getlines d s"
proof -
  assume t: "d \<notin> set t"
  then have "takeWhile (\<lambda>x. x \<noteq> d) (t @ d # s) = t" by (subst takeWhile_append2) auto
  then show ?thesis by (cases "t @ d # s"; cases t) (auto simp: getlines.simps(2))
qed

lemma getlines_last: "d \<notin> set t \<Longrightarrow> t \<noteq> [] \<Longrightarrow> getlines d t = [t]"
proof -
  assume t: "d \<notin> set t" "t \<noteq> []"
  then have "takeWhile (\<lambda>x. x \<noteq> d) t = t" by (intro takeWhile_all) auto
  with t show ?thesis by (cases t) (auto simp: getlines.simps(2))
qed

lemma getlines_cases:
  obtains "s = []" | "s \<noteq> []" "d \<notin> set s" | t u where "s = t @ d # u" "d \<notin> set t"
  using split_list_first [of d s] by blast

lemma getlines_no_delim: "t \<in> set (getlines d s) \<Longrightarrow> d \<notin> set t"
proof (induction d s rule: getlines.induct)
  case (2 d c s)
  then show ?case by (auto simp: getlines.simps(2) dest: set_takeWhileD)
qed simp

text \<open>Lines written one after the other, each with its terminator, are read back.\<close>

lemma getlines_unlines:
  "(\<And>l. l \<in> set ls \<Longrightarrow> d \<notin> set l) \<Longrightarrow> getlines d (concat (map (\<lambda>l. l @ [d]) ls)) = ls"
  by (induction ls) (auto simp: getlines_token)

section \<open>Numbers\<close>

definition read_sign :: "string \<Rightarrow> bool \<times> string" where
  "read_sign s =
     (case s of
        [] \<Rightarrow> (False, [])
      | c # t \<Rightarrow> if c = CHR ''-'' then (True, t) else if c = CHR ''+'' then (False, t) else (False, s))"

definition stoull :: "string \<Rightarrow> u64 option" where
  "stoull s =
     (let (neg, t) = read_sign (dropWhile is_space s);
          ds = takeWhile is_digit t;
          n = read_digits ds
      in if ds = [] \<or> 2 ^ 64 \<le> n then None
         else Some (if neg then - of_nat n else of_nat n))"

text \<open>Digits, an optional point and more digits: the value of all of them, the number of
  digits after the point, and the rest; \<open>None\<close> when there is no digit.\<close>

definition read_mantissa :: "(char \<Rightarrow> bool) \<Rightarrow> (string \<Rightarrow> nat) \<Rightarrow> string \<Rightarrow> (nat \<times> nat \<times> string) option" where
  "read_mantissa isd val s =
     (let ip = takeWhile isd s; t = dropWhile isd s;
          (fp, u) = (case t of c # t' \<Rightarrow> if c = CHR ''.'' then (takeWhile isd t', dropWhile isd t') else ([], t)
                             | [] \<Rightarrow> ([], t))
      in if ip @ fp = [] then None else Some (val (ip @ fp), length fp, u))"

definition read_exponent :: "char \<Rightarrow> string \<Rightarrow> int" where
  "read_exponent mark s =
     (case s of
        [] \<Rightarrow> 0
      | c # t \<Rightarrow> if lower c = mark
                 then (let (neg, u) = read_sign t; n = int (read_digits (takeWhile is_digit u))
                       in if neg then - n else n)
                 else 0)"

datatype number = Number rat | Inf_text | Nan_text

definition read_hex :: "string \<Rightarrow> rat option" where
  "read_hex s =
     (case s of
        a # x # t \<Rightarrow>
          if a = CHR ''0'' \<and> lower x = CHR ''x''
          then map_option (\<lambda>(m, k, u). of_nat m * 2 powi (read_exponent (CHR ''p'') u - 4 * int k))
                 (read_mantissa is_xdigit read_xdigits t)
          else None
      | _ \<Rightarrow> None)"

definition read_decimal :: "string \<Rightarrow> rat option" where
  "read_decimal s =
     map_option (\<lambda>(m, k, u). of_nat m * 10 powi (read_exponent (CHR ''e'') u - int k))
       (read_mantissa is_digit read_digits s)"

definition read_number :: "string \<Rightarrow> number option" where
  "read_number s =
     (if map lower (take 3 s) = ''inf'' then Some Inf_text
      else if map lower (take 3 s) = ''nan'' then Some Nan_text
      else case read_hex s of
             Some q \<Rightarrow> Some (Number q)
           | None \<Rightarrow> map_option Number (read_decimal s))"

definition range_error :: "rat \<Rightarrow> bool" where
  "range_error q \<longleftrightarrow>
     (case to_double q of
        Finite r \<Rightarrow> r \<noteq> q \<and> \<bar>q\<bar> < 1 / 2 ^ 1022 - 1 / 2 ^ 1076
      | _ \<Rightarrow> True)"

definition stod :: "string \<Rightarrow> double option" where
  "stod s =
     (let (neg, t) = read_sign (dropWhile is_space s)
      in case read_number t of
           None \<Rightarrow> None
         | Some Inf_text \<Rightarrow> Some (Infinity neg)
         | Some Nan_text \<Rightarrow> Some NotANumber
         | Some (Number q) \<Rightarrow>
             (let v = (if neg then - q else q) in if range_error v then None else Some (to_double v)))"

section \<open>Reading what was printed\<close>

lemma of_digit_char: "n < 10 \<Longrightarrow> (of_char (digit_char n) :: nat) = 48 + n"
  by (simp add: digit_char_def of_char_of)

lemma is_digit_char [simp]: "n < 10 \<Longrightarrow> is_digit (digit_char n)"
  by (simp add: is_digit_def of_digit_char)

lemma nat_digits_are_digits: "c \<in> set (nat_digits n) \<Longrightarrow> is_digit c"
proof (induction n rule: nat_digits.induct)
  case (1 n)
  then show ?case by (subst (asm) (2) nat_digits.simps) (auto split: if_splits)
qed

lemma is_digit_not:
  "is_digit c \<Longrightarrow> \<not> is_space c" "is_digit c \<Longrightarrow> c \<noteq> CHR ''-''" "is_digit c \<Longrightarrow> c \<noteq> CHR ''+''"
  "is_digit c \<Longrightarrow> c \<noteq> CHR '',''" "is_digit c \<Longrightarrow> c \<noteq> CHR ''.''"
  by (auto simp: is_digit_def is_space_def)

lemma not_digit_point: "\<not> is_digit (CHR ''.'')" "\<not> is_digit (CHR '','')"
  by (simp_all add: is_digit_def)

text \<open>A number that starts with a digit has neither white space nor a sign to skip.\<close>

lemma read_sign_digit:
  assumes "s \<noteq> []" and "is_digit (hd s)"
  shows "read_sign (dropWhile is_space s) = (False, s)"
  using assms is_digit_not(1-3) [of "hd s"] by (cases s) (auto simp: read_sign_def)

lemma all_digits: "\<forall>c\<in>set (nat_digits n). is_digit c"
  using nat_digits_are_digits by blast

lemma takeWhile_digits:
  assumes "\<forall>c\<in>set ds. is_digit c" and "r = [] \<or> \<not> is_digit (hd r)"
  shows "takeWhile is_digit (ds @ r) = ds" and "dropWhile is_digit (ds @ r) = r"
proof -
  from assms(2) have "takeWhile is_digit r = []" "dropWhile is_digit r = r" by (cases r; simp)+
  with assms(1) show "takeWhile is_digit (ds @ r) = ds" "dropWhile is_digit (ds @ r) = r"
    by (simp_all add: takeWhile_append dropWhile_append takeWhile_all)
qed

lemma stoull_to_string:
  assumes "r = [] \<or> \<not> is_digit (hd r)"
  shows "stoull (to_string_u64 x @ r) = Some x"
proof -
  have hd: "is_digit (hd (nat_digits (unat x) @ r))"
    using nat_digits_are_digits [of "hd (nat_digits (unat x))" "unat x"] by (simp add: hd_append)
  have "read_sign (dropWhile is_space (nat_digits (unat x) @ r)) = (False, nat_digits (unat x) @ r)"
    by (rule read_sign_digit [OF _ hd]) simp
  with takeWhile_digits(1) [OF all_digits assms] unat_u64_less [of x] show ?thesis
    by (simp add: stoull_def to_string_u64_def Let_def read_nat_digits)
qed

fun pad_digits :: "nat \<Rightarrow> nat \<Rightarrow> string" where
  "pad_digits 0 n = []"
| "pad_digits (Suc k) n = pad_digits k (n div 10) @ [digit_char (n mod 10)]"

lemma length_pad_digits [simp]: "length (pad_digits k n) = k"
  by (induction k arbitrary: n) auto

lemma pad_digits_are_digits: "c \<in> set (pad_digits k n) \<Longrightarrow> is_digit c"
  by (induction k arbitrary: n) auto

lemma read_pad_digits: "read_digits (s @ pad_digits k n) = read_digits s * 10 ^ k + n mod 10 ^ k"
proof (induction k arbitrary: n)
  case (Suc k)
  have "n mod 10 ^ Suc k = 10 * (n div 10 mod 10 ^ k) + n mod 10"
    by (simp add: mod_mult2_eq)
  moreover have "read_digits (s @ pad_digits (Suc k) n) = 10 * read_digits (s @ pad_digits k (n div 10)) + n mod 10"
    by (simp add: read_digits_def)
  ultimately show ?case by (simp only: Suc.IH) simp
qed simp

lemma stod_decimal:
  assumes r: "r = [] \<or> r = CHR '','' # r'"
    and range: "\<not> range_error (of_nat n / 10 ^ k)" and k: "0 < k"
  shows "stod (nat_digits (n div 10 ^ k) @ ''.'' @ pad_digits k n @ r) = Some (to_double (of_nat n / 10 ^ k))"
proof -
  let ?s = "nat_digits (n div 10 ^ k) @ ''.'' @ pad_digits k n @ r"
  obtain c t where ct: "nat_digits (n div 10 ^ k) = c # t" using nat_digits_not_Nil by (cases "nat_digits (n div 10 ^ k)") auto
  then have dc: "is_digit c" using nat_digits_are_digits [of c "n div 10 ^ k"] by simp
  then have sgn: "read_sign (dropWhile is_space ?s) = (False, ?s)" by (intro read_sign_digit) (simp_all add: ct)
  have lc: "lower c \<noteq> CHR ''i''" "lower c \<noteq> CHR ''n''" using dc by (auto simp: lower_def is_digit_def)
  have d1: "takeWhile is_digit ?s = nat_digits (n div 10 ^ k)" "dropWhile is_digit ?s = ''.'' @ pad_digits k n @ r"
    using takeWhile_digits [OF all_digits, where r = "''.'' @ pad_digits k n @ r"]
    by (simp_all add: not_digit_point)
  have rd: "r = [] \<or> \<not> is_digit (hd r)" using r by (auto simp: is_digit_def)
  have d2: "takeWhile is_digit (pad_digits k n @ r) = pad_digits k n" "dropWhile is_digit (pad_digits k n @ r) = r"
    using takeWhile_digits [OF _ rd, of "pad_digits k n"] pad_digits_are_digits by blast+
  have v: "read_digits (nat_digits (n div 10 ^ k) @ pad_digits k n) = n"
    using div_mult_mod_eq [of n "10 ^ k"] by (simp add: read_pad_digits read_nat_digits)
  have m: "read_mantissa is_digit read_digits ?s = Some (n, k, r)"
    unfolding read_mantissa_def Let_def d1 using d2 v by simp
  have e: "read_exponent (CHR ''e'') r = 0" using r by (auto simp: read_exponent_def lower_def)
  have dec: "read_decimal ?s = Some (of_nat n / 10 ^ k)"
    unfolding read_decimal_def m by (simp add: e power_int_minus divide_inverse)
  have nx: "lower (hd (t @ ''.'')) \<noteq> CHR ''x''"
  proof (cases t)
    case (Cons c' t')
    then have "is_digit c'" using nat_digits_are_digits [of c' "n div 10 ^ k"] ct by simp
    with Cons show ?thesis by (auto simp: lower_def is_digit_def)
  qed (simp add: lower_def)
  have hex: "read_hex ?s = None"
    using nx by (cases t) (simp_all add: read_hex_def ct)
  have "read_number ?s = Some (Number (of_nat n / 10 ^ k))"
    unfolding read_number_def using dec hex lc by (simp add: ct)
  then show ?thesis using range by (simp only: stod_def sgn) simp
qed

lemma stod_integer:
  assumes range: "\<not> range_error (of_nat n)"
  shows "stod (nat_digits n) = Some (to_double (of_nat n))"
proof -
  let ?s = "nat_digits n"
  obtain c t where ct: "?s = c # t" using nat_digits_not_Nil by (cases ?s) auto
  then have dc: "is_digit c" using nat_digits_are_digits [of c n] by simp
  then have sgn: "read_sign (dropWhile is_space ?s) = (False, ?s)" by (intro read_sign_digit) (simp_all add: ct)
  have lc: "lower c \<noteq> CHR ''i''" "lower c \<noteq> CHR ''n''" using dc by (auto simp: lower_def is_digit_def)
  have d1: "takeWhile is_digit ?s = ?s" "dropWhile is_digit ?s = []"
    using takeWhile_digits [OF all_digits [of n], of "[]"] by simp_all
  have m: "read_mantissa is_digit read_digits ?s = Some (n, 0, [])"
    unfolding read_mantissa_def Let_def d1 by (simp add: read_nat_digits)
  have dec: "read_decimal ?s = Some (of_nat n)"
    unfolding read_decimal_def m by (simp add: read_exponent_def)
  have hex: "read_hex ?s = None"
  proof (cases t)
    case (Cons c' t')
    then have "is_digit c'" using nat_digits_are_digits [of c' n] ct by simp
    then have "lower c' \<noteq> CHR ''x''" by (auto simp: lower_def is_digit_def)
    with Cons show ?thesis by (simp add: read_hex_def ct)
  qed (simp add: read_hex_def ct)
  have "read_number ?s = Some (Number (of_nat n))"
    unfolding read_number_def using dec hex lc by (simp add: ct)
  then show ?thesis using range by (simp only: stod_def sgn) simp
qed

end
