(* ===== verification/Fixed_Price.thy ===== *)
theory Fixed_Price
  imports Std_Double Core_Types
begin

text \<open>
  The price conversions of \<^verbatim>\<open>include/core/Types.hpp\<close> between a \<^verbatim>\<open>double\<close> and the fixed-point price in
  ten-thousandths, and how far they undo each other.
\<close>

definition PRICE_SCALE :: int where
  "PRICE_SCALE = 10000"

definition toFixedPrice :: "double \<Rightarrow> Price option" where
  "toFixedPrice p = dbl_to_i64 (dbl_apply (\<lambda>x. x + 1 / 2) (dbl_apply (\<lambda>x. x * of_int PRICE_SCALE) p))"

definition fromFixedPrice :: "Price \<Rightarrow> double" where
  "fromFixedPrice p = dbl_apply (\<lambda>x. x / of_int PRICE_SCALE) (i64_to_dbl p)"

section \<open>From a decimal price to its fixed-point form\<close>

lemma near_middle:
  assumes "\<bar>b - (of_int n + 1 / 2)\<bar> < (1 / 2 :: rat)"
  shows "trunc_rat b = (if 0 \<le> n then n else n + 1)"
proof -
  from assms have b: "of_int n < b" "b < of_int n + 1" unfolding abs_less_iff by linarith+
  show ?thesis
  proof (cases "0 \<le> n")
    case True
    then have "0 \<le> (of_int n :: rat)" by simp
    with b have "\<not> b < 0" by linarith
    moreover have "\<lfloor>b\<rfloor> = n" using b by (intro floor_unique) simp_all
    ultimately show ?thesis using True by (simp add: trunc_rat_def)
  next
    case False
    then have "of_int n + 1 \<le> (0 :: rat)" by simp
    with b have "b < 0" by linarith
    moreover have "\<lceil>b\<rceil> = n + 1" using b by (intro ceiling_unique) simp_all
    ultimately show ?thesis using False by (simp add: trunc_rat_def)
  qed
qed

text \<open>
  Two roundings, of the decimal and of its product with the scale, stay within a fifth of the
  integer; adding one half then lands strictly between it and the next one.
\<close>

lemma normal_rat: "1 / 20000 \<le> y \<Longrightarrow> 1 / 2 ^ 1022 \<le> y" for y :: rat
proof -
  have "(1 :: rat) / 2 ^ 1022 \<le> 1 / 20000" by simp
  then show "1 / 20000 \<le> y \<Longrightarrow> 1 / 2 ^ 1022 \<le> y" by linarith
qed

lemma finite_rat: "y \<le> 2 ^ 60 \<Longrightarrow> y \<le> 2 ^ 1022" for y :: rat
proof -
  have "(2 :: rat) ^ 60 \<le> 2 ^ 1022" by simp
  then show "y \<le> 2 ^ 60 \<Longrightarrow> y \<le> 2 ^ 1022" by linarith
qed

lemma of_int_at_most: "\<bar>n\<bar> \<le> 2 ^ 49 \<Longrightarrow> \<bar>of_int n :: rat\<bar> \<le> 2 ^ 49"
  using of_int_le_iff [of "\<bar>n\<bar>" "2 ^ 49", where 'a = rat] by simp

lemma of_int_at_least: "n \<noteq> 0 \<Longrightarrow> 1 \<le> \<bar>of_int n :: rat\<bar>"
proof -
  assume "n \<noteq> 0"
  then have "1 \<le> \<bar>n\<bar>" by simp
  then show ?thesis using of_int_le_iff [of 1 "\<bar>n\<bar>", where 'a = rat] by simp
qed

lemma two_roundings:
  assumes "\<bar>n\<bar> \<le> 2 ^ 49" and "n \<noteq> 0"
  shows "to_double (of_int n / of_int PRICE_SCALE) = Finite (fl (of_int n / 10000))"
    and "to_double (fl (of_int n / 10000) * 10000) = Finite (fl (fl (of_int n / 10000) * 10000))"
    and "\<bar>fl (fl (of_int n / 10000) * 10000) - of_int n\<bar> \<le> 1 / 5"
proof -
  let ?x = "of_int n / 10000 :: rat"
  note hi = of_int_at_most [OF assms(1)] and lo = of_int_at_least [OF assms(2)]
  have x: "\<bar>?x\<bar> = \<bar>of_int n\<bar> / 10000" by simp
  have x1: "1 / 2 ^ 1022 \<le> \<bar>?x\<bar>" using lo x by (intro normal_rat) simp
  have "\<bar>?x\<bar> \<le> 2 ^ 1022" using hi x by (intro finite_rat) simp
  from to_double_small [OF this disjI2 [OF x1]]
  show "to_double (of_int n / of_int PRICE_SCALE) = Finite (fl ?x)" by (simp add: PRICE_SCALE_def)
  have d1: "\<bar>fl ?x * 10000 - of_int n\<bar> \<le> \<bar>of_int n\<bar> / 2 ^ 53"
    using fl_error [OF x1] x by (simp add: abs_le_iff field_simps)
  then have y: "\<bar>fl ?x * 10000\<bar> \<le> 2 * \<bar>of_int n\<bar>" "\<bar>of_int n\<bar> / 2 \<le> \<bar>fl ?x * 10000\<bar>"
    by (simp_all add: abs_if split: if_splits)
  have y1: "1 / 2 ^ 1022 \<le> \<bar>fl ?x * 10000\<bar>" using lo y(2) by (intro normal_rat) linarith
  have "\<bar>fl ?x * 10000\<bar> \<le> 2 ^ 1022" using hi y(1) by (intro finite_rat) simp
  from to_double_small [OF this disjI2 [OF y1]]
  show "to_double (fl ?x * 10000) = Finite (fl (fl ?x * 10000))" .
  have "\<bar>fl ?x * 10000\<bar> / 2 ^ 53 \<le> 2 * \<bar>of_int n\<bar> / 2 ^ 53" using y(1) by (intro divide_right_mono) simp_all
  then have "\<bar>fl (fl ?x * 10000) - of_int n\<bar> \<le> \<bar>of_int n\<bar> / 2 ^ 53 + 2 * \<bar>of_int n\<bar> / 2 ^ 53"
    using fl_error [OF y1] d1 abs_triangle_ineq [of "fl (fl ?x * 10000) - fl ?x * 10000" "fl ?x * 10000 - of_int n"]
    unfolding diff_add_cancel add_diff_eq by linarith
  also have "\<dots> \<le> 1 / 5" using hi by simp
  finally show "\<bar>fl (fl ?x * 10000) - of_int n\<bar> \<le> 1 / 5" .
qed

lemma two_roundings_zero: "to_double (0 / of_int PRICE_SCALE) = Finite 0" "to_double (0 * 10000) = Finite 0"
  using fl_int [of 0] by (simp_all add: to_double_def)

lemma add_half:
  assumes n: "\<bar>n\<bar> \<le> 2 ^ 49" and a: "\<bar>a - of_int n\<bar> \<le> 1 / 5"
  shows "dbl_to_i64 (to_double (a + 1 / 2)) = Some (I64 (of_int (if 0 \<le> n then n else n + 1)))"
proof -
  let ?b = "a + 1 / 2"
  have "n \<le> - 1 \<or> 0 \<le> n" by linarith
  then have s: "of_int n \<le> (- 1 :: rat) \<or> 0 \<le> (of_int n :: rat)"
    using of_int_le_iff [of n "- 1", where 'a = rat] by auto
  have b: "1 / 20000 \<le> \<bar>?b\<bar>" "\<bar>?b\<bar> \<le> 2 ^ 50"
    using a s of_int_at_most [OF n] by (auto simp: abs_if split: if_splits)
  have "\<bar>?b\<bar> \<le> 2 ^ 1022" using b(2) by (intro finite_rat) simp
  note d = to_double_small [OF this disjI2 [OF normal_rat [OF b(1)]]]
  have "\<bar>fl ?b - ?b\<bar> \<le> 1 / 8" using fl_error [OF normal_rat [OF b(1)]] b(2) by simp
  then have "\<bar>fl ?b - (of_int n + 1 / 2)\<bar> < 1 / 2"
    using a abs_triangle_ineq [of "fl ?b - ?b" "a - of_int n"] by (simp add: algebra_simps)
  note tr = near_middle [OF this]
  have r: "- (2 ^ 63) \<le> (if 0 \<le> n then n else n + 1)" "(if 0 \<le> n then n else n + 1) < 2 ^ 63"
    using n by auto
  show ?thesis unfolding d using r by (simp add: dbl_to_i64_def tr Let_def)
qed

lemma toFixedPrice_decimal:
  assumes "\<bar>n\<bar> \<le> 2 ^ 49"
  shows "toFixedPrice (to_double (of_int n / of_int PRICE_SCALE)) = Some (I64 (of_int (if 0 \<le> n then n else n + 1)))"
proof (cases "n = 0")
  case True
  with two_roundings_zero add_half [OF assms, of 0] show ?thesis
    by (simp add: toFixedPrice_def dbl_apply_def)
next
  case False
  note t = two_roundings [OF assms False]
  show ?thesis
    unfolding toFixedPrice_def t(1) using t(2) add_half [OF assms t(3)] by (simp add: dbl_apply_def PRICE_SCALE_def)
qed

lemma fromFixedPrice_decimal:
  assumes "\<bar>i64_val p\<bar> < 2 ^ 53"
  shows "fromFixedPrice p = to_double (of_int (i64_val p) / of_int PRICE_SCALE)"
proof -
  have f: "fl (of_int (i64_val p)) = of_int (i64_val p)" by (rule fl_int [OF assms])
  have "(of_int \<bar>i64_val p\<bar> :: rat) < of_int (2 ^ 53)" using assms by (simp only: of_int_less_iff)
  then have "\<bar>of_int (i64_val p) :: rat\<bar> < 2 ^ 1024"
  proof -
    assume "(of_int \<bar>i64_val p\<bar> :: rat) < of_int (2 ^ 53)"
    moreover have "(of_int (2 ^ 53) :: rat) \<le> 2 ^ 1024" by simp
    ultimately show ?thesis unfolding of_int_abs by linarith
  qed
  then show ?thesis by (simp add: fromFixedPrice_def i64_to_dbl_def to_double_def [of "of_int _"] f dbl_apply_def)
qed

end
