(* ===== verification/Csv_Parser.thy ===== *)
theory Csv_Parser
  imports Std_Parse Fixed_Price
begin

text \<open>
  \<^verbatim>\<open>include/parser/CsvParser.hpp\<close> and \<^verbatim>\<open>src/parser/CsvParser.cpp\<close>.  \<open>parseLine\<close> returns \<open>Some None\<close> where
  the code returns \<^verbatim>\<open>nullopt\<close>, also after an exception, and \<open>None\<close> where converting the price to an
  integer is undefined behaviour.  The order is the object the code allocates; its client
  decides where it lives.  A file is its contents, \<open>None\<close> when it cannot be opened.
\<close>

record ParseError =
  perr_line :: u64
  perr_message :: string

record ParseResult =
  pr_orders :: "Order list"
  pr_errors :: "ParseError list"

definition csv_split :: "string \<Rightarrow> char \<Rightarrow> string list" where
  "csv_split s delim = getlines delim s"

definition parse_side :: "string \<Rightarrow> Side option" where
  "parse_side f = (if f = ''BUY'' then Some BUY else if f = ''SELL'' then Some SELL else None)"

definition parse_type :: "string \<Rightarrow> OrderType option" where
  "parse_type f =
     (if f = ''LIMIT'' then Some LIMIT
      else if f = ''MARKET'' then Some MARKET
      else if f = ''CANCEL'' then Some CANCEL
      else if f = ''IOC'' then Some IOC
      else if f = ''FOK'' then Some FOK
      else None)"

definition parseLine :: "string \<Rightarrow> u64 \<Rightarrow> Order option option" where
  "parseLine line lineNum =
     (let fields = csv_split line (CHR '','')
      in if length fields < 7 then Some None
         else case stoull (fields ! 0) of None \<Rightarrow> Some None | Some ts \<Rightarrow>
              case stoull (fields ! 1) of None \<Rightarrow> Some None | Some i \<Rightarrow>
              (let sym = fields ! 2
               in case parse_side (fields ! 3) of None \<Rightarrow> Some None | Some side \<Rightarrow>
                  case parse_type (fields ! 4) of None \<Rightarrow> Some None | Some type \<Rightarrow>
                  case stod (fields ! 5) of None \<Rightarrow> Some None | Some p \<Rightarrow>
                  case toFixedPrice p of None \<Rightarrow> None | Some price \<Rightarrow>
                  case stoull (fields ! 6) of None \<Rightarrow> Some None | Some qty \<Rightarrow>
                  Some (Some (Order_new i sym side type price qty ts))))"

fun parse_lines :: "string list \<Rightarrow> u64 \<Rightarrow> bool \<Rightarrow> ParseResult \<Rightarrow> ParseResult option" where
  "parse_lines [] lineNum headerSkipped result = Some result"
| "parse_lines (line # rest) lineNum headerSkipped result =
     (let lineNum = lineNum + 1
      in if line = [] then parse_lines rest lineNum headerSkipped result
         else if \<not> headerSkipped then parse_lines rest lineNum True result
         else case parseLine line lineNum of
                None \<Rightarrow> None
              | Some (Some order) \<Rightarrow>
                  parse_lines rest lineNum headerSkipped (result\<lparr>pr_orders := pr_orders result @ [order]\<rparr>)
              | Some None \<Rightarrow>
                  parse_lines rest lineNum headerSkipped
                    (result\<lparr>pr_errors := pr_errors result @
                       [\<lparr>perr_line = lineNum, perr_message = ''failed to parse: '' @ line\<rparr>]\<rparr>))"

definition parseFile :: "(string \<Rightarrow> string option) \<Rightarrow> string \<Rightarrow> ParseResult option" where
  "parseFile files path =
     (case files path of
        None \<Rightarrow> Some \<lparr>pr_orders = [], pr_errors = [\<lparr>perr_line = 0, perr_message = ''cannot open file: '' @ path\<rparr>]\<rparr>
      | Some text \<Rightarrow> parse_lines (getlines (CHR 0x0A) text) 0 False \<lparr>pr_orders = [], pr_errors = []\<rparr>)"

section \<open>What parsing a file amounts to\<close>

text \<open>The numbered lines that are neither empty nor the header, which is the first non-empty one.\<close>

definition numbered :: "u64 \<Rightarrow> string list \<Rightarrow> (u64 \<times> string) list" where
  "numbered n ls = filter (\<lambda>(k, l). l \<noteq> []) (zip (map (\<lambda>i. n + 1 + of_nat i) [0..<length ls]) ls)"

definition line_orders :: "(u64 \<times> string) list \<Rightarrow> Order list" where
  "line_orders xs = concat (map (\<lambda>(k, l). case parseLine l k of Some (Some x) \<Rightarrow> [x] | _ \<Rightarrow> []) xs)"

definition line_errors :: "(u64 \<times> string) list \<Rightarrow> ParseError list" where
  "line_errors xs = concat (map (\<lambda>(k, l). case parseLine l k of
       Some None \<Rightarrow> [\<lparr>perr_line = k, perr_message = ''failed to parse: '' @ l\<rparr>] | _ \<Rightarrow> []) xs)"

definition lines_defined :: "(u64 \<times> string) list \<Rightarrow> bool" where
  "lines_defined xs \<longleftrightarrow> list_all (\<lambda>(k, l). parseLine l k \<noteq> None) xs"

lemma numbered_simps:
  "numbered n [] = []"
  "numbered n (l # ls) = (if l = [] then numbered (n + 1) ls else (n + 1, l) # numbered (n + 1) ls)"
  by (simp_all add: numbered_def upt_conv_Cons map_Suc_upt [symmetric] o_def add.commute add.left_commute del: upt_Suc)

lemma line_simps:
  "line_orders [] = []" "line_errors [] = []" "lines_defined []"
  "line_orders ((k, l) # xs) = (case parseLine l k of Some (Some x) \<Rightarrow> [x] | _ \<Rightarrow> []) @ line_orders xs"
  "line_errors ((k, l) # xs) = (case parseLine l k of
       Some None \<Rightarrow> [\<lparr>perr_line = k, perr_message = ''failed to parse: '' @ l\<rparr>] | _ \<Rightarrow> []) @ line_errors xs"
  "lines_defined ((k, l) # xs) \<longleftrightarrow> parseLine l k \<noteq> None \<and> lines_defined xs"
  by (simp_all add: line_orders_def line_errors_def lines_defined_def)

lemma parse_lines_body:
  "parse_lines ls n True res =
     (if lines_defined (numbered n ls)
      then Some (res\<lparr>pr_orders := pr_orders res @ line_orders (numbered n ls),
                     pr_errors := pr_errors res @ line_errors (numbered n ls)\<rparr>)
      else None)"
  by (induction ls arbitrary: n res) (auto simp: numbered_simps line_simps Let_def split: option.splits)

lemma parse_lines_header:
  "parse_lines ls n False res =
     (let body = tl (numbered n ls)
      in if lines_defined body
         then Some (res\<lparr>pr_orders := pr_orders res @ line_orders body, pr_errors := pr_errors res @ line_errors body\<rparr>)
         else None)"
  by (induction ls arbitrary: n) (simp_all add: numbered_simps line_simps Let_def parse_lines_body)

lemma line_counts:
  "lines_defined xs \<Longrightarrow> length (line_orders xs) + length (line_errors xs) = length xs"
  by (induction xs) (auto simp: line_simps split: option.splits)

section \<open>The documented line format\<close>

fun side_text :: "Side \<Rightarrow> string" where
  "side_text BUY = ''BUY''"
| "side_text SELL = ''SELL''"

fun type_text :: "OrderType \<Rightarrow> string" where
  "type_text LIMIT = ''LIMIT''"
| "type_text MARKET = ''MARKET''"
| "type_text CANCEL = ''CANCEL''"
| "type_text IOC = ''IOC''"
| "type_text FOK = ''FOK''"

text \<open>A price with \<open>k\<close> decimals, without a point when there are none.\<close>

definition price_text :: "nat \<Rightarrow> Price \<Rightarrow> string" where
  "price_text k p =
     (let n = nat (i64_val p) * 10 ^ k div 10 ^ 4
      in nat_digits (n div 10 ^ k) @ (if k = 0 then '''' else ''.'' @ pad_digits k n))"

definition csv_text :: "nat \<Rightarrow> Order \<Rightarrow> string" where
  "csv_text k x =
     to_string_u64 (otimestamp x) @ '','' @ to_string_u64 (oid x) @ '','' @ osymbol x @ '','' @
     side_text (oside x) @ '','' @ type_text (otype x) @ '','' @ price_text k (oprice x) @ '','' @
     to_string_u64 (oquantity x)"

text \<open>With \<open>k\<close> decimals every digit of the price is written.\<close>

definition enough_decimals :: "nat \<Rightarrow> Order \<Rightarrow> bool" where
  "enough_decimals k x \<longleftrightarrow> 10 ^ 4 dvd nat (i64_val (oprice x)) * 10 ^ k"

definition csv_line :: "Order \<Rightarrow> string" where
  "csv_line x = csv_text 4 x"

text \<open>An order a line can carry: a new one, its symbol without separators, its price from 0 to \<open>2^49\<close>.\<close>

definition csv_order :: "Order \<Rightarrow> bool" where
  "csv_order x \<longleftrightarrow>
     CHR '','' \<notin> set (osymbol x) \<and> CHR 0x0A \<notin> set (osymbol x) \<and>
     0 \<le> i64_val (oprice x) \<and> i64_val (oprice x) \<le> 2 ^ 49 \<and> ofilledQty x = 0 \<and> ostatus x = PENDING"

lemma digits_no_comma:
  "CHR '','' \<notin> set (to_string_u64 i)" "CHR '','' \<notin> set (price_text k p)"
  "CHR 0x0A \<notin> set (to_string_u64 i)" "CHR 0x0A \<notin> set (price_text k p)"
  by (auto simp: to_string_u64_def price_text_def Let_def is_digit_def
      dest!: nat_digits_are_digits pad_digits_are_digits)

lemma text_no_comma:
  "CHR '','' \<notin> set (side_text s)" "CHR '','' \<notin> set (type_text t)"
  "CHR 0x0A \<notin> set (side_text s)" "CHR 0x0A \<notin> set (type_text t)"
  by (cases s; cases t; simp)+

lemma parse_texts: "parse_side (side_text s) = Some s" "parse_type (type_text t) = Some t"
  by (cases s; simp add: parse_side_def) (cases t; simp add: parse_type_def)

lemma to_string_not_Nil: "to_string_u64 i \<noteq> []"
  by (simp add: to_string_u64_def)

lemma csv_text_fields:
  assumes "CHR '','' \<notin> set (osymbol x)"
  shows "csv_split (csv_text k x) (CHR '','') =
    [to_string_u64 (otimestamp x), to_string_u64 (oid x), osymbol x, side_text (oside x), type_text (otype x),
     price_text k (oprice x), to_string_u64 (oquantity x)]"
  using assms by (simp add: csv_split_def csv_text_def getlines_token getlines_last digits_no_comma text_no_comma to_string_not_Nil)

lemma no_range_error:
  assumes "n \<le> 2 ^ 49" shows "\<not> range_error (of_nat n / 10 ^ 4)"
proof (cases "n = 0")
  case True
  with two_roundings_zero show ?thesis by (simp add: range_error_def)
next
  case False
  have "\<bar>int n\<bar> \<le> 2 ^ 49" using assms by (simp flip: of_nat_le_iff)
  from two_roundings(1) [OF this] False
  have "to_double (of_nat n / 10 ^ 4) = Finite (fl (of_nat n / 10000))" by (simp add: PRICE_SCALE_def)
  moreover have "(1 :: rat) \<le> of_nat n" using False by simp
  then have "1 / 20000 \<le> (of_nat n / 10 ^ 4 :: rat)" by simp
  then have "\<not> \<bar>of_nat n / 10 ^ 4 :: rat\<bar> < 1 / 2 ^ 1022 - 1 / 2 ^ 1076"
    using normal_rat [of "of_nat n / 10 ^ 4"] by (simp add: not_less)
  ultimately show ?thesis by (simp add: range_error_def)
qed

lemma price_text_read:
  assumes "0 \<le> i64_val p" and "i64_val p \<le> 2 ^ 49" and "10 ^ 4 dvd nat (i64_val p) * 10 ^ k"
  shows "\<exists>d. stod (price_text k p) = Some d \<and> toFixedPrice d = Some p"
proof -
  let ?n = "nat (i64_val p)"
  have n: "?n \<le> 2 ^ 49" "\<bar>i64_val p\<bar> \<le> 2 ^ 49" using assms by simp_all
  have e: "(of_nat ?n :: rat) / 10 ^ 4 = of_int (i64_val p) / of_int PRICE_SCALE"
    using assms(1) by (simp add: PRICE_SCALE_def)
  let ?m = "?n * 10 ^ k div 10 ^ 4"
  have "of_nat ?m * (10 :: rat) ^ 4 = of_nat (?m * 10 ^ 4)" by simp
  also have "?m * 10 ^ 4 = ?n * 10 ^ k" using assms(3) by (simp only: dvd_div_mult_self)
  finally have m: "of_nat ?m / 10 ^ k = (of_nat ?n / 10 ^ 4 :: rat)" by (simp add: field_simps)
  have "stod (price_text k p) = Some (to_double (of_nat ?n / 10 ^ 4))"
  proof (cases "k = 0")
    case True
    with m have z: "of_nat ?m = (of_nat ?n / 10 ^ 4 :: rat)" by simp
    have "stod (nat_digits ?m) = Some (to_double (of_nat ?n / 10 ^ 4))"
      using stod_integer [of ?m] no_range_error [OF n(1)] unfolding z by blast
    then show ?thesis using True by (simp add: price_text_def Let_def)
  next
    case False
    from stod_decimal [of "[]" _ ?m k] False no_range_error [OF n(1)] show ?thesis
      unfolding m by (simp add: price_text_def Let_def)
  qed
  moreover have "toFixedPrice (to_double (of_nat ?n / 10 ^ 4)) = Some p"
    unfolding e using toFixedPrice_decimal [OF n(2)] assms(1) by (simp add: i64_of_val)
  ultimately show ?thesis by blast
qed

lemma parse_csv_text:
  assumes "csv_order x" and "enough_decimals k x" shows "parseLine (csv_text k x) n = Some (Some x)"
proof -
  from assms(1) have sym: "CHR '','' \<notin> set (osymbol x)" and p: "0 \<le> i64_val (oprice x)" "i64_val (oprice x) \<le> 2 ^ 49"
    and new: "ofilledQty x = 0" "ostatus x = PENDING" by (simp_all add: csv_order_def)
  from price_text_read [OF p assms(2) [unfolded enough_decimals_def]] obtain d where
    d: "stod (price_text k (oprice x)) = Some d" "toFixedPrice d = Some (oprice x)"
    by blast
  have u: "stoull (to_string_u64 i) = Some i" for i using stoull_to_string [of "[]" i] by simp
  have "x = Order_new (oid x) (osymbol x) (oside x) (otype x) (oprice x) (oquantity x) (otimestamp x)"
    using new by (simp add: Order_new_def)
  then show ?thesis
    unfolding parseLine_def csv_text_fields [OF sym] by (simp add: u parse_texts d)
qed

lemma csv_text_newline: "csv_order x \<Longrightarrow> CHR 0x0A \<notin> set (csv_text k x)"
  by (simp add: csv_order_def csv_text_def digits_no_comma text_no_comma)

lemma csv_text_not_Nil: "csv_text k x \<noteq> []"
  by (simp add: csv_text_def to_string_not_Nil)

lemma parse_csv_line: "csv_order x \<Longrightarrow> parseLine (csv_line x) n = Some (Some x)"
  unfolding csv_line_def by (rule parse_csv_text) (simp_all add: enough_decimals_def)

lemma csv_line_newline: "csv_order x \<Longrightarrow> CHR 0x0A \<notin> set (csv_line x)"
  unfolding csv_line_def by (rule csv_text_newline)

lemma csv_line_not_Nil: "csv_line x \<noteq> []"
  unfolding csv_line_def by (rule csv_text_not_Nil)

end
