(* ===== verification/Std_Stream.thy ===== *)
theory Std_Stream
  imports Std_Parse
begin

text \<open>
  Output streams.  A \<^verbatim>\<open>double\<close> is printed in the notation the stream is set to: the default one
  (six significant digits, like \<^verbatim>\<open>%g\<close>) or \<^verbatim>\<open>std::fixed\<close> with a precision, both rounding the exact
  binary value to nearest, ties to even.  \<open>io\<close> is what the process has written to its two streams, with the
  format flags of \<^verbatim>\<open>std::cout\<close>, which stay as the last insertion left them.
\<close>

section \<open>Printing doubles\<close>

definition print_fixed_rat :: "nat \<Rightarrow> rat \<Rightarrow> string" where
  "print_fixed_rat prec q =
     (let m = nat (round_even (\<bar>q\<bar> * 10 ^ prec))
      in (if q < 0 then ''-'' else '''') @ nat_digits (m div 10 ^ prec) @
         (if prec = 0 then '''' else ''.'' @ pad_digits prec m))"

text \<open>The decimal exponent of a non-zero double: its absolute value is at least \<open>10^-324\<close>.\<close>

definition dec_exp :: "rat \<Rightarrow> int" where
  "dec_exp q =
     (if 1 \<le> \<bar>q\<bar> then int (length (nat_digits (nat \<lfloor>\<bar>q\<bar>\<rfloor>))) - 1
      else int (length (nat_digits (nat \<lfloor>\<bar>q\<bar> * 10 ^ 400\<rfloor>))) - 401)"

definition strip_zeros :: "string \<Rightarrow> string" where
  "strip_zeros s = rev (dropWhile (\<lambda>c. c = CHR ''0'') (rev s))"

definition with_point :: "string \<Rightarrow> string \<Rightarrow> string" where
  "with_point ip fp = (let f = strip_zeros fp in if f = [] then ip else ip @ ''.'' @ f)"

definition print_exponent :: "int \<Rightarrow> string" where
  "print_exponent x =
     (if x < 0 then ''e-'' else ''e+'') @
     (if \<bar>x\<bar> < 10 then ''0'' else '''') @ nat_digits (nat \<bar>x\<bar>)"

definition print_general_rat :: "nat \<Rightarrow> rat \<Rightarrow> string" where
  "print_general_rat prec q =
     (if q = 0 then ''0''
      else let p = max 1 prec;
               x0 = dec_exp q;
               m0 = nat (round_even (\<bar>q\<bar> / 10 powi (x0 - int (p - 1))));
               (x, m) = (if m0 = 10 ^ p then (x0 + 1, 10 ^ (p - 1)) else (x0, m0));
               sgn = (if q < 0 then ''-'' else '''')
           in if - 4 \<le> x \<and> x < int p
              then (let k = nat (int (p - 1) - x)
                    in sgn @ with_point (nat_digits (m div 10 ^ k)) (pad_digits k m))
              else sgn @ with_point (nat_digits (m div 10 ^ (p - 1))) (pad_digits (p - 1) m) @ print_exponent x)"

definition print_double :: "bool \<Rightarrow> nat \<Rightarrow> double \<Rightarrow> string" where
  "print_double fixed prec d =
     (case d of
        Finite q \<Rightarrow> if fixed then print_fixed_rat prec q else print_general_rat prec q
      | Infinity neg \<Rightarrow> if neg then ''-inf'' else ''inf''
      | NotANumber \<Rightarrow> ''nan'')"

text \<open>\<^verbatim>\<open>std::left << std::setw(n)\<close> on a string.\<close>

definition setw_left :: "nat \<Rightarrow> string \<Rightarrow> string" where
  "setw_left n s = s @ replicate (n - length s) (CHR '' '')"

lemma setw_left_length [simp]: "length (setw_left n s) = max n (length s)"
  by (simp add: setw_left_def)

section \<open>The standard streams\<close>

record io =
  io_out :: string
  io_err :: string
  io_fixed :: bool
  io_prec :: nat

definition io_start :: io where
  "io_start = \<lparr>io_out = [], io_err = [], io_fixed = False, io_prec = 6\<rparr>"

abbreviation newline :: string where
  "newline \<equiv> [CHR 0x0A]"

definition put :: "string \<Rightarrow> io \<Rightarrow> io" where
  "put s i = i\<lparr>io_out := io_out i @ s\<rparr>"

definition put_err :: "string \<Rightarrow> io \<Rightarrow> io" where
  "put_err s i = i\<lparr>io_err := io_err i @ s\<rparr>"

definition put_double :: "double \<Rightarrow> io \<Rightarrow> io" where
  "put_double d i = put (print_double (io_fixed i) (io_prec i) d) i"

text \<open>\<^verbatim>\<open>std::cout << std::fixed << std::setprecision(n)\<close>\<close>

definition set_fixed :: "nat \<Rightarrow> io \<Rightarrow> io" where
  "set_fixed n i = i\<lparr>io_fixed := True, io_prec := n\<rparr>"

lemma put_put [simp]: "put s (put t i) = put (t @ s) i"
  by (simp add: put_def)

lemma io_put [simp]:
  "io_out (put s i) = io_out i @ s" "io_err (put s i) = io_err i"
  "io_fixed (put s i) = io_fixed i" "io_prec (put s i) = io_prec i"
  "io_out (put_err s i) = io_out i" "io_err (put_err s i) = io_err i @ s"
  "io_fixed (put_err s i) = io_fixed i" "io_prec (put_err s i) = io_prec i"
  "io_out (set_fixed n i) = io_out i" "io_err (set_fixed n i) = io_err i"
  "io_fixed (set_fixed n i)" "io_prec (set_fixed n i) = n"
  by (simp_all add: put_def put_err_def set_fixed_def)

section \<open>Printed prices\<close>

text \<open>A fixed notation with \<open>prec\<close> digits reads back as the number rounded to that many digits.\<close>

lemma print_fixed_value:
  assumes "0 \<le> q" and "0 < prec"
  shows "read_mantissa is_digit read_digits (print_fixed_rat (prec) q) =
    Some (nat (round_even (q * 10 ^ prec)), prec, [])"
proof -
  let ?m = "nat (round_even (q * 10 ^ prec))"
  let ?a = "nat_digits (?m div 10 ^ prec)" and ?b = "pad_digits (prec) ?m"
  have p: "print_fixed_rat (prec) q = ?a @ ''.'' @ ?b" using assms by (simp add: print_fixed_rat_def Let_def)
  have a: "takeWhile is_digit (?a @ ''.'' @ ?b) = ?a" "dropWhile is_digit (?a @ ''.'' @ ?b) = ''.'' @ ?b"
    using takeWhile_digits [OF all_digits, where r = "''.'' @ ?b"] by (simp_all add: not_digit_point)
  have b: "takeWhile is_digit ?b = ?b" "dropWhile is_digit ?b = []"
    using takeWhile_digits [of ?b "[]"] pad_digits_are_digits by force+
  have v: "read_digits (?a @ ?b) = ?m"
    using div_mult_mod_eq [of ?m "10 ^ prec"] by (simp only: read_pad_digits read_nat_digits)
  show ?thesis unfolding p read_mantissa_def Let_def a by (simp add: b v)
qed

end
