(* ===== verification/Event_Log.thy ===== *)
theory Event_Log
  imports Fixed_Price Std_Stream
begin

text \<open>
  \<^verbatim>\<open>include/feed/EventLog.hpp\<close> and \<^verbatim>\<open>src/feed/EventLog.cpp\<close>: one line of text per event, stamped with
  the clock and handed to a sink.  The sink is a function on the process output; calling an empty
  \<^verbatim>\<open>std::function\<close>, which only \<open>setSink\<close> can install, throws and is \<open>None\<close>.
\<close>

datatype EventType =
    ORDER_ACCEPTED
  | ORDER_REJECTED
  | ORDER_PARTIALLY_FILLED
  | ORDER_FILLED
  | ORDER_CANCELLED
  | TRADE
  | BOOK_UPDATED

record Event =
  ev_type :: EventType
  ev_timestamp :: Timestamp
  ev_detail :: string

type_synonym Sink = "Event \<Rightarrow> io \<Rightarrow> io"

record EventLog =
  log_sink :: "Sink option"

definition stdout_sink :: Sink where
  "stdout_sink e = put (ev_detail e @ newline)"

definition EventLog_new :: "Sink option \<Rightarrow> EventLog" where
  "EventLog_new sink = \<lparr>log_sink = (case sink of None \<Rightarrow> Some stdout_sink | Some f \<Rightarrow> Some f)\<rparr>"

definition setSink :: "Sink option \<Rightarrow> EventLog \<Rightarrow> EventLog" where
  "setSink sink l = l\<lparr>log_sink := sink\<rparr>"

definition emit :: "EventType \<Rightarrow> string \<Rightarrow> EventLog \<Rightarrow> world \<times> io \<Rightarrow> (world \<times> io) option" where
  "emit ty detail l wi =
     (let (t, w) = nowNs (fst wi)
      in case log_sink l of
           None \<Rightarrow> None
         | Some f \<Rightarrow> Some (w, f \<lparr>ev_type = ty, ev_timestamp = t, ev_detail = detail\<rparr> (snd wi)))"

text \<open>A string stream prints a \<^verbatim>\<open>double\<close> in the default notation.\<close>

definition ss_double :: "double \<Rightarrow> string" where
  "ss_double d = print_double False 6 d"

definition logOrderAccepted :: "Order \<Rightarrow> EventLog \<Rightarrow> world \<times> io \<Rightarrow> (world \<times> io) option" where
  "logOrderAccepted x =
     emit ORDER_ACCEPTED
       (''ORDER_ACCEPTED id='' @ to_string_u64 (oid x) @ '' sym='' @ osymbol x @
        '' side='' @ (if oside x = BUY then ''BUY'' else ''SELL'') @
        '' qty='' @ to_string_u64 (oquantity x) @ '' price='' @ ss_double (fromFixedPrice (oprice x)))"

definition logOrderRejected :: "Order \<Rightarrow> string \<Rightarrow> EventLog \<Rightarrow> world \<times> io \<Rightarrow> (world \<times> io) option" where
  "logOrderRejected x reason =
     emit ORDER_REJECTED (''ORDER_REJECTED id='' @ to_string_u64 (oid x) @ '' reason='' @ reason)"

definition logOrderFilled :: "Order \<Rightarrow> EventLog \<Rightarrow> world \<times> io \<Rightarrow> (world \<times> io) option" where
  "logOrderFilled x =
     emit ORDER_FILLED (''ORDER_FILLED id='' @ to_string_u64 (oid x) @ '' sym='' @ osymbol x)"

definition logOrderPartialFill :: "Order \<Rightarrow> EventLog \<Rightarrow> world \<times> io \<Rightarrow> (world \<times> io) option" where
  "logOrderPartialFill x =
     emit ORDER_PARTIALLY_FILLED
       (''ORDER_PARTIAL_FILL id='' @ to_string_u64 (oid x) @
        '' filled='' @ to_string_u64 (ofilledQty x) @ ''/'' @ to_string_u64 (oquantity x))"

definition logOrderCancelled :: "OrderId \<Rightarrow> EventLog \<Rightarrow> world \<times> io \<Rightarrow> (world \<times> io) option" where
  "logOrderCancelled i = emit ORDER_CANCELLED (''ORDER_CANCELLED id='' @ to_string_u64 i)"

definition logTrade :: "Trade \<Rightarrow> EventLog \<Rightarrow> world \<times> io \<Rightarrow> (world \<times> io) option" where
  "logTrade t =
     emit TRADE
       (''TRADE sym='' @ tsymbol t @ '' price='' @ ss_double (fromFixedPrice (tprice t)) @
        '' qty='' @ to_string_u64 (tquantity t) @
        '' maker='' @ to_string_u64 (makerOrderId t) @ '' taker='' @ to_string_u64 (takerOrderId t))"

section \<open>What a log leaves alone\<close>

lemma emit_world: "emit ty d l (w, i) = Some (w', i') \<Longrightarrow> w' = snd (nowNs w)"
  by (auto simp: emit_def nowNs_def split: option.splits)

lemma emit_new: "emit ty d (EventLog_new s) (w, i) \<noteq> None"
  by (auto simp: emit_def EventLog_new_def nowNs_def split: option.splits)

lemma nowNs_heap [simp]: "heap (snd (nowNs w)) = heap w"
  by (simp add: nowNs_def)

end
