(* ===== verification/Market_Feed.thy ===== *)
theory Market_Feed
  imports Order_Book Fixed_Price Std_Stream
begin

text \<open>
  \<^verbatim>\<open>include/feed/MarketDataFeed.hpp\<close> and \<^verbatim>\<open>src/feed/MarketDataFeed.cpp\<close>: the text of a book and of trades on
  the standard output.  Computing the spread is undefined behaviour where the signed subtraction overflows, hence the
  options.
\<close>

definition cell :: "BookLevel list \<Rightarrow> nat \<Rightarrow> string" where
  "cell ls i =
     (if i < length ls
      then print_double True 2 (fromFixedPrice (blprice (ls ! i))) @ '' x '' @ to_string_u64 (blqty (ls ! i))
      else '''')"

definition book_row :: "BookLevel list \<Rightarrow> BookLevel list \<Rightarrow> nat \<Rightarrow> string" where
  "book_row bs as i = setw_left 22 (cell bs i) @ cell as i @ newline"

definition put_price :: "string \<Rightarrow> Price option \<Rightarrow> io \<Rightarrow> io" where
  "put_price label p i =
     (case p of
        None \<Rightarrow> i
      | Some x \<Rightarrow> put newline (put_double (fromFixedPrice x) (set_fixed 2 (put label i))))"

definition printBook :: "OrderBook \<Rightarrow> u64 \<Rightarrow> io \<Rightarrow> io option" where
  "printBook b depth i =
     (let bs = topBids depth b; as = topAsks depth b; bid = bestBid b; ask = bestAsk b
      in case spread b of
           None \<Rightarrow> None
         | Some spd \<Rightarrow>
             (let i1 = put (newline @ ''=== '' @ book_symbol b @ '' Order Book ==='' @ newline) i;
                  i2 = put (setw_left 22 ''BIDS'' @ ''ASKS'' @ newline) i1;
                  i3 = put (replicate 44 (CHR ''-'') @ newline) i2;
                  rows = max (length bs) (length as);
                  i4 = fold (\<lambda>k. put (book_row bs as k)) [0..<rows] i3;
                  i5 = put (replicate 44 (CHR ''-'') @ newline) i4
              in Some (put_price ''SPREAD   '' spd (put_price ''BEST_ASK '' ask (put_price ''BEST_BID '' bid i5)))))"

definition print_trade :: "Trade \<Rightarrow> io \<Rightarrow> io" where
  "print_trade t i =
     put ('' qty='' @ to_string_u64 (tquantity t) @
          '' maker='' @ to_string_u64 (makerOrderId t) @
          '' taker='' @ to_string_u64 (takerOrderId t) @ newline)
       (put_double (fromFixedPrice (tprice t))
         (set_fixed 2 (put (''TRADE '' @ tsymbol t @ '' price='') i)))"

definition printTrades :: "Trade list \<Rightarrow> io \<Rightarrow> io" where
  "printTrades ts i = fold print_trade ts i"

definition publish :: "OrderBook \<Rightarrow> Trade list \<Rightarrow> u64 \<Rightarrow> io \<Rightarrow> io option" where
  "publish b newTrades depth i = map_option (printTrades newTrades) (printBook b depth i)"

section \<open>The text that is added\<close>

definition price_line :: "string \<Rightarrow> Price option \<Rightarrow> string" where
  "price_line label p =
     (case p of None \<Rightarrow> '''' | Some x \<Rightarrow> label @ print_double True 2 (fromFixedPrice x) @ newline)"

definition trade_line :: "Trade \<Rightarrow> string" where
  "trade_line t =
     ''TRADE '' @ tsymbol t @ '' price='' @ print_double True 2 (fromFixedPrice (tprice t)) @
     '' qty='' @ to_string_u64 (tquantity t) @ '' maker='' @ to_string_u64 (makerOrderId t) @
     '' taker='' @ to_string_u64 (takerOrderId t) @ newline"

definition book_text :: "OrderBook \<Rightarrow> u64 \<Rightarrow> Price option \<Rightarrow> string" where
  "book_text b depth spd =
     newline @ ''=== '' @ book_symbol b @ '' Order Book ==='' @ newline @
     setw_left 22 ''BIDS'' @ ''ASKS'' @ newline @ replicate 44 (CHR ''-'') @ newline @
     concat (map (book_row (topBids depth b) (topAsks depth b))
               [0..<max (length (topBids depth b)) (length (topAsks depth b))]) @
     replicate 44 (CHR ''-'') @ newline @
     price_line ''BEST_BID '' (bestBid b) @ price_line ''BEST_ASK '' (bestAsk b) @ price_line ''SPREAD   '' spd"

lemma fold_put: "io_out (fold (\<lambda>k. put (f k)) ks i) = io_out i @ concat (map f ks)"
  "io_err (fold (\<lambda>k. put (f k)) ks i) = io_err i"
  by (induction ks arbitrary: i) simp_all

lemma put_price_out: "io_out (put_price label p i) = io_out i @ price_line label p"
  "io_err (put_price label p i) = io_err i"
  by (simp_all add: put_price_def price_line_def put_double_def split: option.split)

lemma print_trade_out: "io_out (print_trade t i) = io_out i @ trade_line t" "io_err (print_trade t i) = io_err i"
  by (simp_all add: print_trade_def trade_line_def put_double_def)

lemma printTrades_out:
  "io_out (printTrades ts i) = io_out i @ concat (map trade_line ts)" "io_err (printTrades ts i) = io_err i"
  unfolding printTrades_def by (induction ts arbitrary: i) (simp_all add: print_trade_out)

lemma printBook_out:
  assumes "spread b = Some spd"
  shows "\<exists>i'. printBook b depth i = Some i' \<and> io_out i' = io_out i @ book_text b depth spd \<and> io_err i' = io_err i"
  using assms by (simp add: printBook_def Let_def put_price_out fold_put book_text_def)

lemma publish_out:
  assumes "spread b = Some spd"
  shows "\<exists>i'. publish b ts depth i = Some i' \<and>
    io_out i' = io_out i @ book_text b depth spd @ concat (map trade_line ts) \<and> io_err i' = io_err i"
  using printBook_out [OF assms, of depth i] by (auto simp: publish_def printTrades_out)

end
