(* ===== verification/Interactive.thy ===== *)
theory Interactive
  imports Csv_Parser Event_Log Market_Feed Engine_Capacity
begin

text \<open>
  The interactive mode of \<^verbatim>\<open>src/main.cpp\<close>: parse a line, submit the order, log its trades and publish
  its book.  The order the parser allocates is placed at the next address; the session ends at
  \<^verbatim>\<open>QUIT\<close> or at the end of the input.  As long as the quantities add up to less than \<open>2^64\<close> a session
  never meets undefined behaviour, and it is a run of the engine.
\<close>

record session =
  s_engine :: MatchingEngine
  s_world :: world
  s_next :: OrderRef
  s_io :: io

fun log_trades :: "EventLog \<Rightarrow> Trade list \<Rightarrow> world \<times> io \<Rightarrow> (world \<times> io) option" where
  "log_trades l [] wi = Some wi"
| "log_trades l (t # ts) wi = (case logTrade t l wi of None \<Rightarrow> None | Some wi' \<Rightarrow> log_trades l ts wi')"

definition interactive_line :: "string \<Rightarrow> session \<Rightarrow> session option" where
  "interactive_line line s =
     (case parseLine line 0 of
        None \<Rightarrow> None
      | Some None \<Rightarrow> Some (s\<lparr>s_io := put_err (''parse error'' @ newline) (s_io s)\<rparr>)
      | Some (Some x) \<Rightarrow> do {
          let r = s_next s;
          let w = upd_order r (\<lambda>_. x) (s_world s);
          (res, e', w1) \<leftarrow> submitOrder r (s_engine s) w;
          (w2, io2) \<leftarrow> log_trades (EventLog_new None) (rtrades res) (w1, s_io s);
          io3 \<leftarrow> (case engine_book (osymbol (heap w2 r)) e' of
                     None \<Rightarrow> Some io2
                   | Some b \<Rightarrow> publish b (rtrades res) 5 io2);
          Some \<lparr>s_engine = e', s_world = w2, s_next = Suc r, s_io = io3\<rparr>
        })"

fun interactive_loop :: "string list \<Rightarrow> session \<Rightarrow> session option" where
  "interactive_loop [] s = Some s"
| "interactive_loop (line # rest) s =
     (if line = ''QUIT'' \<or> line = ''quit'' then Some s
      else case interactive_line line s of None \<Rightarrow> None | Some s' \<Rightarrow> interactive_loop rest s')"

definition banner :: string where
  "banner = ''AstraExchange interactive mode. Enter CSV lines:'' @ newline @
     ''  timestamp,order_id,symbol,side,type,price,quantity'' @ newline @
     ''  (type QUIT to exit)'' @ newline"

definition interactive :: "string list \<Rightarrow> string \<Rightarrow> world \<times> io \<Rightarrow> session option" where
  "interactive syms input wi =
     (let e = fold registerSymbol syms MatchingEngine_new;
          i = put banner (snd wi)
      in interactive_loop (getlines (CHR 0x0A) input) \<lparr>s_engine = e, s_world = fst wi, s_next = 0, s_io = i\<rparr>)"

section \<open>Runs\<close>

lemma log_trades_run:
  "\<exists>w' i' tr. log_trades (EventLog_new None) ts (w, i) = Some (w', i') \<and> heap w' = heap w \<and> io_err i' = io_err i \<and>
     engine_run (e, w) tr (e, w') \<and> set tr \<subseteq> {(Read_Clock, None)}"
proof (induction ts arbitrary: w i)
  case Nil
  show ?case by (auto intro!: exI [of _ "[]"] run_nil)
next
  case (Cons t ts)
  have "logTrade t (EventLog_new None) (w, i) \<noteq> None" unfolding logTrade_def by (rule emit_new)
  then obtain w1 i1 where l: "logTrade t (EventLog_new None) (w, i) = Some (w1, i1)" by auto
  then have w1: "w1 = snd (nowNs w)" and i1: "io_err i1 = io_err i"
    by (auto simp: logTrade_def emit_def EventLog_new_def stdout_sink_def nowNs_def)
  from Cons.IH [of w1 i1] obtain w' i' tr where
    r: "log_trades (EventLog_new None) ts (w1, i1) = Some (w', i')" "heap w' = heap w1" "io_err i' = io_err i1"
      "engine_run (e, w1) tr (e, w')" "set tr \<subseteq> {(Read_Clock, None)}" by blast
  have "engine_step (e, w) Read_Clock None (e, w1)" unfolding w1 by (rule step_clock)
  from run_step [OF this r(4)] l r(1-3,5) i1 w1 show ?case
    by (intro exI [of _ w'] exI [of _ i'] exI [of _ "(Read_Clock, None) # tr"]) simp
qed

text \<open>The orders a run constructs and submits, by address.\<close>

fun constructs :: "(event \<times> EngineResult option) list \<Rightarrow> (OrderRef \<times> Order) list" where
  "constructs [] = []"
| "constructs ((Construct r i s sd ty p q ts, out) # tr) = (r, Order_new i s sd ty p q ts) # constructs tr"
| "constructs (_ # tr) = constructs tr"

fun submits :: "(event \<times> EngineResult option) list \<Rightarrow> OrderRef list" where
  "submits [] = []"
| "submits ((Submit r, out) # tr) = r # submits tr"
| "submits (_ # tr) = submits tr"

lemma constructs_append: "constructs (tr @ tr') = constructs tr @ constructs tr'"
  by (induction tr rule: constructs.induct) auto

lemma submits_append: "submits (tr @ tr') = submits tr @ submits tr'"
  by (induction tr rule: submits.induct) auto

lemma clock_only: "set tr \<subseteq> {(Read_Clock, None)} \<Longrightarrow> constructs tr = [] \<and> submits tr = []"
  by (induction tr) auto

lemma parseLine_new:
  "parseLine l n = Some (Some x) \<Longrightarrow> \<exists>i s sd ty p q ts. x = Order_new i s sd ty p q ts"
  unfolding parseLine_def Let_def by (simp split: if_splits option.splits) blast

section \<open>One line\<close>

definition session_ok :: "session \<Rightarrow> bool" where
  "session_ok s \<longleftrightarrow> engine_inv (s_engine s) (s_world s) \<and> engine_refs (s_engine s) \<subseteq> {..<s_next s}"

definition session_total :: "session \<Rightarrow> nat" where
  "session_total s = (\<Sum>r\<in>{..<s_next s}. unat (oquantity (heap (s_world s) r)))"

lemma interactive_order:
  assumes ok: "session_ok s" and p: "parseLine line 0 = Some (Some x)"
    and total: "session_total s + unat (oquantity x) < 2 ^ 64"
  shows "\<exists>s' tr. interactive_line line s = Some s' \<and> session_ok s' \<and> s_next s' = Suc (s_next s) \<and>
    session_total s' = session_total s + unat (oquantity x) \<and> io_err (s_io s') = io_err (s_io s) \<and>
    engine_run (s_engine s, s_world s) tr (s_engine s', s_world s') \<and>
    constructs tr = [(s_next s, x)] \<and> submits tr = [s_next s]"
proof -
  let ?k = "s_next s" and ?e = "s_engine s"
  let ?w = "upd_order ?k (\<lambda>_. x) (s_world s)"
  from parseLine_new [OF p] obtain i sy sd ty pr q ts where x: "x = Order_new i sy sd ty pr q ts" by blast
  have inv: "engine_inv ?e (s_world s)" and refs: "engine_refs ?e \<subseteq> {..<?k}" using ok by (simp_all add: session_ok_def)
  have new: "?k \<notin> engine_refs ?e" using refs by auto
  have c: "engine_step (?e, s_world s) (Construct ?k i sy sd ty pr q ts) None (?e, ?w)"
    unfolding x by (rule step_construct [OF new])
  have inv1: "engine_inv ?e ?w" unfolding x by (rule engine_inv_construct [OF inv new])
  have h: "heap ?w r = heap (s_world s) r" if "r < ?k" for r using that by (simp add: world_simps)
  have hk: "heap ?w ?k = x" by (simp add: world_simps)
  have sum: "(\<Sum>r<Suc ?k. unat (oquantity (heap ?w r))) = session_total s + unat (oquantity x)"
    using h hk by (simp add: session_total_def)
  from created_submit [OF inv1 refs] sum total obtain res e' w1 where
    sub: "submitOrder ?k ?e ?w = Some (res, e', w1)" "engine_fits ?k ?e ?w" "engine_inv e' w1"
      "engine_refs e' \<subseteq> {..<Suc ?k}" "\<forall>y. oquantity (heap w1 y) = oquantity (heap ?w y)" by auto
  from log_trades_run [of "rtrades res" w1 "s_io s" e'] obtain w2 i2 tr where
    lg: "log_trades (EventLog_new None) (rtrades res) (w1, s_io s) = Some (w2, i2)" "heap w2 = heap w1"
      "io_err i2 = io_err (s_io s)" "engine_run (e', w1) tr (e', w2)" "set tr \<subseteq> {(Read_Clock, None)}" by blast
  have inv2: "engine_inv e' w2" using sub(3) lg(2) by (simp add: engine_inv_def)
  obtain i3 where pub: "(case engine_book (osymbol (heap w2 ?k)) e' of None \<Rightarrow> Some i2
      | Some b \<Rightarrow> publish b (rtrades res) 5 i2) = Some i3" and i3: "io_err i3 = io_err (s_io s)"
  proof (cases "engine_book (osymbol (heap w2 ?k)) e'")
    case (Some b)
    then have "books e' (osymbol (heap w2 ?k)) = Some b" by (simp add: engine_book_def)
    from spread_defined [OF inv2 this] obtain spd where "spread b = Some spd" by blast
    from publish_out [OF this, of "rtrades res" 5 i2] that Some lg(3) show ?thesis by auto
  qed (use that lg(3) in simp)
  let ?s = "\<lparr>s_engine = e', s_world = w2, s_next = Suc ?k, s_io = i3\<rparr>"
  have "interactive_line line s = Some ?s"
    using p sub(1) lg(1) pub by (simp add: interactive_line_def Let_def)
  moreover have "session_ok ?s" using inv2 sub(4) by (simp add: session_ok_def)
  moreover have "session_total ?s = session_total s + unat (oquantity x)"
    unfolding sum [symmetric] using sub(5) lg(2) by (simp add: session_total_def del: sum.lessThan_Suc)
  moreover have "engine_run (?e, s_world s) ((Construct ?k i sy sd ty pr q ts, None) # (Submit ?k, Some res) # tr) (e', w2)"
    using run_step [OF c run_step [OF step_submit [OF sub(2,1)] lg(4)]] .
  moreover have "constructs ((Construct ?k i sy sd ty pr q ts, None) # (Submit ?k, Some res) # tr) = [(?k, x)]"
    "submits ((Construct ?k i sy sd ty pr q ts, None) # (Submit ?k, Some res) # tr) = [?k]"
    using clock_only [OF lg(5)] x by simp_all
  ultimately show ?thesis using i3 by (intro exI [of _ ?s]) (auto simp del: constructs.simps submits.simps)
qed

section \<open>A session\<close>

definition before_quit :: "string list \<Rightarrow> string list" where
  "before_quit = takeWhile (\<lambda>l. l \<noteq> ''QUIT'' \<and> l \<noteq> ''quit'')"

definition typed_orders :: "string list \<Rightarrow> Order list" where
  "typed_orders ls = concat (map (\<lambda>l. case parseLine l 0 of Some (Some x) \<Rightarrow> [x] | _ \<Rightarrow> []) ls)"

definition bad_lines :: "string list \<Rightarrow> nat" where
  "bad_lines ls = length (filter (\<lambda>l. parseLine l 0 = Some None) ls)"

lemma interactive_loop_run:
  assumes "session_ok s" and "\<forall>l\<in>set (before_quit ls). parseLine l 0 \<noteq> None"
    and "session_total s + (\<Sum>x\<leftarrow>typed_orders (before_quit ls). unat (oquantity x)) < 2 ^ 64"
  shows "\<exists>s' tr. interactive_loop ls s = Some s' \<and> session_ok s' \<and>
    engine_run (s_engine s, s_world s) tr (s_engine s', s_world s') \<and>
    constructs tr = zip [s_next s..<s_next s + length (typed_orders (before_quit ls))] (typed_orders (before_quit ls)) \<and>
    submits tr = [s_next s..<s_next s + length (typed_orders (before_quit ls))] \<and>
    io_err (s_io s') = io_err (s_io s) @ concat (replicate (bad_lines (before_quit ls)) (''parse error'' @ newline))"
  using assms
proof (induction ls arbitrary: s)
  case Nil
  then show ?case by (auto simp: before_quit_def typed_orders_def bad_lines_def intro!: exI [of _ "[]"] run_nil)
next
  case (Cons l ls)
  show ?case
  proof (cases "l = ''QUIT'' \<or> l = ''quit''")
    case True
    then have "before_quit (l # ls) = []" by (auto simp: before_quit_def)
    with True Cons.prems(1) show ?thesis
      by (auto simp: typed_orders_def bad_lines_def intro!: exI [of _ "[]"] run_nil)
  next
    case False
    then have bq: "before_quit (l # ls) = l # before_quit ls" by (simp add: before_quit_def)
    let ?os = "typed_orders (before_quit ls)"
    from Cons.prems(2) obtain y where y: "parseLine l 0 = Some y" unfolding bq by auto
    show ?thesis
    proof (cases y)
      case None
      let ?s = "s\<lparr>s_io := put_err (''parse error'' @ newline) (s_io s)\<rparr>"
      have "interactive_line l s = Some ?s" using y None by (simp add: interactive_line_def)
      then have st: "interactive_loop (l # ls) s = interactive_loop ls ?s" using False by simp
      have to: "typed_orders (l # before_quit ls) = ?os" "bad_lines (l # before_quit ls) = Suc (bad_lines (before_quit ls))"
        using y None by (simp_all add: typed_orders_def bad_lines_def)
      have "session_ok ?s" "session_total ?s = session_total s" using Cons.prems(1) by (simp_all add: session_ok_def session_total_def)
      with Cons.IH [of ?s] Cons.prems(2,3) show ?thesis unfolding bq to st by simp
    next
      case (Some x)
      have to: "typed_orders (l # before_quit ls) = x # ?os" "bad_lines (l # before_quit ls) = bad_lines (before_quit ls)"
        using y Some by (simp_all add: typed_orders_def bad_lines_def)
      from Cons.prems(3) have "session_total s + unat (oquantity x) < 2 ^ 64" unfolding bq to by simp
      from interactive_order [OF Cons.prems(1) y [unfolded Some] this] obtain s1 tr1 where
        s1: "interactive_line l s = Some s1" "session_ok s1" "s_next s1 = Suc (s_next s)"
          "session_total s1 = session_total s + unat (oquantity x)" "io_err (s_io s1) = io_err (s_io s)"
          "engine_run (s_engine s, s_world s) tr1 (s_engine s1, s_world s1)"
          "constructs tr1 = [(s_next s, x)]" "submits tr1 = [s_next s]" by blast
      have st: "interactive_loop (l # ls) s = interactive_loop ls s1" using False s1(1) by simp
      have "session_total s1 + (\<Sum>x\<leftarrow>?os. unat (oquantity x)) < 2 ^ 64"
        using Cons.prems(3) unfolding bq to s1(4) by simp
      from Cons.IH [OF s1(2) _ this] Cons.prems(2) obtain s' tr where
        r: "interactive_loop ls s1 = Some s'" "session_ok s'"
          "engine_run (s_engine s1, s_world s1) tr (s_engine s', s_world s')"
          "constructs tr = zip [s_next s1..<s_next s1 + length ?os] ?os"
          "submits tr = [s_next s1..<s_next s1 + length ?os]"
          "io_err (s_io s') = io_err (s_io s1) @ concat (replicate (bad_lines (before_quit ls)) (''parse error'' @ newline))"
        unfolding bq by auto
      have u: "[s_next s..<s_next s + length (x # ?os)] = s_next s # [s_next s1..<s_next s1 + length ?os]"
        by (simp add: upt_rec s1(3))
      show ?thesis unfolding bq to st u
        using r s1(5,7,8) run_trans [OF s1(6) r(3)]
        by (intro exI [of _ s'] exI [of _ "tr1 @ tr"]) (simp add: constructs_append submits_append)
    qed
  qed
qed

lemma register_run:
  "\<exists>tr. engine_run (e, w) tr (fold registerSymbol syms e, w) \<and> constructs tr = [] \<and> submits tr = [] \<and> run_trades tr = []"
proof (induction syms arbitrary: e)
  case Nil
  show ?case by (auto simp: run_trades_def intro!: exI [of _ "[]"] run_nil)
next
  case (Cons s syms)
  from Cons.IH [of "registerSymbol s e"] obtain tr where
    "engine_run (registerSymbol s e, w) tr (fold registerSymbol syms (registerSymbol s e), w)"
    "constructs tr = []" "submits tr = []" "run_trades tr = []" by blast
  with run_step [OF step_register] show ?case
    by (intro exI [of _ "(Register s, None) # tr"]) (auto simp: run_trades_def)
qed

lemma register_all_refs: "engine_refs (fold registerSymbol syms e) = engine_refs e"
  by (induction syms arbitrary: e) (simp_all add: register_refs)

section \<open>The engine a mode starts from\<close>

definition fresh_world :: "world \<Rightarrow> bool" where
  "fresh_world w \<longleftrightarrow> (\<forall>r. ofilledQty (heap w r) = 0)"

lemma registered_start:
  assumes "fresh_world w"
  shows "engine_start (MatchingEngine_new, w)" and "engine_inv (fold registerSymbol syms MatchingEngine_new) w"
    and "engine_refs (fold registerSymbol syms MatchingEngine_new) = {}"
proof -
  show st: "engine_start (MatchingEngine_new, w)" using assms by (simp add: engine_start_def fresh_world_def)
  from register_run [of MatchingEngine_new w syms] obtain tr where
    "engine_run (MatchingEngine_new, w) tr (fold registerSymbol syms MatchingEngine_new, w)" by blast
  from run_inv [OF this start_inv [OF st]] show "engine_inv (fold registerSymbol syms MatchingEngine_new) w" by simp
  show "engine_refs (fold registerSymbol syms MatchingEngine_new) = {}"
    unfolding register_all_refs by (simp add: engine_refs_def MatchingEngine_new_def)
qed

end
