(* ===== verification/Latency_Timer.thy ===== *)
theory Latency_Timer
  imports Std_Double Core_Types "HOL-Library.Monad_Syntax" "HOL-Library.Multiset"
begin

text \<open>
  \<^verbatim>\<open>include/benchmark/LatencyTimer.hpp\<close>: samples between readings of the clock and their statistics.
  \<open>None\<close> is undefined behaviour: an index outside the samples, or a \<^verbatim>\<open>double\<close> that does not fit the
  integer it is cast to.
\<close>

record LatencyTimer =
  timer_t0 :: u64
  timer_samples :: "u64 list"

definition LatencyTimer_new :: LatencyTimer where
  "LatencyTimer_new = \<lparr>timer_t0 = 0, timer_samples = []\<rparr>"

definition timer_start :: "LatencyTimer \<Rightarrow> world \<Rightarrow> LatencyTimer \<times> world" where
  "timer_start l w = (let (t, w') = nowNs w in (l\<lparr>timer_t0 := t\<rparr>, w'))"

definition timer_stop :: "LatencyTimer \<Rightarrow> world \<Rightarrow> LatencyTimer \<times> world" where
  "timer_stop l w =
     (let (t1, w') = nowNs w in (l\<lparr>timer_samples := timer_samples l @ [t1 - timer_t0 l]\<rparr>, w'))"

record Stats =
  st_p50 :: u64
  st_p95 :: u64
  st_p99 :: u64
  st_max :: u64
  st_mean :: u64
  st_throughput :: u64
  st_wallNs :: u64
  st_count :: u64

definition Stats_zero :: Stats where
  "Stats_zero = \<lparr>st_p50 = 0, st_p95 = 0, st_p99 = 0, st_max = 0, st_mean = 0, st_throughput = 0,
                 st_wallNs = 0, st_count = 0\<rparr>"

section \<open>Conversions between doubles and unsigned integers\<close>

definition u64_rat :: "u64 \<Rightarrow> rat" where
  "u64_rat x = fl (of_nat (unat x))"

definition dbl_to_u64 :: "double \<Rightarrow> u64 option" where
  "dbl_to_u64 d =
     (case d of
        Finite q \<Rightarrow> (let t = trunc_rat q in if 0 \<le> t \<and> t < 2 ^ 64 then Some (of_int t) else None)
      | _ \<Rightarrow> None)"

definition percentile_index :: "rat \<Rightarrow> u64 \<Rightarrow> u64 option" where
  "percentile_index pct n =
     dbl_to_u64 (dbl_apply (\<lambda>x. x * u64_rat (n - 1)) (to_double pct))"

definition percentile :: "rat \<Rightarrow> u64 list \<Rightarrow> u64 option" where
  "percentile pct srt =
     do {
       idx \<leftarrow> percentile_index pct (of_nat (length srt));
       if unat idx < length srt then Some (srt ! unat idx) else None
     }"

definition throughput :: "u64 \<Rightarrow> u64 \<Rightarrow> u64 option" where
  "throughput n wallNs =
     (if 0 < wallNs
      then dbl_to_u64 (dbl_apply (\<lambda>x. x * 1000000000)
             (dbl_apply (\<lambda>x. x / u64_rat wallNs) (to_double (of_nat (unat n)))))
      else Some 0)"

definition timer_compute :: "u64 \<Rightarrow> LatencyTimer \<Rightarrow> Stats option" where
  "timer_compute wallNs l =
     (if timer_samples l = [] then Some Stats_zero
      else let srt = sort (timer_samples l);
               total = fold (\<lambda>s tot. tot + s) srt 0;
               n = of_nat (length srt)
           in do {
             p50 \<leftarrow> percentile (50 / 100) srt;
             p95 \<leftarrow> percentile (95 / 100) srt;
             p99 \<leftarrow> percentile (99 / 100) srt;
             thr \<leftarrow> throughput n wallNs;
             Some \<lparr>st_p50 = p50, st_p95 = p95, st_p99 = p99, st_max = last srt, st_mean = total div n,
                   st_throughput = thr, st_wallNs = wallNs, st_count = n\<rparr>
           })"

end
