(* ===== verification/Latency_Stats.thy ===== *)
theory Latency_Stats
  imports Latency_Timer
begin

text \<open>
  What the statistics of the timer are, exactly: the percentile indices, computed in doubles, are the
  floors of the exact products for up to \<open>2^31\<close> samples, and the throughput is the exact quotient up to a
  relative error of \<open>2^-50\<close>.
\<close>

section \<open>Percentile indices\<close>

text \<open>The double \<^verbatim>\<open>pct * (size - 1)\<close>, within two roundings of the exact product.\<close>

lemma percentile_product:
  assumes "1 / 2 \<le> pct" and "pct \<le> 99 / 100" and n: "1 \<le> n" "n < 2 ^ 53"
  shows "\<exists>q. dbl_apply (\<lambda>x. x * u64_rat (of_nat (Suc n) - 1)) (to_double pct) = Finite q \<and>
    pct * of_nat n * (1 - 1 / 1000) \<le> q \<and> q \<le> pct * of_nat n * (1 + 1 / 1000)"
proof -
  have r: "(of_nat (Suc n) :: u64) - 1 = of_nat n" by simp
  have "unat (of_nat n :: u64) = n" using n(2) by (intro unat_of_nat_u64) simp
  then have u: "u64_rat (of_nat n) = of_nat n"
    unfolding u64_rat_def using fl_int [of "int n"] n(2) by simp
  have small: "1 / 2 ^ 1022 \<le> y" if "1 / 4 \<le> y" for y :: rat
  proof -
    have "(1 :: rat) / 2 ^ 1022 \<le> 1 / 4" by simp
    with that show ?thesis by linarith
  qed
  have "1 / 2 ^ 1022 \<le> pct" using assms(1) by (intro small) simp
  note f1 = fl_relative [OF this] and z1 = this
  have "pct \<le> 1" using assms(2) by simp
  moreover have "(1 :: rat) \<le> 2 ^ 1022" by simp
  ultimately have "\<bar>pct\<bar> \<le> 2 ^ 1022" using assms(1) by linarith
  with z1 assms(1) have d1: "to_double pct = Finite (fl pct)" by (intro to_double_small) simp_all
  let ?n = "of_nat n :: rat" and ?x = "fl pct * of_nat n"
  have n1: "1 \<le> ?n" using n(1) by simp
  have n2: "?n \<le> 2 ^ 53" using n(2) of_nat_le_iff [of n "2 ^ 53", where 'a = rat] by simp
  have lo: "pct * ?n * (1 - 1 / 2 ^ 53) \<le> ?x" and hi: "?x \<le> pct * ?n * (1 + 1 / 2 ^ 53)"
    using mult_right_mono [OF f1(1), of ?n] mult_right_mono [OF f1(2), of ?n] n1 by (simp_all add: algebra_simps)
  have pn: "1 / 2 \<le> pct * ?n" using mult_mono [OF assms(1) n1] assms(1) by simp
  have "pct * ?n \<le> 1 * 2 ^ 53" using \<open>pct \<le> 1\<close> n2 n1 by (intro mult_mono) simp_all
  then have x2: "?x \<le> 2 ^ 55" using hi pn by simp
  have x1: "1 / 4 \<le> ?x" using lo pn by simp
  have "(2 :: rat) ^ 55 \<le> 2 ^ 1022" by simp
  with x1 x2 have "\<bar>?x\<bar> \<le> 2 ^ 1022" by linarith
  with small [OF x1] have d2: "to_double ?x = Finite (fl ?x)"
    by (intro to_double_small) (auto simp: abs_if)
  have "pct * ?n * (1 - 1 / 1000) \<le> fl ?x \<and> fl ?x \<le> pct * ?n * (1 + 1 / 1000)"
    using fl_relative [OF small [OF x1]] lo hi pn by (simp add: algebra_simps)
  with d1 d2 show ?thesis unfolding r u by (simp add: dbl_apply_def)
qed

lemma percentile_index_zero:
  assumes "1 / 2 \<le> pct" and "pct \<le> 99 / 100"
  shows "percentile_index pct (of_nat (Suc 0)) = Some 0"
proof -
  have "(1 :: rat) / 2 ^ 1022 \<le> 1 / 2" "(1 :: rat) \<le> 2 ^ 1022" by simp_all
  with assms have z: "1 / 2 ^ 1022 \<le> \<bar>pct\<bar>" "\<bar>pct\<bar> \<le> 2 ^ 1022" by linarith+
  with to_double_small [OF z(2)] obtain q where "to_double pct = Finite q" by blast
  moreover have "fl 0 = 0" using fl_int [of 0] by simp
  ultimately show ?thesis
    by (simp add: percentile_index_def u64_rat_def dbl_apply_def to_double_def dbl_to_u64_def trunc_rat_def)
qed

section \<open>The throughput is defined for up to \<open>2^31\<close> samples\<close>

lemma dbl_to_u64_range: "0 \<le> q \<Longrightarrow> q < 2 ^ 64 \<Longrightarrow> \<exists>x. dbl_to_u64 (Finite q) = Some x"
  by (simp add: dbl_to_u64_def trunc_rat_def not_less Let_def floor_less_iff)

lemma u64_rat_bounds:
  assumes "0 < (w :: u64)" shows "1 / 2 \<le> u64_rat w" and "u64_rat w \<le> 2 ^ 65"
proof -
  have "0 < unat w" using assms by (simp add: word_gt_0_unat)
  then have "1 \<le> unat w" by simp
  then have one: "(1 :: rat) \<le> of_nat (unat w)" by (metis of_nat_1 of_nat_le_iff)
  have top: "(of_nat (unat w) :: rat) \<le> 2 ^ 64"
    using unat_u64_less [of w] of_nat_le_iff [of "unat w" "2 ^ 64", where 'a = rat] by simp
  have "(1 :: rat) / 2 ^ 1022 \<le> 1" by simp
  with one have "1 / 2 ^ 1022 \<le> (of_nat (unat w) :: rat)" by linarith
  from fl_relative [OF this] one top show "1 / 2 \<le> u64_rat w" "u64_rat w \<le> 2 ^ 65"
    by (simp_all add: u64_rat_def)
qed

lemma throughput_defined:
  assumes "unat n \<le> 2 ^ 31" and "0 < n"
  shows "\<exists>x. throughput n wall = Some x"
proof (cases "0 < wall")
  case True
  let ?n = "of_nat (unat n) :: rat" and ?w = "u64_rat wall"
  have "0 < unat n" using assms(2) by (simp add: word_gt_0_unat)
  then have "1 \<le> unat n" by simp
  then have n1: "1 \<le> ?n" by (metis of_nat_1 of_nat_le_iff)
  have n2: "?n \<le> 2 ^ 31" using assms(1) of_nat_le_iff [of "unat n" "2 ^ 31", where 'a = rat] by simp
  note w = u64_rat_bounds [OF True]
  have fn: "to_double ?n = Finite ?n"
  proof -
    have "fl ?n = ?n" by (rule fl_nat) (use assms(1) in simp)
    moreover have "(2 :: rat) ^ 31 < 2 ^ 1024" by simp
    with n1 n2 have "\<bar>?n\<bar> < 2 ^ 1024" by linarith
    ultimately show ?thesis by (simp add: to_double_def)
  qed
  have w0: "0 < ?w" using w(1) by simp
  have "?n / ?w \<le> ?n / (1 / 2)" using w n1 by (intro divide_left_mono) simp_all
  then have q2: "?n / ?w \<le> 2 * ?n" by simp
  have "1 / 2 ^ 65 \<le> ?n / ?w" using n1 w w0 by (intro frac_le) simp_all
  then have q1: "1 / 2 ^ 200 \<le> ?n / ?w" by (rule order_trans [rotated]) simp
  have q3: "?n / ?w \<le> 2 ^ 200" by (rule order_trans [OF q2]) (use n2 in simp)
  note a = dbl_apply_moderate [of "\<lambda>x. x / ?w" ?n, OF q1 q3]
  let ?x = "fl (?n / ?w)"
  have "1 / 2 ^ 66 \<le> ?n / ?w / 2"
    using divide_right_mono [OF \<open>1 / 2 ^ 65 \<le> ?n / ?w\<close>, of 2] by (simp only: divide_divide_eq_left) simp
  from order_trans [OF this a(2)] have "1 / 2 ^ 66 \<le> ?x" .
  moreover have "(1 :: rat) / 2 ^ 200 \<le> 1 / 2 ^ 66" "0 \<le> (1 :: rat) / 2 ^ 66" by simp_all
  ultimately have y1: "1 / 2 ^ 200 \<le> ?x * 1000000000" by linarith
  have x2: "?x * 1000000000 \<le> 4000000000 * ?n" using a(3) q2 by simp
  have y2: "?x * 1000000000 \<le> 2 ^ 200" by (rule order_trans [OF x2]) (use n2 in simp)
  note b = dbl_apply_moderate [of "\<lambda>x. x * 1000000000" ?x, OF y1 y2]
  have "fl (?x * 1000000000) \<le> 8000000000 * ?n" using b(3) x2 by simp
  also have "\<dots> < 2 ^ 64" using n2 by simp
  finally have hi: "fl (?x * 1000000000) < 2 ^ 64" .
  have "0 \<le> (1 :: rat) / 2 ^ 200" by simp
  with b(2) y1 have "0 \<le> fl (?x * 1000000000)" by linarith
  from dbl_to_u64_range [OF this hi] True show ?thesis unfolding throughput_def fn a(1) b(1) by simp
qed (simp add: throughput_def)

section \<open>The percentile indices are exact\<close>

text \<open>
  The doubles next to \<open>0.95\<close> and \<open>0.99\<close> are a little too small, but the second rounding makes up for it: up to \<open>2^31\<close>
  samples the computed index is the floor of the exact product.
\<close>

lemma fl_percentages:
  "fl (50 / 100) = 1 / 2" "fl (95 / 100) = 8556839292003942 / 2 ^ 53" "fl (99 / 100) = 8917127262193582 / 2 ^ 53"
proof -
  have r: "round_even (1 / 2 * 2 ^ 53) = 2 ^ 52" "round_even (95 / 100 * 2 ^ 53) = 8556839292003942"
    "round_even (99 / 100 * 2 ^ 53) = 8917127262193582"
    by (rule round_even_near; simp)+
  show "fl (50 / 100) = 1 / 2" using fl_half_one [of "1 / 2"] r(1) by simp
  show "fl (95 / 100) = 8556839292003942 / 2 ^ 53" using fl_half_one [of "95 / 100"] unfolding r(2) by simp
  show "fl (99 / 100) = 8917127262193582 / 2 ^ 53" using fl_half_one [of "99 / 100"] unfolding r(3) by simp
qed

lemma exact_product:
  assumes c: "c = 50 \<or> c = 95 \<or> c = (99 :: nat)" and n: "1 \<le> n" "n \<le> 2 ^ 31" and pct: "pct = of_nat c / (100 :: rat)"
  shows "\<lfloor>fl (fl pct * of_nat n)\<rfloor> = int (c * n div 100)" and "0 \<le> fl (fl pct * of_nat n)"
proof -
  let ?P = "fl pct" and ?n = "of_nat n :: rat" and ?N = "c * n div 100" and ?r = "c * n mod 100"
  let ?y = "?P * ?n"
  have P: "?P \<le> pct" "pct - ?P < pct / 2 ^ 54" "1 / 4 \<le> ?P" "pct \<le> 1" "c = 50 \<Longrightarrow> ?P = pct"
    using c fl_percentages unfolding pct by auto
  have n1: "1 \<le> ?n" using n(1) by (metis of_nat_1 of_nat_le_iff)
  have n2: "?n \<le> 2 ^ 31" using n(2) of_nat_le_iff [of n "2 ^ 31", where 'a = rat] by simp
  have "(of_nat (c * n) :: rat) = of_nat (100 * ?N + ?r)" by simp
  then have x: "pct * ?n = of_nat ?N + of_nat ?r / 100" unfolding pct of_nat_mult of_nat_add by (simp add: field_simps)
  have "pct * ?n \<le> 1 * 2 ^ 31" using P(4) n1 n2 by (intro mult_mono) simp_all
  then have top: "pct * ?n \<le> 2 ^ 31" by simp
  have y: "?y \<le> pct * ?n" "pct * ?n - ?y < pct * ?n / 2 ^ 54" "1 / 4 \<le> ?y"
    using mult_right_mono [OF P(1), of ?n] mult_strict_right_mono [OF P(2), of ?n] mult_mono [OF P(3) n1] P(3) n1
    by (simp_all add: left_diff_distrib)
  show f: "\<lfloor>fl ?y\<rfloor> = int ?N"
  proof (cases "?r = 0")
    case True
    then have x0: "pct * ?n = of_nat ?N" using x by simp
    have N: "?N < 2 ^ 50" "1 \<le> ?N"
    proof -
      have "(of_nat ?N :: rat) \<le> of_nat (2 ^ 31)" using top x0 by simp
      then have "?N \<le> 2 ^ 31" by (simp only: of_nat_le_iff)
      then show "?N < 2 ^ 50" by simp
      have "c * n = 100 * ?N" using True div_mult_mod_eq [of "c * n" 100] by linarith
      then show "1 \<le> ?N" using c n(1) by (cases ?N) auto
    qed
    have "1 \<le> ?y"
    proof (cases "?N = 1")
      case one: True
      then have "c * n = 100" using True by (metis div_mult_mod_eq add_0_right mult_1)
      then have "c = 50" using c by (elim disjE; hypsubst; presburger)
      with P(5) x0 one show ?thesis by simp
    next
      case False
      with N(2) have "2 \<le> ?N" by simp
      then have "(2 :: rat) \<le> of_nat ?N" by (metis of_nat_le_iff of_nat_numeral)
      with y(2) show ?thesis unfolding x0 by simp
    qed
    from fl_reach [OF this y(1,2) [unfolded x0] N(1)] show ?thesis by simp
  next
    case False
    then have "1 \<le> ?r" "?r \<le> 99" by simp_all
    then have r: "(1 :: rat) \<le> of_nat ?r" "(of_nat ?r :: rat) \<le> 99" by (metis of_nat_le_iff of_nat_1 of_nat_numeral)+
    have "(1 :: rat) / 2 ^ 1022 \<le> 1 / 4" by simp
    with y(3) have "1 / 2 ^ 1022 \<le> ?y" by linarith
    note fl_relative [OF this]
    then have "?y - ?y * (1 / 2 ^ 53) \<le> fl ?y" "fl ?y \<le> ?y + ?y * (1 / 2 ^ 53)"
      by (simp_all only: right_diff_distrib distrib_left mult_1_right)
    moreover have "z * (1 / 2 ^ 53) \<le> 1 / 1000" "z / 2 ^ 54 \<le> 1 / 1000" if "z \<le> 2 ^ 31" for z :: rat using that by simp_all
    from this(1) [OF order_trans [OF y(1) top]] this(2) [OF top]
    have "?y * (1 / 2 ^ 53) \<le> 1 / 1000" "pct * ?n / 2 ^ 54 \<le> 1 / 1000" .
    ultimately have "of_nat ?N \<le> fl ?y" "fl ?y < of_nat ?N + 1" using y(1,2) r unfolding x by linarith+
    then show ?thesis by (intro floor_unique) simp_all
  qed
  have "0 \<le> \<lfloor>fl ?y\<rfloor>" unfolding f by simp
  then show "0 \<le> fl ?y" by simp
qed

lemma percentile_index_exact:
  assumes c: "c = 50 \<or> c = 95 \<or> c = (99 :: nat)" and n: "n \<le> 2 ^ 31" and pct: "pct = of_nat c / (100 :: rat)"
  shows "percentile_index pct (of_nat (Suc n)) = Some (of_nat (c * n div 100))"
proof (cases "n = 0")
  case True
  have "1 / 2 \<le> pct" "pct \<le> 99 / 100" using c unfolding pct by auto
  from percentile_index_zero [OF this] True show ?thesis by simp
next
  case False
  then have n1: "1 \<le> n" by simp
  have b: "1 / 2 \<le> pct" "pct \<le> 99 / 100" using c unfolding pct by auto
  have n53: "n < 2 ^ 53" using n by simp
  have "(of_nat (Suc n) :: u64) - 1 = of_nat n" by simp
  moreover have "unat (of_nat n :: u64) = n" using n53 by (intro unat_of_nat_u64) simp
  ultimately have u: "u64_rat (of_nat (Suc n) - 1) = of_nat n" using fl_nat [OF n53] by (simp add: u64_rat_def)
  from percentile_product [OF b n1 n53] obtain q where
    q: "dbl_apply (\<lambda>x. x * u64_rat (of_nat (Suc n) - 1)) (to_double pct) = Finite q" by blast
  then have "q = fl (fl pct * of_nat n)"
    unfolding u by (auto simp: dbl_apply_def to_double_def Let_def split: if_splits)
  with exact_product [OF c n1 n pct] have f: "\<lfloor>q\<rfloor> = int (c * n div 100)" "0 \<le> q" by simp_all
  have "c * n div 100 \<le> n" using c by auto
  then have "int (c * n div 100) \<le> int (2 ^ 31)" using n by (simp only: of_nat_le_iff)
  then have "int (c * n div 100) < 2 ^ 64" by simp
  with f show ?thesis unfolding percentile_index_def q by (simp add: dbl_to_u64_def trunc_rat_def not_less Let_def)
qed

section \<open>How far the throughput is from the exact quotient\<close>

lemma throughput_near:
  assumes n: "unat n \<le> 2 ^ 31" "0 < n" and w: "0 < wall" and t: "throughput n wall = Some t"
    and x: "x = of_nat (unat n) * 10 ^ 9 / (of_nat (unat wall) :: rat)"
  shows "of_nat (unat t) \<le> x * (1 + 1 / 2 ^ 50)" and "x * (1 - 1 / 2 ^ 50) < of_nat (unat t) + 1"
proof -
  let ?e = "1 / 2 ^ 53 :: rat" and ?n = "of_nat (unat n) :: rat" and ?w = "of_nat (unat wall) :: rat"
  have n53: "unat n < 2 ^ 53" using n(1) by simp
  have "0 < unat n" "0 < unat wall" using n(2) w by (simp_all add: word_gt_0_unat)
  then have "of_nat 1 \<le> ?n" "of_nat 1 \<le> ?w" by (simp_all only: of_nat_le_iff)
  then have n1: "1 \<le> ?n" and w1: "1 \<le> ?w" by simp_all
  have w2: "?w \<le> 2 ^ 64"
    using unat_u64_less [of wall] of_nat_le_iff [of "unat wall" "2 ^ 64", where 'a = rat] by simp
  let ?v = "u64_rat wall" and ?q = "fl (?n / u64_rat wall)"
  have tiny: "(1 :: rat) / 2 ^ 1000 \<le> 1 / 2 ^ 70" by simp
  have "(1 :: rat) / 2 ^ 1000 \<le> 1" by simp
  with w1 have "1 / 2 ^ 1000 \<le> ?w" by linarith
  note v = fl_factor [OF this, folded u64_rat_def]
  have v0: "0 < ?v" using v(3) w1 by linarith
  have "?v \<le> 2 ^ 65" using v(2) w2 by simp
  then have nv: "1 / 2 ^ 65 \<le> ?n / ?v" using n1 v0 by (intro frac_le) simp_all
  moreover have "(1 :: rat) / 2 ^ 70 \<le> 1 / 2 ^ 65" by simp
  ultimately have "1 / 2 ^ 1000 \<le> ?n / ?v" using tiny nv by linarith
  note q = fl_factor [OF this]
  have "1 / 2 ^ 65 / 2 \<le> ?n / ?v / 2" using nv by (rule divide_right_mono) simp
  then have "1 / 2 ^ 65 / 2 \<le> ?q" using q(3) by (rule order_trans)
  moreover have "(1 :: rat) / 2 ^ 66 = 1 / 2 ^ 65 / 2" by simp
  ultimately have "1 / 2 ^ 66 \<le> ?q" by (simp only:)
  moreover have "(1 :: rat) / 2 ^ 70 \<le> 1 / 2 ^ 66 * 1000000000" by simp
  ultimately have "1 / 2 ^ 1000 \<le> ?q * 1000000000" using tiny by linarith
  note r = fl_factor [OF this]
  let ?r = "fl (?q * 1000000000)"
  have "to_double ?n = Finite ?n"
  proof -
    have "fl ?n = ?n" by (rule fl_nat [OF n53])
    moreover have "?n \<le> 2 ^ 31" using n(1) of_nat_le_iff [of "unat n" "2 ^ 31", where 'a = rat] by simp
    moreover have "(2 :: rat) ^ 31 < 2 ^ 1024" by simp
    ultimately show ?thesis using n1 by (simp add: to_double_def Let_def)
  qed
  then have fin: "of_nat (unat t) \<le> ?r" "?r < of_nat (unat t) + 1"
  proof -
    from t w \<open>to_double ?n = Finite ?n\<close> have d: "dbl_to_u64 (Finite ?r) = Some t"
      by (auto simp: throughput_def dbl_apply_def to_double_def dbl_to_u64_def Let_def split: if_splits)
    have "0 \<le> ?r" using r(3,4) by linarith
    with d have f: "0 \<le> \<lfloor>?r\<rfloor>" "\<lfloor>?r\<rfloor> < 2 ^ 64" "t = of_int \<lfloor>?r\<rfloor>"
      by (auto simp: dbl_to_u64_def trunc_rat_def Let_def split: if_splits)
    have "unat t = nat \<lfloor>?r\<rfloor>"
    proof -
      have "t = of_nat (nat \<lfloor>?r\<rfloor>)" using f by simp
      moreover have "0 \<le> z \<Longrightarrow> z < 2 ^ 64 \<Longrightarrow> nat z < 2 ^ 64" for z :: int by simp
      note this [OF f(1,2)]
      ultimately show ?thesis by (simp only: unat_of_nat_u64)
    qed
    then have "(of_nat (unat t) :: rat) = of_int \<lfloor>?r\<rfloor>" using f(1) by simp
    then show "of_nat (unat t) \<le> ?r" "?r < of_nat (unat t) + 1" using floor_correct [of ?r] by simp_all
  qed
  have x0: "0 < x" unfolding x using n1 w1 by simp
  have nw: "?n / ?v * 1000000000 = x * (?w / ?v)" unfolding x using w1 by simp
  have hi: "?w / ?v \<le> 1 / (1 - ?e)" using v(1) v0 w1 by (simp add: divide_simps mult.commute)
  have lo: "1 / (1 + ?e) \<le> ?w / ?v" using v(2) v0 w1 by (simp add: divide_simps mult.commute)
  have "?r \<le> ?n / ?v * (1 + ?e) * 1000000000 * (1 + ?e)"
    using r(2) q(2) by (meson mult_right_mono order_trans zero_le_numeral add_nonneg_nonneg zero_le_one zero_le_divide_1_iff zero_le_power)
  also have "\<dots> = x * (?w / ?v) * ((1 + ?e) * (1 + ?e))" unfolding nw [symmetric] by simp
  also have "\<dots> \<le> x * (1 / (1 - ?e)) * ((1 + ?e) * (1 + ?e))"
    using hi x0 by (intro mult_right_mono mult_left_mono) simp_all
  also have "\<dots> \<le> x * (1 + 1 / 2 ^ 50)" using x0 by simp
  finally show "of_nat (unat t) \<le> x * (1 + 1 / 2 ^ 50)" using fin(1) by linarith
  have "x * (1 - 1 / 2 ^ 50) \<le> x * (1 / (1 + ?e)) * ((1 - ?e) * (1 - ?e))" using x0 by simp
  also have "\<dots> \<le> x * (?w / ?v) * ((1 - ?e) * (1 - ?e))"
    using lo x0 by (intro mult_right_mono mult_left_mono) simp_all
  also have "\<dots> = ?n / ?v * (1 - ?e) * 1000000000 * (1 - ?e)" unfolding nw [symmetric] by simp
  also have "\<dots> \<le> ?q * 1000000000 * (1 - ?e)" using q(1) by (intro mult_right_mono) simp_all
  also have "\<dots> \<le> ?r" by (rule r(1))
  finally show "x * (1 - 1 / 2 ^ 50) < of_nat (unat t) + 1" using fin(2) by linarith
qed

section \<open>The statistics\<close>

text \<open>The sample below which \<open>c\<close> percent of the others lie.\<close>

definition order_stat :: "nat \<Rightarrow> u64 list \<Rightarrow> u64" where
  "order_stat c xs = sort xs ! (c * (length xs - 1) div 100)"

text \<open>The throughput \<open>t\<close> of \<open>n\<close> samples in \<open>w\<close> nanoseconds: the exact quotient up to \<open>2^-50\<close> of it, cut to an integer.\<close>

definition throughput_ok :: "u64 \<Rightarrow> nat \<Rightarrow> u64 \<Rightarrow> bool" where
  "throughput_ok t n w \<longleftrightarrow>
     (if w = 0 then t = 0
      else let x = of_nat n * 10 ^ 9 / (of_nat (unat w) :: rat)
           in of_nat (unat t) \<le> x * (1 + 1 / 2 ^ 50) \<and> x * (1 - 1 / 2 ^ 50) < of_nat (unat t) + 1)"

lemma percentile_order_stat:
  assumes "c = 50 \<or> c = 95 \<or> c = (99 :: nat)" and "xs \<noteq> []" and "length xs \<le> 2 ^ 31" and "pct = of_nat c / (100 :: rat)"
  shows "percentile pct (sort xs) = Some (order_stat c xs)"
proof -
  obtain n where n: "length xs = Suc n" using assms(2) by (cases xs) auto
  then have n31: "n \<le> 2 ^ 31" using assms(3) by simp
  have "c * n div 100 \<le> n" using assms(1) by auto
  moreover from this have "c * n div 100 < 2 ^ 64" using n31 by simp
  then have "unat (of_nat (c * n div 100) :: u64) = c * n div 100" by (rule unat_of_nat_u64)
  ultimately show ?thesis
    using percentile_index_exact [OF assms(1) n31 assms(4)] n by (simp add: percentile_def order_stat_def)
qed

lemma fold_plus_mod: "unat (fold (\<lambda>s tot. tot + s) xs tot) = (unat tot + (\<Sum>x\<leftarrow>xs. unat x)) mod 2 ^ 64"
  for tot :: u64
proof (induction xs arbitrary: tot)
  case (Cons x xs)
  have "unat (tot + x) = (unat tot + unat x) mod 2 ^ 64" by (simp add: unat_word_ariths)
  with Cons show ?case by (simp add: mod_add_left_eq add.assoc)
qed (use unat_u64_less in \<open>simp add: mod_less\<close>)

lemma sorted_nth_last: "sorted xs \<Longrightarrow> i < length xs \<Longrightarrow> xs ! i \<le> last xs"
  by (cases "xs = []") (auto simp: last_conv_nth intro!: sorted_nth_mono)

lemma last_sort: "xs \<noteq> [] \<Longrightarrow> last (sort xs) = Max (set xs)" for xs :: "u64 list"
proof (rule sym, rule Max_eqI)
  assume ne: "xs \<noteq> []"
  then have s: "sort xs \<noteq> []" by (metis set_empty set_sort)
  show "last (sort xs) \<in> set xs" using last_in_set [OF s] by simp
  show "y \<le> last (sort xs)" if "y \<in> set xs" for y
  proof -
    from that have "y \<in> set (sort xs)" by simp
    then obtain i where "i < length (sort xs)" "sort xs ! i = y" by (metis in_set_conv_nth)
    then show ?thesis using sorted_nth_last [of "sort xs" i] by simp
  qed
qed simp

lemma compute_exact:
  assumes "timer_samples l \<noteq> []" and "length (timer_samples l) \<le> 2 ^ 31"
  shows "\<exists>st. timer_compute wallNs l = Some st \<and>
    st_p50 st = order_stat 50 (timer_samples l) \<and> st_p95 st = order_stat 95 (timer_samples l) \<and>
    st_p99 st = order_stat 99 (timer_samples l) \<and> st_max st = Max (set (timer_samples l)) \<and>
    unat (st_mean st) = (\<Sum>x\<leftarrow>timer_samples l. unat x) mod 2 ^ 64 div length (timer_samples l) \<and>
    unat (st_count st) = length (timer_samples l) \<and> st_wallNs st = wallNs \<and>
    throughput_ok (st_throughput st) (length (timer_samples l)) wallNs"
proof -
  let ?xs = "timer_samples l" and ?n = "length (timer_samples l)"
  have u: "unat (of_nat ?n :: u64) = ?n" using assms(2) by (intro unat_of_nat_u64) simp
  then have pos: "0 < (of_nat ?n :: u64)" using assms(1) by (simp add: word_gt_0_unat)
  from throughput_defined [OF _ pos] u assms(2) obtain t where t: "throughput (of_nat ?n) wallNs = Some t" by auto
  have p: "percentile (50 / 100) (sort ?xs) = Some (order_stat 50 ?xs)"
    "percentile (95 / 100) (sort ?xs) = Some (order_stat 95 ?xs)"
    "percentile (99 / 100) (sort ?xs) = Some (order_stat 99 ?xs)"
    by (rule percentile_order_stat [OF _ assms]; simp)+
  let ?m = "fold (\<lambda>s tot. tot + s) (sort ?xs) 0 div of_nat (length (sort ?xs))"
  have "(\<Sum>x\<leftarrow>sort ?xs. unat x) = (\<Sum>x\<leftarrow>?xs. unat x)"
    by (metis mset_map mset_sort sum_mset_sum_list)
  then have m: "unat ?m = (\<Sum>x\<leftarrow>?xs. unat x) mod 2 ^ 64 div ?n"
    using u by (simp add: unat_div fold_plus_mod)
  have thr: "throughput_ok t ?n wallNs"
  proof (cases "wallNs = 0")
    case False
    then have "0 < wallNs" by (simp add: word_neq_0_conv)
    from throughput_near [OF _ pos this t refl] u assms(2) False show ?thesis by (simp add: throughput_ok_def Let_def)
  qed (use t in \<open>simp add: throughput_def throughput_ok_def\<close>)
  let ?st = "\<lparr>st_p50 = order_stat 50 ?xs, st_p95 = order_stat 95 ?xs, st_p99 = order_stat 99 ?xs, st_max = last (sort ?xs),
    st_mean = ?m, st_throughput = t, st_wallNs = wallNs, st_count = of_nat (length (sort ?xs))\<rparr>"
  have "timer_compute wallNs l = Some ?st"
    using assms(1) t by (simp only: timer_compute_def p Let_def length_sort if_False Option.bind.bind_lunit)
  with last_sort [OF assms(1)] m u thr show ?thesis by (intro exI [of _ ?st]) simp
qed

lemma order_stat_mono:
  assumes "xs \<noteq> []" and "c \<le> d" and "d \<le> 100"
  shows "order_stat c xs \<le> order_stat d xs" and "order_stat d xs \<le> Max (set xs)" and "order_stat d xs \<in> set xs"
proof -
  obtain n where n: "length xs = Suc n" using assms(1) by (cases xs) auto
  have "d * n div 100 \<le> 100 * n div 100" using assms(3) by (intro div_le_mono mult_right_mono) simp_all
  then have d: "d * n div 100 < length (sort xs)" using n by simp
  have "c * n div 100 \<le> d * n div 100" using assms(2) by (intro div_le_mono mult_right_mono) simp_all
  with d n show "order_stat c xs \<le> order_stat d xs" by (simp add: order_stat_def sorted_nth_mono)
  have "sort xs ! (d * n div 100) \<in> set (sort xs)" using d by (rule nth_mem)
  with n show m: "order_stat d xs \<in> set xs" by (simp add: order_stat_def)
  then show "order_stat d xs \<le> Max (set xs)" by simp
qed

lemma compute_defined:
  assumes "length (timer_samples l) \<le> 2 ^ 31"
  shows "\<exists>st. timer_compute wallNs l = Some st"
  using compute_exact [OF _ assms] by (cases "timer_samples l = []") (auto simp: timer_compute_def)

end
