(* ===== verification/Replay_Engine.thy ===== *)
theory Replay_Engine
  imports Interactive Latency_Stats Engine_Spec
begin

text \<open>
  \<^verbatim>\<open>include/benchmark/ReplayEngine.hpp\<close> and \<^verbatim>\<open>src/benchmark/ReplayEngine.cpp\<close>: parse a file, submit its orders in
  order with the clock read around each submission, count, and print what the configuration
  asks for.  The parsed orders live at the addresses \<open>0, 1, \<dots>\<close> in the order of the file.  A replay is one run of the
  engine; its counters and latencies are functions of the results of that run and of the clock.
\<close>

record ReplayConfig =
  rc_csvPath :: string
  rc_printTrades :: bool
  rc_printBook :: bool
  rc_verbose :: bool
  rc_bookDepth :: u64

definition ReplayConfig_default :: ReplayConfig where
  "ReplayConfig_default =
     \<lparr>rc_csvPath = '''', rc_printTrades = False, rc_printBook = False, rc_verbose = False, rc_bookDepth = 5\<rparr>"

record ReplayStats =
  rs_submitted :: u64
  rs_accepted :: u64
  rs_rejected :: u64
  rs_trades :: u64
  rs_latency :: Stats

definition ReplayStats_zero :: ReplayStats where
  "ReplayStats_zero = \<lparr>rs_submitted = 0, rs_accepted = 0, rs_rejected = 0, rs_trades = 0, rs_latency = Stats_zero\<rparr>"

text \<open>The engine with its symbols; the log of the class is silent and never used.\<close>

definition ReplayEngine_new :: "string list \<Rightarrow> MatchingEngine" where
  "ReplayEngine_new syms = fold registerSymbol syms MatchingEngine_new"

record replay =
  rp_engine :: MatchingEngine
  rp_world :: world
  rp_timer :: LatencyTimer
  rp_stats :: ReplayStats
  rp_io :: io

fun alloc_orders :: "OrderRef \<Rightarrow> Order list \<Rightarrow> world \<Rightarrow> world" where
  "alloc_orders r [] w = w"
| "alloc_orders r (x # xs) w = alloc_orders (Suc r) xs (upd_order r (\<lambda>_. x) w)"

definition replay_trade :: "Trade \<Rightarrow> io \<Rightarrow> io" where
  "replay_trade t i =
     put ('' qty='' @ to_string_u64 (tquantity t) @ newline)
       (put_double (fromFixedPrice (tprice t)) (put (''TRADE '' @ tsymbol t @ '' price='') i))"

definition count_result :: "EngineResult \<Rightarrow> ReplayStats \<Rightarrow> ReplayStats" where
  "count_result res st =
     (if rstatus res = REJECTED then st\<lparr>rs_rejected := rs_rejected st + 1\<rparr>
      else st\<lparr>rs_accepted := rs_accepted st + 1\<rparr>)\<lparr>rs_trades := rs_trades st + of_nat (length (rtrades res))\<rparr>"

definition replay_step :: "ReplayConfig \<Rightarrow> OrderRef \<Rightarrow> replay \<Rightarrow> replay option" where
  "replay_step cfg r s =
     (let (tm1, w1) = timer_start (rp_timer s) (rp_world s)
      in case submitOrder r (rp_engine s) w1 of
           None \<Rightarrow> None
         | Some (res, e', w2) \<Rightarrow>
             (let (tm2, w3) = timer_stop tm1 w2;
                  i1 = (if rstatus res = REJECTED \<and> rc_verbose cfg
                        then put_err (''REJECT id='' @ to_string_u64 (oid (heap w3 r)) @ '' '' @ rejectReason res @ newline) (rp_io s)
                        else rp_io s);
                  i2 = (if rc_printTrades cfg then fold replay_trade (rtrades res) i1 else i1)
              in case (if rc_printBook cfg \<and> rtrades res \<noteq> []
                       then (case engine_book (osymbol (heap w3 r)) e' of
                               None \<Rightarrow> Some i2
                             | Some b \<Rightarrow> publish b (rtrades res) (rc_bookDepth cfg) i2)
                       else Some i2) of
                   None \<Rightarrow> None
                 | Some i3 \<Rightarrow>
                     Some \<lparr>rp_engine = e', rp_world = w3, rp_timer = tm2,
                           rp_stats = count_result res (rp_stats s), rp_io = i3\<rparr>))"

fun replay_loop :: "ReplayConfig \<Rightarrow> OrderRef list \<Rightarrow> replay \<Rightarrow> replay option" where
  "replay_loop cfg [] s = Some s"
| "replay_loop cfg (r # rs) s = (case replay_step cfg r s of None \<Rightarrow> None | Some s' \<Rightarrow> replay_loop cfg rs s')"

definition parse_error_text :: "ParseError \<Rightarrow> string" where
  "parse_error_text e = ''  line '' @ to_string_u64 (perr_line e) @ '': '' @ perr_message e @ newline"

definition replay_run ::
  "(string \<Rightarrow> string option) \<Rightarrow> ReplayConfig \<Rightarrow> MatchingEngine \<Rightarrow> world \<times> io \<Rightarrow> (ReplayStats \<times> replay) option" where
  "replay_run files cfg e wi =
     (case parseFile files (rc_csvPath cfg) of
        None \<Rightarrow> None
      | Some parsed \<Rightarrow>
          (let w = alloc_orders 0 (pr_orders parsed) (fst wi);
               i = (if pr_errors parsed \<noteq> [] \<and> pr_orders parsed = []
                    then fold (\<lambda>x. put_err (parse_error_text x)) (pr_errors parsed)
                           (put_err (''Parse errors:'' @ newline) (snd wi))
                    else snd wi);
               n = length (pr_orders parsed);
               (wallStart, w1) = nowNs w
           in case replay_loop cfg [0..<n]
                     \<lparr>rp_engine = e, rp_world = w1, rp_timer = LatencyTimer_new,
                      rp_stats = ReplayStats_zero\<lparr>rs_submitted := of_nat n\<rparr>, rp_io = i\<rparr> of
                None \<Rightarrow> None
              | Some s \<Rightarrow>
                  (let (wallEnd, w2) = nowNs (rp_world s)
                   in case timer_compute (wallEnd - wallStart) (rp_timer s) of
                        None \<Rightarrow> None
                      | Some lat \<Rightarrow>
                          Some (rp_stats s\<lparr>rs_latency := lat\<rparr>, s\<lparr>rp_world := w2, rp_stats := rp_stats s\<lparr>rs_latency := lat\<rparr>\<rparr>))))"

section \<open>One submission\<close>

lemma compute_samples: "timer_samples l = timer_samples l' \<Longrightarrow> timer_compute wall l = timer_compute wall l'"
  by (simp add: timer_compute_def)

text \<open>What the timer measures when the clock reads \<open>clk t, clk (t + 1), \<dots>\<close>: a submission reads it once
  before, once per trade and once after.\<close>

fun latencies :: "(nat \<Rightarrow> Timestamp) \<Rightarrow> nat \<Rightarrow> EngineResult list \<Rightarrow> u64 list" where
  "latencies clk t [] = []"
| "latencies clk t (res # rs) =
     (let stop = t + 1 + length (rtrades res) in (clk stop - clk t) # latencies clk (Suc stop) rs)"

lemma replay_trade_err: "io_err (fold replay_trade ts i) = io_err i"
  by (induction ts arbitrary: i) (simp_all add: replay_trade_def put_double_def)

definition replay_ok :: "nat \<Rightarrow> replay \<Rightarrow> bool" where
  "replay_ok k s \<longleftrightarrow> engine_inv (rp_engine s) (rp_world s) \<and> engine_refs (rp_engine s) \<subseteq> {..<k}"

lemma replay_step_run:
  assumes ok: "replay_ok k s" and total: "quantity_upto (Suc k) (rp_world s) < 2 ^ 64"
  shows "\<exists>s' res. replay_step cfg k s = Some s' \<and> replay_ok (Suc k) s' \<and>
    rp_stats s' = count_result res (rp_stats s) \<and>
    timer_samples (rp_timer s') = timer_samples (rp_timer s) @ latencies (clock (rp_world s)) (ticks (rp_world s)) [res] \<and>
    clock (rp_world s') = clock (rp_world s) \<and> ticks (rp_world s') = ticks (rp_world s) + 2 + length (rtrades res) \<and>
    (\<forall>x. oquantity (heap (rp_world s') x) = oquantity (heap (rp_world s) x)) \<and>
    engine_run (rp_engine s, rp_world s) [(Read_Clock, None), (Submit k, Some res), (Read_Clock, None)]
      (rp_engine s', rp_world s')"
proof -
  let ?e = "rp_engine s" and ?w = "snd (nowNs (rp_world s))"
  from timed_submit [of ?e "rp_world s" k] ok total obtain res e' w2 where
    sub: "submitOrder k ?e ?w = Some (res, e', w2)" "engine_inv e' (snd (nowNs w2))" "engine_refs e' \<subseteq> {..<Suc k}"
      "\<forall>x. oquantity (heap w2 x) = oquantity (heap (rp_world s) x) \<and> oid (heap w2 x) = oid (heap (rp_world s) x)"
      "engine_run (?e, rp_world s) [(Read_Clock, None), (Submit k, Some res), (Read_Clock, None)] (e', snd (nowNs w2))"
    unfolding replay_ok_def by blast
  let ?w3 = "snd (nowNs w2)"
  note inv3 = sub(2)
  have inv1: "engine_inv ?e ?w" and refs: "engine_refs ?e \<subseteq> {..<k}" using ok by (simp_all add: replay_ok_def engine_inv_clock)
  have "(\<Sum>r<Suc k. unat (oquantity (heap ?w r))) < 2 ^ 64" using total by (simp add: quantity_upto_def world_simps)
  note ck = submit_ticks [OF inv1 created_fits [OF inv1 refs this] sub(1)]
  have pub: "\<exists>i3. (if c then (case engine_book (osymbol (heap ?w3 k)) e' of None \<Rightarrow> Some i2
      | Some b \<Rightarrow> publish b (rtrades res) d i2) else Some i2) = Some i3" for c i2 d
  proof (cases "engine_book (osymbol (heap ?w3 k)) e'")
    case (Some b)
    then have "books e' (osymbol (heap ?w3 k)) = Some b" by (simp add: engine_book_def)
    from spread_defined [OF inv3 this] obtain spd where "spread b = Some spd" by blast
    from publish_out [OF this, of "rtrades res" d i2] Some show ?thesis by auto
  qed simp
  obtain s' where s': "replay_step cfg k s = Some s'" "rp_engine s' = e'" "rp_world s' = ?w3"
    "rp_stats s' = count_result res (rp_stats s)"
    "timer_samples (rp_timer s') = timer_samples (rp_timer s) @ [fst (nowNs w2) - fst (nowNs (rp_world s))]"
  proof -
    let ?i1 = "if rstatus res = REJECTED \<and> rc_verbose cfg
        then put_err (''REJECT id='' @ to_string_u64 (oid (heap ?w3 k)) @ '' '' @ rejectReason res @ newline) (rp_io s)
        else rp_io s"
    let ?i2 = "if rc_printTrades cfg then fold replay_trade (rtrades res) ?i1 else ?i1"
    from pub [of "rc_printBook cfg \<and> rtrades res \<noteq> []" ?i2 "rc_bookDepth cfg"] obtain i3 where
      i3: "(if rc_printBook cfg \<and> rtrades res \<noteq> []
            then (case engine_book (osymbol (heap ?w3 k)) e' of None \<Rightarrow> Some ?i2
                  | Some b \<Rightarrow> publish b (rtrades res) (rc_bookDepth cfg) ?i2) else Some ?i2) = Some i3"
      by blast
    let ?tm = "\<lparr>timer_t0 = fst (nowNs (rp_world s)), timer_samples = timer_samples (rp_timer s) @ [fst (nowNs w2) - fst (nowNs (rp_world s))]\<rparr>"
    let ?s = "\<lparr>rp_engine = e', rp_world = ?w3, rp_timer = ?tm, rp_stats = count_result res (rp_stats s), rp_io = i3\<rparr>"
    have t1: "timer_start (rp_timer s) (rp_world s) = ((rp_timer s)\<lparr>timer_t0 := fst (nowNs (rp_world s))\<rparr>, ?w)"
      by (simp add: timer_start_def case_prod_beta)
    have t2: "timer_stop ((rp_timer s)\<lparr>timer_t0 := fst (nowNs (rp_world s))\<rparr>) w2 = (?tm, ?w3)"
      by (simp add: timer_stop_def case_prod_beta)
    have "replay_step cfg k s = Some ?s"
      unfolding replay_step_def Let_def t1 prod.case sub(1) option.case t2 i3 ..
    then show ?thesis by (rule that) simp_all
  qed
  from s' sub(2-5) ck show ?thesis
    by (intro exI [of _ s'] exI [of _ res]) (simp add: replay_ok_def world_simps)
qed

section \<open>The whole replay\<close>

text \<open>The results of a run by their status.\<close>

definition accepted :: "EngineResult list \<Rightarrow> EngineResult list" where
  "accepted = filter (\<lambda>res. rstatus res \<noteq> REJECTED)"

definition rejected :: "EngineResult list \<Rightarrow> EngineResult list" where
  "rejected = filter (\<lambda>res. rstatus res = REJECTED)"

lemma count_result_fields:
  "rs_accepted (count_result res st) = rs_accepted st + of_nat (length (accepted [res]))"
  "rs_rejected (count_result res st) = rs_rejected st + of_nat (length (rejected [res]))"
  "rs_trades (count_result res st) = rs_trades st + of_nat (length (rtrades res))"
  "rs_submitted (count_result res st) = rs_submitted st"
  by (simp_all add: count_result_def accepted_def rejected_def)

lemma by_status_Cons:
  "length (accepted (res # rs)) = length (accepted [res]) + length (accepted rs)"
  "length (rejected (res # rs)) = length (rejected [res]) + length (rejected rs)"
  by (simp_all add: accepted_def rejected_def)

lemma length_latencies: "length (latencies clk t rs) = length rs"
  by (induction rs arbitrary: t) (simp_all add: Let_def)

lemma replay_loop_run:
  assumes "replay_ok k s" and "quantity_upto (k + n) (rp_world s) < 2 ^ 64"
  shows "\<exists>s' tr. replay_loop cfg [k..<k + n] s = Some s' \<and> replay_ok (k + n) s' \<and>
    engine_run (rp_engine s, rp_world s) tr (rp_engine s', rp_world s') \<and>
    constructs tr = [] \<and> submits tr = [k..<k + n] \<and>
    length (run_results tr) = n \<and> clock (rp_world s') = clock (rp_world s) \<and>
    ticks (rp_world s') = ticks (rp_world s) + 2 * n + length (run_trades tr) \<and>
    timer_samples (rp_timer s')
      = timer_samples (rp_timer s) @ latencies (clock (rp_world s)) (ticks (rp_world s)) (run_results tr) \<and>
    rs_accepted (rp_stats s') = rs_accepted (rp_stats s) + of_nat (length (accepted (run_results tr))) \<and>
    rs_rejected (rp_stats s') = rs_rejected (rp_stats s) + of_nat (length (rejected (run_results tr))) \<and>
    rs_trades (rp_stats s') = rs_trades (rp_stats s) + of_nat (length (run_trades tr)) \<and>
    rs_submitted (rp_stats s') = rs_submitted (rp_stats s)"
  using assms
proof (induction n arbitrary: k s)
  case 0
  then show ?case by (auto simp: accepted_def rejected_def intro!: exI [of _ "[]"] run_nil)
next
  case (Suc n)
  have "quantity_upto (Suc k) (rp_world s) < 2 ^ 64"
    using quantity_upto_mono [of "Suc k" "k + Suc n" "rp_world s"] Suc.prems(2) by simp
  from replay_step_run [OF Suc.prems(1) this, of cfg] obtain s1 res where
    s1: "replay_step cfg k s = Some s1" "replay_ok (Suc k) s1" "rp_stats s1 = count_result res (rp_stats s)"
      "timer_samples (rp_timer s1) = timer_samples (rp_timer s) @ latencies (clock (rp_world s)) (ticks (rp_world s)) [res]"
      "clock (rp_world s1) = clock (rp_world s)" "ticks (rp_world s1) = ticks (rp_world s) + 2 + length (rtrades res)"
      "\<forall>x. oquantity (heap (rp_world s1) x) = oquantity (heap (rp_world s) x)"
      "engine_run (rp_engine s, rp_world s) [(Read_Clock, None), (Submit k, Some res), (Read_Clock, None)]
        (rp_engine s1, rp_world s1)" by (elim exE conjE) (rule that)
  have "quantity_upto (Suc k + n) (rp_world s1) < 2 ^ 64"
    using Suc.prems(2) unfolding quantity_upto_cong [OF s1(7)] add_Suc_right add_Suc .
  from Suc.IH [OF s1(2) this] obtain s' tr where
    r: "replay_loop cfg [Suc k..<Suc k + n] s1 = Some s'" "replay_ok (Suc k + n) s'"
      "engine_run (rp_engine s1, rp_world s1) tr (rp_engine s', rp_world s')"
      "constructs tr = []" "submits tr = [Suc k..<Suc k + n]"
      "length (run_results tr) = n" "clock (rp_world s') = clock (rp_world s1)"
      "ticks (rp_world s') = ticks (rp_world s1) + 2 * n + length (run_trades tr)"
      "timer_samples (rp_timer s')
        = timer_samples (rp_timer s1) @ latencies (clock (rp_world s1)) (ticks (rp_world s1)) (run_results tr)"
      "rs_accepted (rp_stats s') = rs_accepted (rp_stats s1) + of_nat (length (accepted (run_results tr)))"
      "rs_rejected (rp_stats s') = rs_rejected (rp_stats s1) + of_nat (length (rejected (run_results tr)))"
      "rs_trades (rp_stats s') = rs_trades (rp_stats s1) + of_nat (length (run_trades tr))"
      "rs_submitted (rp_stats s') = rs_submitted (rp_stats s1)" by (elim exE conjE) (rule that)
  have u: "[k..<k + Suc n] = k # [Suc k..<Suc k + n]" by (subst upt_conv_Cons) simp_all
  let ?tr = "[(Read_Clock, None), (Submit k, Some res), (Read_Clock, None)] @ tr"
  note c = count_result_fields [of res "rp_stats s"]
  have "replay_loop cfg [k..<k + Suc n] s = Some s'" unfolding u using s1(1) r(1) by simp
  moreover have "replay_ok (k + Suc n) s'" using r(2) by simp
  moreover have "constructs ?tr = []" "submits ?tr = [k..<k + Suc n]" unfolding u using r(4,5) by simp_all
  moreover have res: "run_results ?tr = res # run_results tr" by simp
  then have "length (run_results ?tr) = Suc n" "clock (rp_world s') = clock (rp_world s)"
    "ticks (rp_world s') = ticks (rp_world s) + 2 * Suc n + length (run_trades ?tr)"
    using r(6-8) s1(5,6) by simp_all
  moreover have "timer_samples (rp_timer s')
      = timer_samples (rp_timer s) @ latencies (clock (rp_world s)) (ticks (rp_world s)) (run_results ?tr)"
    using r(9) s1(4-6) unfolding res by (simp add: Let_def)
  moreover have "rs_accepted (rp_stats s') = rs_accepted (rp_stats s) + of_nat (length (accepted (run_results ?tr)))"
    "rs_rejected (rp_stats s') = rs_rejected (rp_stats s) + of_nat (length (rejected (run_results ?tr)))"
    unfolding r(10,11) s1(3) c(1,2) res by (simp_all add: by_status_Cons [of res "run_results tr"])
  moreover have "rs_trades (rp_stats s') = rs_trades (rp_stats s) + of_nat (length (run_trades ?tr))"
    unfolding r(12) s1(3) c(3) by (simp add: ac_simps)
  moreover have "rs_submitted (rp_stats s') = rs_submitted (rp_stats s)" unfolding r(13) s1(3) c(4) ..
  ultimately show ?case using run_trans [OF s1(8) r(3)] by (intro exI [of _ s'] exI [of _ ?tr]) (intro conjI)
qed

lemma alloc_orders_heap:
  "heap (alloc_orders r xs w) x = (if r \<le> x \<and> x < r + length xs then xs ! (x - r) else heap w x)"
proof (induction xs arbitrary: r w)
  case (Cons y ys)
  then show ?case by (auto simp: world_simps nth_Cons' Suc_diff_Suc)
qed auto

lemma allocated_orders: "map (heap (alloc_orders 0 os w)) [0..<length os] = os"
  by (rule nth_equalityI) (simp_all add: alloc_orders_heap)

lemma alloc_clock: "clock (alloc_orders r os w) = clock w" "ticks (alloc_orders r os w) = ticks w"
  by (induction os arbitrary: r w) (simp_all add: clock_upd)

lemma alloc_orders_run:
  assumes "engine_refs e = {}" and "\<forall>x\<in>set xs. \<exists>i s sd ty p q ts. x = Order_new i s sd ty p q ts"
  shows "\<exists>tr. engine_run (e, w) tr (e, alloc_orders r xs w) \<and> constructs tr = zip [r..<r + length xs] xs \<and>
    submits tr = [] \<and> run_trades tr = [] \<and> run_results tr = []"
  using assms(2)
proof (induction xs arbitrary: r w)
  case Nil
  show ?case by (auto intro!: exI [of _ "[]"] run_nil)
next
  case (Cons x xs)
  then obtain i s sd ty p q ts where x: "x = Order_new i s sd ty p q ts" by auto
  have st: "engine_step (e, w) (Construct r i s sd ty p q ts) None (e, upd_order r (\<lambda>_. x) w)"
    unfolding x using assms(1) by (intro step_construct) simp
  from Cons obtain tr where tr: "engine_run (e, upd_order r (\<lambda>_. x) w) tr (e, alloc_orders (Suc r) xs (upd_order r (\<lambda>_. x) w))"
    "constructs tr = zip [Suc r..<Suc r + length xs] xs" "submits tr = []" "run_trades tr = []" "run_results tr = []" by force
  have u: "[r..<r + length (x # xs)] = r # [Suc r..<Suc r + length xs]" by (subst upt_conv_Cons) simp_all
  from run_step [OF st tr(1)] tr(2-5) show ?case unfolding u
    by (intro exI [of _ "(Construct r i s sd ty p q ts, None) # tr"]) (simp add: x)
qed

text \<open>The orders of a parsed file are new orders, whose quantities add up over the addresses.\<close>

lemma parse_lines_new:
  "parse_lines ls n h res = Some res' \<Longrightarrow> \<forall>x\<in>set (pr_orders res). \<exists>i s sd ty p q ts. x = Order_new i s sd ty p q ts \<Longrightarrow>
     \<forall>x\<in>set (pr_orders res'). \<exists>i s sd ty p q ts. x = Order_new i s sd ty p q ts"
proof (induction ls arbitrary: n h res)
  case (Cons l ls)
  show ?case
  proof (cases "parseLine l (n + 1)")
    case None
    with Cons show ?thesis by (auto simp: Let_def split: if_splits)
  next
    case (Some y)
    show ?thesis
    proof (cases y)
      case None
      with Some Cons.prems Cons.IH show ?thesis by (auto simp: Let_def split: if_splits)
    next
      case (Some x)
      with \<open>parseLine l (n + 1) = Some y\<close> parseLine_new [of l "n + 1" x]
      have new: "\<exists>i s sd ty p q ts. x = Order_new i s sd ty p q ts" by simp
      have "\<forall>z\<in>set (pr_orders (res\<lparr>pr_orders := pr_orders res @ [x]\<rparr>)). \<exists>i s sd ty p q ts. z = Order_new i s sd ty p q ts"
        using Cons.prems(2) new by auto
      with Cons.IH [of "n + 1" h "res\<lparr>pr_orders := pr_orders res @ [x]\<rparr>"] Cons.IH [of "n + 1" h res]
        Cons.IH [of "n + 1" True res] Cons.prems Some \<open>parseLine l (n + 1) = Some y\<close>
      show ?thesis by (simp add: Let_def split: if_splits)
    qed
  qed
qed simp

lemma parseFile_new:
  "parseFile files path = Some res \<Longrightarrow> \<forall>x\<in>set (pr_orders res). \<exists>i s sd ty p q ts. x = Order_new i s sd ty p q ts"
  using parse_lines_new by (fastforce simp: parseFile_def split: option.splits)

lemma alloc_quantity:
  "quantity_upto (length xs) (alloc_orders 0 xs w) = (\<Sum>x\<leftarrow>xs. unat (oquantity x))"
proof -
  have "(\<Sum>r\<in>{..<length xs}. unat (oquantity (heap (alloc_orders 0 xs w) r)))
      = (\<Sum>r\<in>{..<length xs}. unat (oquantity (xs ! r)))"
    by (intro sum.cong) (simp_all add: alloc_orders_heap)
  then show ?thesis by (simp add: quantity_upto_def sum_list_sum_nth atLeast0LessThan)
qed

lemma replay_run_ok:
  assumes pf: "parseFile files (rc_csvPath cfg) = Some parsed"
    and inv: "engine_inv e w" and refs: "engine_refs e = {}"
    and total: "(\<Sum>x\<leftarrow>pr_orders parsed. unat (oquantity x)) < 2 ^ 64"
    and len: "length (pr_orders parsed) \<le> 2 ^ 31"
  shows "\<exists>st s tr. replay_run files cfg e (w, i) = Some (st, s) \<and> engine_inv (rp_engine s) (rp_world s) \<and>
    engine_run (e, w) tr (rp_engine s, rp_world s) \<and>
    constructs tr = zip [0..<length (pr_orders parsed)] (pr_orders parsed) \<and>
    submits tr = [0..<length (pr_orders parsed)] \<and>
    length (run_results tr) = length (pr_orders parsed) \<and>
    rs_submitted st = of_nat (length (pr_orders parsed)) \<and>
    rs_accepted st = of_nat (length (accepted (run_results tr))) \<and>
    rs_rejected st = of_nat (length (rejected (run_results tr))) \<and>
    rs_trades st = of_nat (length (run_trades tr)) \<and>
    timer_compute (clock w (ticks w + 1 + 2 * length (pr_orders parsed) + length (run_trades tr)) - clock w (ticks w))
      \<lparr>timer_t0 = 0, timer_samples = latencies (clock w) (ticks w + 1) (run_results tr)\<rparr> = Some (rs_latency st)"
proof -
  let ?os = "pr_orders parsed" and ?n = "length (pr_orders parsed)"
  let ?start = "alloc_orders 0 ?os w"
  let ?i = "if pr_errors parsed \<noteq> [] \<and> ?os = []
      then fold (\<lambda>x. put_err (parse_error_text x)) (pr_errors parsed) (put_err (''Parse errors:'' @ newline) i) else i"
  let ?init = "\<lparr>rp_engine = e, rp_world = snd (nowNs ?start), rp_timer = LatencyTimer_new,
      rp_stats = ReplayStats_zero\<lparr>rs_submitted := of_nat ?n\<rparr>, rp_io = ?i\<rparr>"
  from alloc_orders_run [OF refs parseFile_new [OF pf], of w 0] obtain tr0 where
    tr0: "engine_run (e, w) tr0 (e, ?start)" "constructs tr0 = zip [0..<0 + ?n] ?os" "submits tr0 = []" "run_trades tr0 = []" "run_results tr0 = []"
    by (elim exE conjE) (rule that)
  have "engine_inv e ?start" using run_inv [OF tr0(1)] inv by simp
  then have ok: "replay_ok 0 ?init" using refs by (simp add: replay_ok_def engine_inv_clock)
  have q: "quantity_upto (0 + ?n) (rp_world ?init) = (\<Sum>x\<leftarrow>?os. unat (oquantity x))"
    using quantity_upto_cong [of "snd (nowNs ?start)" ?start ?n] alloc_quantity [of ?os w] by (simp add: world_simps)
  from replay_loop_run [OF ok, of ?n cfg, unfolded q, OF total] obtain s tr where
    r: "replay_loop cfg [0..<0 + ?n] ?init = Some s" "replay_ok (0 + ?n) s"
      "engine_run (rp_engine ?init, rp_world ?init) tr (rp_engine s, rp_world s)"
      "constructs tr = []" "submits tr = [0..<0 + ?n]"
      "length (run_results tr) = ?n" "clock (rp_world s) = clock (rp_world ?init)"
      "ticks (rp_world s) = ticks (rp_world ?init) + 2 * ?n + length (run_trades tr)"
      "timer_samples (rp_timer s) = timer_samples (rp_timer ?init)
        @ latencies (clock (rp_world ?init)) (ticks (rp_world ?init)) (run_results tr)"
      "rs_accepted (rp_stats s) = rs_accepted (rp_stats ?init) + of_nat (length (accepted (run_results tr)))"
      "rs_rejected (rp_stats s) = rs_rejected (rp_stats ?init) + of_nat (length (rejected (run_results tr)))"
      "rs_trades (rp_stats s) = rs_trades (rp_stats ?init) + of_nat (length (run_trades tr))"
      "rs_submitted (rp_stats s) = rs_submitted (rp_stats ?init)"
    by (elim exE conjE) (rule that)
  have ck: "clock (rp_world ?init) = clock w" "ticks (rp_world ?init) = ticks w + 1"
    "clock ?start = clock w" "ticks ?start = ticks w"
    using alloc_clock [of 0 ?os w] by (simp_all add: world_simps)
  have samples: "timer_samples (rp_timer s) = latencies (clock w) (ticks w + 1) (run_results tr)"
    using r(9) unfolding ck by (simp add: LatencyTimer_new_def)
  then have "length (timer_samples (rp_timer s)) \<le> 2 ^ 31" using r(6) len by (simp add: length_latencies)
  from compute_defined [OF this] obtain lat where
    lat: "timer_compute (fst (nowNs (rp_world s)) - fst (nowNs ?start)) (rp_timer s) = Some lat" by blast
  let ?st = "rp_stats s\<lparr>rs_latency := lat\<rparr>"
  let ?fin = "s\<lparr>rp_world := snd (nowNs (rp_world s)), rp_stats := ?st\<rparr>"
  have loop: "replay_loop cfg [0..<?n] ?init = Some s" using r(1) by (simp only: add_0)
  have wall: "nowNs ?start = (fst (nowNs ?start), snd (nowNs ?start))" by simp
  have wall2: "nowNs (rp_world s) = (fst (nowNs (rp_world s)), snd (nowNs (rp_world s)))" by simp
  have run: "replay_run files cfg e (w, i) = Some (?st, ?fin)"
    unfolding replay_run_def pf option.case Let_def fst_conv snd_conv
    by (subst wall) (simp only: prod.case loop option.case, subst wall2, simp only: prod.case lat option.case)
  have step: "engine_step (rp_engine s, rp_world s) Read_Clock None (rp_engine s, snd (nowNs (rp_world s)))"
    by (rule step_clock)
  let ?tr = "tr0 @ (Read_Clock, None) # (tr @ [(Read_Clock, None)])"
  have er: "engine_run (e, w) ?tr (rp_engine ?fin, rp_world ?fin)"
    using run_trans [OF tr0(1) run_step [OF step_clock run_trans [OF r(3) [simplified] run_step [OF step run_nil]]]] by simp
  have "constructs ?tr = zip [0..<?n] ?os" "submits ?tr = [0..<?n]"
    using tr0(2,3) r(4,5) by (simp_all add: constructs_append submits_append)
  moreover have "run_trades ?tr = run_trades tr" using tr0(4) by (simp add: run_trades_def)
  moreover have "run_results ?tr = run_results tr" using tr0(5) by simp
  moreover have "timer_compute (clock w (ticks w + 1 + 2 * ?n + length (run_trades tr)) - clock w (ticks w))
      \<lparr>timer_t0 = 0, timer_samples = latencies (clock w) (ticks w + 1) (run_results tr)\<rparr> = Some lat"
  proof -
    have "fst (nowNs (rp_world s)) - fst (nowNs ?start)
        = clock w (ticks w + 1 + 2 * ?n + length (run_trades tr)) - clock w (ticks w)"
      using r(7,8) unfolding ck by (simp add: nowNs_def ck(3,4))
    then show ?thesis using lat samples
      by (subst compute_samples [of _ "rp_timer s"]) simp_all
  qed
  moreover have "engine_inv (rp_engine ?fin) (rp_world ?fin)" using r(2) by (simp add: replay_ok_def engine_inv_clock)
  moreover have "rs_submitted ?st = of_nat ?n" "rs_accepted ?st = of_nat (length (accepted (run_results tr)))"
    "rs_rejected ?st = of_nat (length (rejected (run_results tr)))" "rs_latency ?st = lat"
    "rs_trades ?st = of_nat (length (run_trades tr))"
    using r(10-13) by (simp_all add: ReplayStats_zero_def)
  ultimately show ?thesis using run er r(6) by (intro exI [of _ ?st] exI [of _ ?fin] exI [of _ ?tr]) (simp only:)
qed

end
