(* ===== verification/Command_Line.thy ===== *)
theory Command_Line
  imports Std_Parse
begin

text \<open>
  The command lines of the two programs: \<^verbatim>\<open>splitComma\<close>, written twice in \<^verbatim>\<open>src/main.cpp\<close> and
  \<^verbatim>\<open>src/exchange_bench.cpp\<close>, and the loops over \<^verbatim>\<open>argv\<close>.  The first program ignores what it does not
  know; the second stops with its usage text, and a number it cannot read is an exception nobody
  catches.
\<close>

section \<open>Splitting at commas\<close>

text \<open>\<^verbatim>\<open>s.find(c, start)\<close>, \<open>None\<close> for \<^verbatim>\<open>npos\<close>, and \<^verbatim>\<open>s.substr(pos, n)\<close>.\<close>

definition str_find :: "char \<Rightarrow> string \<Rightarrow> nat \<Rightarrow> nat option" where
  "str_find c s start =
     (if c \<in> set (drop start s) then Some (start + length (takeWhile (\<lambda>x. x \<noteq> c) (drop start s))) else None)"

definition str_substr :: "string \<Rightarrow> nat \<Rightarrow> nat \<Rightarrow> string" where
  "str_substr s pos n = take n (drop pos s)"

lemma takeWhile_length_less: "c \<in> set u \<Longrightarrow> length (takeWhile (\<lambda>x. x \<noteq> c) u) < length u"
  by (induction u) auto

lemma str_find_bounds: "str_find c s start = Some pos \<Longrightarrow> start \<le> pos \<and> pos < length s"
  using takeWhile_length_less [of c "drop start s"] by (auto simp: str_find_def split: if_splits)

function split_from :: "string \<Rightarrow> nat \<Rightarrow> string list \<Rightarrow> string list" where
  "split_from s start out =
     (case str_find (CHR '','') s start of
        Some pos \<Rightarrow> split_from s (pos + 1) (out @ [str_substr s start (pos - start)])
      | None \<Rightarrow> out @ [drop start s])"
  by pat_completeness auto
termination
  by (relation "measure (\<lambda>(s, start, out). length s - start)") (auto dest: str_find_bounds)

declare split_from.simps [simp del]

definition splitComma :: "string \<Rightarrow> string list" where
  "splitComma s = split_from s 0 []"

lemma getlines_whole:
  assumes "d \<notin> set u" shows "getlines d u @ (if u = [] \<or> last u = d then [''''] else []) = [u]"
proof (cases "u = []")
  case False
  with assms have "last u \<noteq> d" by (metis last_in_set)
  with False getlines_last [OF assms] show ?thesis by simp
qed simp

lemma split_from_tokens:
  "split_from s start out =
     out @ getlines (CHR '','') (drop start s) @
       (if drop start s = [] \<or> last (drop start s) = CHR '','' then [''''] else [])"
proof (induction s start out rule: split_from.induct)
  case (1 s start out)
  show ?case
  proof (cases "CHR '','' \<in> set (drop start s)")
    case False
    then have "str_find (CHR '','') s start = None" by (simp add: str_find_def)
    then have "split_from s start out = out @ [drop start s]" by (subst split_from.simps) simp
    then show ?thesis by (simp only: getlines_whole [OF False])
  next
    case True
    from split_list_first [OF this] obtain t u where tu: "drop start s = t @ CHR '','' # u" "CHR '','' \<notin> set t"
      by blast
    then have tw: "takeWhile (\<lambda>x. x \<noteq> CHR '','') (drop start s) = t" by (auto simp: takeWhile_append)
    with True have f: "str_find (CHR '','') s start = Some (start + length t)" by (simp add: str_find_def)
    have d: "drop (start + length t + 1) s = u"
    proof -
      have "drop (Suc (length t)) (drop start s) = u" unfolding tu(1) by simp
      then show ?thesis by (simp add: add.commute)
    qed
    have sub: "str_substr s start (start + length t - start) = t" by (simp add: str_substr_def tu(1))
    have "split_from s start out = split_from s (start + length t + 1) (out @ [t])"
      using f sub by (subst split_from.simps) simp
    also have "\<dots> = (out @ [t]) @ getlines (CHR '','') u @ (if u = [] \<or> last u = CHR '','' then [''''] else [])"
      using 1 [OF f] sub unfolding d by simp
    finally show ?thesis unfolding tu(1) getlines_token [OF tu(2)] by auto
  qed
qed

lemma splitComma_tokens:
  "splitComma s = getlines (CHR '','') s @ (if s = [] \<or> last s = CHR '','' then [''''] else [])"
  by (simp add: splitComma_def split_from_tokens)

section \<open>The exchange program\<close>

record MainOptions =
  m_csvPath :: string
  m_symbols :: "string list"
  m_replay :: bool
  m_interactive :: bool
  m_trades :: bool
  m_book :: bool
  m_verbose :: bool

definition MainOptions_default :: MainOptions where
  "MainOptions_default =
     \<lparr>m_csvPath = '''', m_symbols = [''AAPL'', ''MSFT'', ''TSLA'', ''NVDA''], m_replay = False,
      m_interactive = False, m_trades = False, m_book = False, m_verbose = False\<rparr>"

fun main_args :: "string list \<Rightarrow> MainOptions \<Rightarrow> MainOptions" where
  "main_args [] op = op"
| "main_args (a # rest) op =
     (if a = ''--replay'' \<and> rest \<noteq> [] then main_args (tl rest) (op\<lparr>m_replay := True, m_csvPath := hd rest\<rparr>)
      else if a = ''--interactive'' then main_args rest (op\<lparr>m_interactive := True\<rparr>)
      else if a = ''--symbols'' \<and> rest \<noteq> [] then main_args (tl rest) (op\<lparr>m_symbols := splitComma (hd rest)\<rparr>)
      else if a = ''--trades'' then main_args rest (op\<lparr>m_trades := True\<rparr>)
      else if a = ''--book'' then main_args rest (op\<lparr>m_book := True\<rparr>)
      else if a = ''--verbose'' then main_args rest (op\<lparr>m_verbose := True\<rparr>)
      else main_args rest op)"

section \<open>The benchmark program\<close>

datatype BenchmarkMode = Baseline | Pool | Pipeline

record BenchmarkConfig =
  bc_orderCount :: u64
  bc_symbols :: "string list"
  bc_seed :: u32
  bc_csvOutput :: string
  bc_verify :: bool
  bc_mode :: BenchmarkMode
  bc_pipelineCapacity :: u64

text \<open>The defaults of \<^verbatim>\<open>BenchmarkConfig\<close> with the output file the program sets first.\<close>

definition BenchmarkConfig_default :: BenchmarkConfig where
  "BenchmarkConfig_default =
     \<lparr>bc_orderCount = 1000000, bc_symbols = [''AAPL'', ''MSFT'', ''NVDA'', ''TSLA''], bc_seed = 42,
      bc_csvOutput = ''benchmark-results.csv'', bc_verify = True, bc_mode = Baseline, bc_pipelineCapacity = 0\<rparr>"

datatype bench_args =
    Bench_run BenchmarkConfig
  | Bench_help
  | Bench_unknown string
  | Bench_uncaught

text \<open>The second copy of \<^verbatim>\<open>splitComma\<close>, with the same loop.\<close>

definition bench_splitComma :: "string \<Rightarrow> string list" where
  "bench_splitComma s = split_from s 0 []"

definition bench_symbols :: "string \<Rightarrow> string list option" where
  "bench_symbols arg =
     (if CHR '','' \<in> set arg then Some (bench_splitComma arg)
      else case stoull arg of
             None \<Rightarrow> None
           | Some n \<Rightarrow> (let all = [''AAPL'', ''MSFT'', ''NVDA'', ''TSLA''];
                            n = (if of_nat (length all) < n then of_nat (length all) else n)
                        in Some (take (unat n) all)))"

fun bench_parse :: "string list \<Rightarrow> BenchmarkConfig \<Rightarrow> bench_args" where
  "bench_parse [] cfg = Bench_run cfg"
| "bench_parse (a # rest) cfg =
     (if a = ''--orders'' \<and> rest \<noteq> []
      then (case stoull (hd rest) of
              None \<Rightarrow> Bench_uncaught
            | Some n \<Rightarrow> bench_parse (tl rest) (cfg\<lparr>bc_orderCount := n\<rparr>))
      else if a = ''--symbols'' \<and> rest \<noteq> []
      then (case bench_symbols (hd rest) of
              None \<Rightarrow> Bench_uncaught
            | Some ss \<Rightarrow> bench_parse (tl rest) (cfg\<lparr>bc_symbols := ss\<rparr>))
      else if a = ''--seed'' \<and> rest \<noteq> []
      then (case stoull (hd rest) of
              None \<Rightarrow> Bench_uncaught
            | Some n \<Rightarrow> bench_parse (tl rest) (cfg\<lparr>bc_seed := ucast n\<rparr>))
      else if a = ''--csv'' \<and> rest \<noteq> [] then bench_parse (tl rest) (cfg\<lparr>bc_csvOutput := hd rest\<rparr>)
      else if a = ''--no-verify'' then bench_parse rest (cfg\<lparr>bc_verify := False\<rparr>)
      else if a = ''--no-csv'' then bench_parse rest (cfg\<lparr>bc_csvOutput := ''''\<rparr>)
      else if a = ''--pool'' then bench_parse rest (cfg\<lparr>bc_mode := Pool\<rparr>)
      else if a = ''--pipeline'' then bench_parse rest (cfg\<lparr>bc_mode := Pipeline\<rparr>)
      else if a = ''--ring-size'' \<and> rest \<noteq> []
      then (case stoull (hd rest) of
              None \<Rightarrow> Bench_uncaught
            | Some n \<Rightarrow> bench_parse (tl rest) (cfg\<lparr>bc_pipelineCapacity := n\<rparr>))
      else if a = ''--help'' \<or> a = ''-h'' then Bench_help
      else Bench_unknown a)"

lemma bench_symbols_number: "bench_symbols ''0'' = Some []"
  by (simp add: bench_symbols_def stoull_def read_sign_def is_space_def is_digit_def read_digits_def digit_val_def)

end
