(* ===== verification/Exchange_Main.thy ===== *)
theory Exchange_Main
  imports Replay_Engine Command_Line
begin

text \<open>
  \<^verbatim>\<open>main\<close> of \<^verbatim>\<open>src/main.cpp\<close>: the usage text, the replay mode with its summary, and the interactive mode.
  The result is the exit status with the final clock and output; \<open>None\<close> is undefined
  behaviour in one of the parts.  Files are their contents, the standard input a string.
\<close>

definition usage_text :: "string \<Rightarrow> string" where
  "usage_text argv0 =
     ''Usage:'' @ newline @
     ''  '' @ argv0 @ '' --replay <orders.csv> [options]'' @ newline @
     ''  '' @ argv0 @ '' --interactive'' @ newline @
     newline @ ''Options:'' @ newline @
     ''  --symbols SYM1,SYM2,...   Registered symbols (default: AAPL,MSFT,TSLA,NVDA)'' @ newline @
     ''  --trades                  Print each trade'' @ newline @
     ''  --book                    Print book after each trade'' @ newline @
     ''  --verbose                 Print rejected orders'' @ newline"

definition microseconds :: "u64 \<Rightarrow> double" where
  "microseconds ns = dbl_apply (\<lambda>x. x / 1000) (to_double (of_nat (unat ns)))"

definition put_us :: "string \<Rightarrow> u64 \<Rightarrow> io \<Rightarrow> io" where
  "put_us label ns i =
     put ('' '' @ [CHR 0xCE, CHR 0xBC] @ ''s'' @ newline) (put_double (microseconds ns) (put label i))"

definition replay_summary :: "ReplayStats \<Rightarrow> io \<Rightarrow> io" where
  "replay_summary st i =
     (let l = rs_latency st;
          i1 = put (newline @ ''=== Replay Complete ==='' @ newline @
                    ''Orders submitted : '' @ to_string_u64 (rs_submitted st) @ newline @
                    ''Orders accepted  : '' @ to_string_u64 (rs_accepted st) @ newline @
                    ''Orders rejected  : '' @ to_string_u64 (rs_rejected st) @ newline @
                    ''Trades generated : '' @ to_string_u64 (rs_trades st) @ newline) i;
          i2 = put (newline @ ''--- Matching Latency ---'' @ newline) i1;
          i3 = put_us ''max  : '' (st_max l) (put_us ''p99  : '' (st_p99 l) (put_us ''p95  : '' (st_p95 l)
                 (put_us ''p50  : '' (st_p50 l) (put_us ''Mean : '' (st_mean l) i2))))
      in put (''Throughput : '' @ to_string_u64 (st_throughput l div 1000) @ '' K orders/sec'' @ newline) i3)"

definition main_replay ::
  "(string \<Rightarrow> string option) \<Rightarrow> MainOptions \<Rightarrow> world \<times> io \<Rightarrow> (int \<times> world \<times> io) option" where
  "main_replay files op wi =
     (let cfg = ReplayConfig_default
                  \<lparr>rc_csvPath := m_csvPath op, rc_printTrades := m_trades op,
                   rc_printBook := m_book op, rc_verbose := m_verbose op\<rparr>
      in case replay_run files cfg (ReplayEngine_new (m_symbols op)) wi of
           None \<Rightarrow> None
         | Some (st, s) \<Rightarrow> Some (0, rp_world s, replay_summary st (rp_io s)))"

definition exchange_main ::
  "(string \<Rightarrow> string option) \<Rightarrow> string \<Rightarrow> string list \<Rightarrow> string \<Rightarrow> world \<times> io \<Rightarrow> (int \<times> world \<times> io) option" where
  "exchange_main files argv0 args stdin wi =
     (if args = [] then Some (1, fst wi, put_err (usage_text argv0) (snd wi))
      else let op = main_args args MainOptions_default
           in if m_replay op then main_replay files op wi
              else if m_interactive op
              then (case interactive (m_symbols op) stdin wi of
                      None \<Rightarrow> None
                    | Some s \<Rightarrow> Some (0, s_world s, s_io s))
              else Some (1, fst wi, put_err (usage_text argv0) (snd wi)))"

section \<open>Interactive mode as a run\<close>

lemma interactive_run:
  assumes w: "fresh_world w" and ls: "ls = before_quit (getlines (CHR 0x0A) input)"
    and def: "\<forall>l\<in>set ls. parseLine l 0 \<noteq> None"
    and total: "(\<Sum>x\<leftarrow>typed_orders ls. unat (oquantity x)) < 2 ^ 64"
  shows "\<exists>s tr. interactive syms input (w, i) = Some s \<and> engine_run (MatchingEngine_new, w) tr (s_engine s, s_world s) \<and>
    constructs tr = zip [0..<length (typed_orders ls)] (typed_orders ls) \<and>
    submits tr = [0..<length (typed_orders ls)] \<and>
    io_err (s_io s) = io_err i @ concat (replicate (bad_lines ls) (''parse error'' @ newline))"
proof -
  let ?e = "fold registerSymbol syms MatchingEngine_new"
  let ?init = "\<lparr>s_engine = ?e, s_world = w, s_next = 0, s_io = put banner i\<rparr>"
  note start = registered_start(2,3) [OF w, of syms]
  have ok: "session_ok ?init" using start by (simp add: session_ok_def)
  have tot: "session_total ?init + (\<Sum>x\<leftarrow>typed_orders ls. unat (oquantity x)) < 2 ^ 64"
    using total by (simp add: session_total_def)
  from interactive_loop_run [OF ok, of "getlines (CHR 0x0A) input"] def tot obtain s tr where
    r: "interactive_loop (getlines (CHR 0x0A) input) ?init = Some s" "engine_run (?e, w) tr (s_engine s, s_world s)"
      "constructs tr = zip [0..<0 + length (typed_orders ls)] (typed_orders ls)"
      "submits tr = [0..<0 + length (typed_orders ls)]"
      "io_err (s_io s) = io_err i @ concat (replicate (bad_lines ls) (''parse error'' @ newline))"
    unfolding ls by auto
  from register_run [of MatchingEngine_new w syms] obtain tr0 where
    r0: "engine_run (MatchingEngine_new, w) tr0 (?e, w)" "constructs tr0 = []" "submits tr0 = []" by blast
  have "interactive syms input (w, i) = Some s" using r(1) by (simp add: interactive_def Let_def)
  with run_trans [OF r0(1) r(2)] r r0 show ?thesis
    by (intro exI [of _ s] exI [of _ "tr0 @ tr"]) (simp add: constructs_append submits_append)
qed

end
