(* ===== verification/Feed_Spec.thy ===== *)
theory Feed_Spec
  imports Market_Feed Engine_Spec
begin

text \<open>
  The market data feed as a function of the abstract book: the text of a book needs no levels,
  caches or addresses.  Publishing a book of an engine under its invariant prints exactly this text.
\<close>

section \<open>The published text\<close>

definition spec_spread :: "abook \<Rightarrow> Price option" where
  "spec_spread ab =
     (case (best_of (abids ab), best_of (aasks ab)) of
        (Some p, Some q) \<Rightarrow> Some (I64 (of_int (i64_val q - i64_val p)))
      | _ \<Rightarrow> None)"

definition feed_text :: "Symbol \<Rightarrow> abook \<Rightarrow> u64 \<Rightarrow> string" where
  "feed_text sy ab depth =
     (let bs = take (unat depth) (price_levels (abids ab)); as = take (unat depth) (price_levels (aasks ab))
      in newline @ ''=== '' @ sy @ '' Order Book ==='' @ newline @
         setw_left 22 ''BIDS'' @ ''ASKS'' @ newline @ replicate 44 (CHR ''-'') @ newline @
         concat (map (book_row bs as) [0..<max (length bs) (length as)]) @
         replicate 44 (CHR ''-'') @ newline @
         price_line ''BEST_BID '' (best_of (abids ab)) @ price_line ''BEST_ASK '' (best_of (aasks ab)) @
         price_line ''SPREAD   '' (spec_spread ab))"

text \<open>A printed price leaves the stream in fixed notation.\<close>

definition spec_publish :: "Symbol \<Rightarrow> abook \<Rightarrow> Trade list \<Rightarrow> u64 \<Rightarrow> io \<Rightarrow> io" where
  "spec_publish sy ab ts depth i =
     put (feed_text sy ab depth @ concat (map trade_line ts))
       (if abids ab = [] \<and> aasks ab = [] \<and> ts = [] then i else set_fixed 2 i)"

lemma set_fixed_put: "set_fixed n (put s i) = put s (set_fixed n i)"
  "set_fixed n (set_fixed m i) = set_fixed n i" "put [] i = i"
  by (simp_all add: set_fixed_def put_def)

lemma put_price_eq: "put_price label p i = put (price_line label p) (if p = None then i else set_fixed 2 i)"
  by (simp add: put_price_def price_line_def put_double_def set_fixed_put split: option.split)

lemma printTrades_eq: "printTrades ts i = put (concat (map trade_line ts)) (if ts = [] then i else set_fixed 2 i)"
proof -
  have one: "print_trade t i = put (trade_line t) (set_fixed 2 i)" for t i
    by (simp add: print_trade_def trade_line_def put_double_def set_fixed_put)
  have "fold print_trade ts i = put (concat (map trade_line ts)) (if ts = [] then i else set_fixed 2 i)"
    by (induction ts arbitrary: i) (simp_all add: one set_fixed_put)
  then show ?thesis by (simp add: printTrades_def)
qed

lemma fold_put_eq: "fold (\<lambda>k. put (f k)) ks i = put (concat (map f ks)) i"
  by (induction ks arbitrary: i) (simp_all add: set_fixed_put)

lemma best_of_None: "best_of xs = None \<longleftrightarrow> xs = []" "best_of [] = None"
  by (simp_all add: best_of_def split: list.split)

lemma spread_spec:
  assumes wf: "book_wf h b" and s: "spread b = Some spd"
  shows "spd = spec_spread (abs_book h b)"
proof (cases "\<exists>p q. bestBid b = Some p \<and> bestAsk b = Some q")
  case True
  then obtain p q where pq: "bestBid b = Some p" "bestAsk b = Some q" by blast
  with s obtain d where d: "spd = Some d" "i64_sub q p = Some d" by (auto simp: spread_def)
  then have "d = I64 (of_int (i64_val q - i64_val p))" using i64_sub_val by (metis i64_of_val)
  with pq d show ?thesis by (simp add: spec_spread_def flip: best_prices [OF wf])
next
  case False
  with s show ?thesis
    by (auto simp: spread_def spec_spread_def simp flip: best_prices [OF wf] split: option.splits)
qed

lemma publish_spec:
  assumes inv: "engine_inv e w" and b: "books e s = Some b"
  shows "publish b ts depth i = Some (spec_publish s (abs_book (heap w) b) ts depth i)"
proof -
  note wf = engine_invD(1) [OF inv b]
  have sy: "book_symbol b = s" by (rule engine_invD(2) [OF inv b])
  from spread_defined [OF inv b] obtain spd where spd: "spread b = Some spd" by blast
  have "side_wf BUY (heap w) (bids b)" "side_wf SELL (heap w) (asks b)" using wf by (simp_all add: book_wf_def)
  from side_levels [OF this(1)] side_levels [OF this(2)]
  have top: "topBids depth b = take (unat depth) (price_levels (abids (abs_book (heap w) b)))"
    "topAsks depth b = take (unat depth) (price_levels (aasks (abs_book (heap w) b)))"
    by (simp_all add: depth_views abs_book_def)
  have none: "spec_spread ab = None \<longleftrightarrow> abids ab = [] \<or> aasks ab = []" for ab
    by (cases "abids ab"; cases "aasks ab") (simp_all add: spec_spread_def best_of_def)
  show ?thesis
    unfolding publish_def printBook_def spd top best_prices [OF wf] sy
    by (simp add: Let_def put_price_eq printTrades_eq fold_put_eq spec_publish_def feed_text_def set_fixed_put
        spread_spec [OF wf spd] best_of_None none)
qed

end
