(* ===== verification/Program_Spec.thy ===== *)
theory Program_Spec
  imports Exchange_Main Feed_Spec
begin

text \<open>
  A reference program for \<^verbatim>\<open>src/main.cpp\<close>, over values only: the state is a value-based engine, the
  number of clock readings and what has been printed.  It has no heap, no addresses, no levels and no
  caches.  The exchange program, in both modes, prints exactly what this one prints.
\<close>

record pstate =
  ps_engine :: aengine
  ps_ticks :: nat
  ps_io :: io

section \<open>Interactive mode\<close>

definition event_line :: "Trade \<Rightarrow> string" where
  "event_line t =
     ''TRADE sym='' @ tsymbol t @ '' price='' @ ss_double (fromFixedPrice (tprice t)) @
     '' qty='' @ to_string_u64 (tquantity t) @
     '' maker='' @ to_string_u64 (makerOrderId t) @ '' taker='' @ to_string_u64 (takerOrderId t) @ newline"

text \<open>The trades as logged, then the book of the symbol and the trades again; the clock is read once per log entry.\<close>

definition spec_feed :: "Symbol \<Rightarrow> Trade list \<Rightarrow> u64 \<Rightarrow> aengine \<Rightarrow> io \<Rightarrow> io" where
  "spec_feed sy ts depth a i =
     (case ae_books a sy of None \<Rightarrow> i | Some ab \<Rightarrow> spec_publish sy ab ts depth i)"

definition spec_typed :: "Order \<Rightarrow> (nat \<Rightarrow> Timestamp) \<Rightarrow> pstate \<Rightarrow> pstate" where
  "spec_typed x clk s =
     (let (res, a, t) = spec_submit x clk (ps_ticks s) (ps_engine s);
          i = put (concat (map event_line (rtrades res))) (ps_io s)
      in \<lparr>ps_engine = a, ps_ticks = t + length (rtrades res), ps_io = spec_feed (osymbol x) (rtrades res) 5 a i\<rparr>)"

definition spec_line :: "string \<Rightarrow> (nat \<Rightarrow> Timestamp) \<Rightarrow> pstate \<Rightarrow> pstate" where
  "spec_line line clk s =
     (case parseLine line 0 of
        Some (Some x) \<Rightarrow> spec_typed x clk s
      | _ \<Rightarrow> s\<lparr>ps_io := put_err (''parse error'' @ newline) (ps_io s)\<rparr>)"

definition spec_interactive :: "string list \<Rightarrow> string \<Rightarrow> (nat \<Rightarrow> Timestamp) \<Rightarrow> nat \<Rightarrow> io \<Rightarrow> pstate" where
  "spec_interactive syms input clk t i =
     fold (\<lambda>line. spec_line line clk) (before_quit (getlines (CHR 0x0A) input))
       \<lparr>ps_engine = spec_start syms, ps_ticks = t, ps_io = put banner i\<rparr>"

section \<open>The interactive mode computes it\<close>

definition session_view :: "session \<Rightarrow> pstate" where
  "session_view s =
     \<lparr>ps_engine = abs_engine (heap (s_world s)) (s_engine s), ps_ticks = ticks (s_world s), ps_io = s_io s\<rparr>"

lemma log_trades_eq:
  "log_trades (EventLog_new None) ts (w, i)
    = Some (w\<lparr>ticks := ticks w + length ts\<rparr>, put (concat (map event_line ts)) i)"
  by (induction ts arbitrary: w i)
    (simp_all add: set_fixed_put logTrade_def emit_def EventLog_new_def stdout_sink_def nowNs_def event_line_def)

lemma interactive_order_spec:
  assumes ok: "session_ok s" and p: "parseLine line 0 = Some (Some x)"
    and total: "session_total s + unat (oquantity x) < 2 ^ 64" and s': "interactive_line line s = Some s'"
  shows "session_view s' = spec_typed x (clock (s_world s)) (session_view s) \<and> clock (s_world s') = clock (s_world s)"
proof -
  let ?k = "s_next s" and ?e = "s_engine s"
  let ?w = "upd_order ?k (\<lambda>_. x) (s_world s)"
  from parseLine_new [OF p] obtain i sy sd ty pr q ts where x: "x = Order_new i sy sd ty pr q ts" by blast
  have inv: "engine_inv ?e (s_world s)" and refs: "engine_refs ?e \<subseteq> {..<?k}" using ok by (simp_all add: session_ok_def)
  have new: "?k \<notin> engine_refs ?e" using refs by auto
  have inv1: "engine_inv ?e ?w" unfolding x by (rule engine_inv_construct [OF inv new])
  have "(\<Sum>r<Suc ?k. unat (oquantity (heap ?w r))) < 2 ^ 64"
    using total by (simp add: session_total_def world_simps)
  note fits = created_fits [OF inv1 refs this]
  have a: "abs_engine (heap ?w) ?e = abs_engine (heap (s_world s)) ?e"
    using refs by (intro abs_engine_cong) (auto simp: world_simps)
  from submit_refines [OF inv1 fits] obtain res e' w1 where
    sub: "submitOrder ?k ?e ?w = Some (res, e', w1)" "clock w1 = clock ?w"
      "(res, abs_engine (heap w1) e', ticks w1) = spec_submit (heap ?w ?k) (clock ?w) (ticks ?w) (abs_engine (heap ?w) ?e)" by blast
  have inv2: "engine_inv e' w1" using submit_inv [OF inv1 fits] sub(1) by auto
  have sy: "osymbol (heap w1 ?k) = osymbol x"
    using submit_same_order [OF inv1 fits sub(1), of ?k] by (simp add: same_order_def world_simps)
  let ?i = "put (concat (map event_line (rtrades res))) (s_io s)"
  have "(case engine_book (osymbol x) e' of None \<Rightarrow> Some ?i | Some b \<Rightarrow> publish b (rtrades res) 5 ?i)
      = Some (spec_feed (osymbol x) (rtrades res) 5 (abs_engine (heap w1) e') ?i)"
    using publish_spec [OF inv2]
    by (cases "books e' (osymbol x)") (simp_all add: engine_book_def spec_feed_def abs_engine_def)
  then have "s' = \<lparr>s_engine = e', s_world = w1\<lparr>ticks := ticks w1 + length (rtrades res)\<rparr>, s_next = Suc ?k,
      s_io = spec_feed (osymbol x) (rtrades res) 5 (abs_engine (heap w1) e') ?i\<rparr>"
    using s' p sub(1) by (simp add: interactive_line_def Let_def log_trades_eq sy)
  moreover have "spec_submit x (clock (s_world s)) (ticks (s_world s)) (abs_engine (heap (s_world s)) ?e)
      = (res, abs_engine (heap w1) e', ticks w1)"
    using sub(3) a by (simp add: world_simps)
  ultimately show ?thesis using sub(2) by (simp add: session_view_def spec_typed_def world_simps)
qed

lemma interactive_loop_spec:
  assumes "session_ok s" and "\<forall>l\<in>set (before_quit ls). parseLine l 0 \<noteq> None"
    and "session_total s + (\<Sum>x\<leftarrow>typed_orders (before_quit ls). unat (oquantity x)) < 2 ^ 64"
  shows "\<exists>s'. interactive_loop ls s = Some s' \<and>
    session_view s' = fold (\<lambda>line. spec_line line (clock (s_world s))) (before_quit ls) (session_view s)"
  using assms
proof (induction ls arbitrary: s)
  case (Cons l ls)
  show ?case
  proof (cases "l = ''QUIT'' \<or> l = ''quit''")
    case False
    then have bq: "before_quit (l # ls) = l # before_quit ls" by (simp add: before_quit_def)
    from Cons.prems(2) obtain y where y: "parseLine l 0 = Some y" unfolding bq by auto
    show ?thesis
    proof (cases y)
      case None
      let ?s = "s\<lparr>s_io := put_err (''parse error'' @ newline) (s_io s)\<rparr>"
      have step: "interactive_line l s = Some ?s" "session_view ?s = spec_line l (clock (s_world s)) (session_view s)"
        using y None by (simp_all add: interactive_line_def spec_line_def session_view_def)
      have "session_ok ?s" "session_total ?s = session_total s" using Cons.prems(1) by (simp_all add: session_ok_def session_total_def)
      moreover have "typed_orders (l # before_quit ls) = typed_orders (before_quit ls)" using y None by (simp add: typed_orders_def)
      ultimately show ?thesis using Cons.IH [of ?s] Cons.prems(2,3) False step unfolding bq by simp
    next
      case (Some x)
      note p = y [unfolded Some]
      have to: "typed_orders (l # before_quit ls) = x # typed_orders (before_quit ls)" using p by (simp add: typed_orders_def)
      from Cons.prems(3) have t: "session_total s + unat (oquantity x) < 2 ^ 64" unfolding bq to by simp
      from interactive_order [OF Cons.prems(1) p t] obtain s1 where
        s1: "interactive_line l s = Some s1" "session_ok s1" "session_total s1 = session_total s + unat (oquantity x)" by blast
      from interactive_order_spec [OF Cons.prems(1) p t s1(1)]
      have v: "session_view s1 = spec_line l (clock (s_world s)) (session_view s)" "clock (s_world s1) = clock (s_world s)"
        using p by (simp_all add: spec_line_def)
      have "session_total s1 + (\<Sum>x\<leftarrow>typed_orders (before_quit ls). unat (oquantity x)) < 2 ^ 64"
        using Cons.prems(3) unfolding bq to s1(3) by simp
      from Cons.IH [OF s1(2) _ this] Cons.prems(2) v False s1(1) show ?thesis unfolding bq by simp
    qed
  qed (auto simp: before_quit_def)
qed (simp add: before_quit_def)

lemma interactive_spec:
  assumes w: "fresh_world w" and "ls = before_quit (getlines (CHR 0x0A) input)"
    and "\<forall>l\<in>set ls. parseLine l 0 \<noteq> None" and "(\<Sum>x\<leftarrow>typed_orders ls. unat (oquantity x)) < 2 ^ 64"
  shows "\<exists>s. interactive syms input (w, i) = Some s \<and> session_view s = spec_interactive syms input (clock w) (ticks w) i"
proof -
  let ?s = "\<lparr>s_engine = fold registerSymbol syms MatchingEngine_new, s_world = w, s_next = 0, s_io = put banner i\<rparr>"
  have "session_ok ?s" using registered_start(2,3) [OF w, of syms] by (simp add: session_ok_def)
  from interactive_loop_spec [OF this, of "getlines (CHR 0x0A) input"] assms(2-4) show ?thesis
    by (simp add: session_total_def interactive_def spec_interactive_def Let_def session_view_def registered_spec)
qed

section \<open>Replay\<close>

record rstate = pstate +
  ps_samples :: "u64 list"
  ps_stats :: ReplayStats

definition spec_replay_order :: "ReplayConfig \<Rightarrow> (nat \<Rightarrow> Timestamp) \<Rightarrow> Order \<Rightarrow> rstate \<Rightarrow> rstate" where
  "spec_replay_order cfg clk x s =
     (let t0 = ps_ticks s; (res, a, t1) = spec_submit x clk (Suc t0) (ps_engine s);
          i1 = (if rstatus res = REJECTED \<and> rc_verbose cfg
                then put_err (''REJECT id='' @ to_string_u64 (oid x) @ '' '' @ rejectReason res @ newline) (ps_io s)
                else ps_io s);
          i2 = (if rc_printTrades cfg then fold replay_trade (rtrades res) i1 else i1);
          i3 = (if rc_printBook cfg \<and> rtrades res \<noteq> []
                then spec_feed (osymbol x) (rtrades res) (rc_bookDepth cfg) a i2 else i2)
      in \<lparr>ps_engine = a, ps_ticks = Suc t1, ps_io = i3, ps_samples = ps_samples s @ [clk t1 - clk t0],
          ps_stats = count_result res (ps_stats s)\<rparr>)"

definition spec_replay ::
  "ReplayConfig \<Rightarrow> string list \<Rightarrow> ParseResult \<Rightarrow> (nat \<Rightarrow> Timestamp) \<Rightarrow> nat \<Rightarrow> io \<Rightarrow> (ReplayStats \<times> nat \<times> io) option" where
  "spec_replay cfg syms parsed clk t i =
     (let i0 = (if pr_errors parsed \<noteq> [] \<and> pr_orders parsed = []
                then put_err (''Parse errors:'' @ newline @ concat (map parse_error_text (pr_errors parsed))) i else i);
          s = fold (spec_replay_order cfg clk) (pr_orders parsed)
                \<lparr>ps_engine = spec_start syms, ps_ticks = Suc t, ps_io = i0, ps_samples = [],
                 ps_stats = ReplayStats_zero\<lparr>rs_submitted := of_nat (length (pr_orders parsed))\<rparr>\<rparr>
      in map_option (\<lambda>lat. ((ps_stats s)\<lparr>rs_latency := lat\<rparr>, Suc (ps_ticks s), ps_io s))
           (timer_compute (clk (ps_ticks s) - clk t) \<lparr>timer_t0 = 0, timer_samples = ps_samples s\<rparr>))"

section \<open>The replay engine computes it\<close>

definition replay_view :: "replay \<Rightarrow> rstate" where
  "replay_view s =
     \<lparr>ps_engine = abs_engine (heap (rp_world s)) (rp_engine s), ps_ticks = ticks (rp_world s), ps_io = rp_io s,
      ps_samples = timer_samples (rp_timer s), ps_stats = rp_stats s\<rparr>"

lemma spec_replay_same:
  assumes "same_order x y" shows "spec_replay_order cfg clk x = spec_replay_order cfg clk y"
proof -
  from assms have f: "oid x = oid y" "osymbol x = osymbol y" by (simp_all add: same_order_def)
  show ?thesis unfolding spec_replay_order_def spec_submit_same [OF assms] f ..
qed

lemma fold_replay_same:
  "list_all2 same_order xs ys \<Longrightarrow> fold (spec_replay_order cfg clk) xs s = fold (spec_replay_order cfg clk) ys s"
  by (induction xs ys arbitrary: s rule: list_all2_induct) (simp_all add: spec_replay_same)

lemma replay_step_spec:
  assumes ok: "replay_ok k s" and total: "quantity_upto (Suc k) (rp_world s) < 2 ^ 64" and s': "replay_step cfg k s = Some s'"
  shows "replay_view s' = spec_replay_order cfg (clock (rp_world s)) (heap (rp_world s) k) (replay_view s) \<and>
    clock (rp_world s') = clock (rp_world s) \<and> (\<forall>x. same_order (heap (rp_world s') x) (heap (rp_world s) x))"
proof -
  let ?e = "rp_engine s" and ?w = "snd (nowNs (rp_world s))"
  have inv: "engine_inv ?e ?w" and refs: "engine_refs ?e \<subseteq> {..<k}" using ok by (simp_all add: replay_ok_def engine_inv_clock)
  have "(\<Sum>r<Suc k. unat (oquantity (heap ?w r))) < 2 ^ 64" using total by (simp add: quantity_upto_def world_simps)
  note fits = created_fits [OF inv refs this]
  from submit_refines [OF inv fits] obtain res e' w2 where
    sub: "submitOrder k ?e ?w = Some (res, e', w2)" "clock w2 = clock ?w"
      "(res, abs_engine (heap w2) e', ticks w2) = spec_submit (heap ?w k) (clock ?w) (ticks ?w) (abs_engine (heap ?w) ?e)" by blast
  have inv2: "engine_inv e' w2" using submit_inv [OF inv fits] sub(1) by auto
  have same: "same_order (heap w2 x) (heap (rp_world s) x)" for x
    using submit_same_order [OF inv fits sub(1), of x] by (simp add: world_simps)
  then have f: "osymbol (heap w2 k) = osymbol (heap (rp_world s) k)" "oid (heap w2 k) = oid (heap (rp_world s) k)"
    by (simp_all add: same_order_def)
  have feed: "(case engine_book sy e' of None \<Rightarrow> Some j | Some b \<Rightarrow> publish b (rtrades res) d j)
      = Some (spec_feed sy (rtrades res) d (abs_engine (heap w2) e') j)" for sy d j
    using publish_spec [OF inv2] by (cases "books e' sy") (simp_all add: engine_book_def spec_feed_def abs_engine_def)
  have pick: "(if c then Some j1 else Some j2) = Some (if c then j1 else j2)" for c and j1 j2 :: io by simp
  have spec: "spec_submit (heap (rp_world s) k) (clock (rp_world s)) (Suc (ticks (rp_world s))) (abs_engine (heap (rp_world s)) ?e)
      = (res, abs_engine (heap w2) e', ticks w2)" using sub(3) by (simp add: world_simps)
  have t: "timer_start (rp_timer s) (rp_world s) = ((rp_timer s)\<lparr>timer_t0 := clock (rp_world s) (ticks (rp_world s))\<rparr>, ?w)"
    "timer_stop ((rp_timer s)\<lparr>timer_t0 := clock (rp_world s) (ticks (rp_world s))\<rparr>) w2
      = (\<lparr>timer_t0 = clock (rp_world s) (ticks (rp_world s)),
          timer_samples = timer_samples (rp_timer s) @ [clock w2 (ticks w2) - clock (rp_world s) (ticks (rp_world s))]\<rparr>, snd (nowNs w2))"
    by (simp_all add: timer_start_def timer_stop_def nowNs_def)
  from s' show ?thesis
    unfolding replay_step_def Let_def t prod.case sub(1) option.case
    using same sub(2) by (auto simp: feed f pick replay_view_def spec_replay_order_def spec Let_def world_simps)
qed

lemma replay_loop_spec:
  assumes "replay_ok k s" and "quantity_upto (k + n) (rp_world s) < 2 ^ 64"
  shows "\<exists>s'. replay_loop cfg [k..<k + n] s = Some s' \<and> clock (rp_world s') = clock (rp_world s) \<and>
    replay_view s' = fold (spec_replay_order cfg (clock (rp_world s))) (map (heap (rp_world s)) [k..<k + n]) (replay_view s)"
  using assms
proof (induction n arbitrary: k s)
  case (Suc n)
  have q: "quantity_upto (Suc k) (rp_world s) < 2 ^ 64"
    using quantity_upto_mono [of "Suc k" "k + Suc n" "rp_world s"] Suc.prems(2) by simp
  from replay_step_run [OF Suc.prems(1) q, of cfg] obtain s1 where
    s1: "replay_step cfg k s = Some s1" "replay_ok (Suc k) s1"
      "\<forall>x. oquantity (heap (rp_world s1) x) = oquantity (heap (rp_world s) x)" by (elim exE conjE) (rule that)
  from replay_step_spec [OF Suc.prems(1) q s1(1)]
  have v: "replay_view s1 = spec_replay_order cfg (clock (rp_world s)) (heap (rp_world s) k) (replay_view s)"
    "clock (rp_world s1) = clock (rp_world s)" "\<forall>x. same_order (heap (rp_world s1) x) (heap (rp_world s) x)" by blast+
  have "quantity_upto (Suc k + n) (rp_world s1) < 2 ^ 64"
    using Suc.prems(2) unfolding quantity_upto_cong [OF s1(3)] add_Suc_right add_Suc .
  from Suc.IH [OF s1(2) this] obtain s' where
    r: "replay_loop cfg [Suc k..<Suc k + n] s1 = Some s'" "clock (rp_world s') = clock (rp_world s1)"
      "replay_view s' = fold (spec_replay_order cfg (clock (rp_world s1))) (map (heap (rp_world s1)) [Suc k..<Suc k + n]) (replay_view s1)"
    by blast
  have same: "list_all2 same_order (map (heap (rp_world s1)) [Suc k..<Suc k + n]) (map (heap (rp_world s)) [Suc k..<Suc k + n])"
    using v(3) by (simp add: list_all2_conv_all_nth)
  have u: "[k..<k + Suc n] = k # [Suc k..<Suc k + n]" by (subst upt_conv_Cons) simp_all
  show ?case unfolding u using s1(1) r v(1,2) fold_replay_same [OF same]
    by (intro exI [of _ s']) (simp del: upt_Suc)
qed simp

lemma put_err_lines: "fold (\<lambda>x. put_err (f x)) xs i = put_err (concat (map f xs)) i"
  by (induction xs arbitrary: i) (simp_all add: put_err_def)

lemma put_err_put: "put_err s (put_err t i) = put_err (t @ s) i"
  by (simp add: put_err_def)

lemma replay_run_spec:
  assumes w: "fresh_world w" and pf: "parseFile files (rc_csvPath cfg) = Some parsed"
    and total: "(\<Sum>x\<leftarrow>pr_orders parsed. unat (oquantity x)) < 2 ^ 64" and len: "length (pr_orders parsed) \<le> 2 ^ 31"
  shows "\<exists>st s. replay_run files cfg (ReplayEngine_new syms) (w, i) = Some (st, s) \<and>
    spec_replay cfg syms parsed (clock w) (ticks w) i = Some (st, ticks (rp_world s), rp_io s)"
proof -
  let ?os = "pr_orders parsed" and ?n = "length (pr_orders parsed)" and ?e = "ReplayEngine_new syms"
  let ?start = "alloc_orders 0 ?os w"
  let ?i = "if pr_errors parsed \<noteq> [] \<and> ?os = []
      then fold (\<lambda>x. put_err (parse_error_text x)) (pr_errors parsed) (put_err (''Parse errors:'' @ newline) i) else i"
  let ?init = "\<lparr>rp_engine = ?e, rp_world = snd (nowNs ?start), rp_timer = LatencyTimer_new,
      rp_stats = ReplayStats_zero\<lparr>rs_submitted := of_nat ?n\<rparr>, rp_io = ?i\<rparr>"
  note start = registered_start(2,3) [OF w, of syms]
  have aw: "clock ?start = clock w" "ticks ?start = ticks w" by (rule alloc_clock)+
  from replay_run_ok [OF pf start total len, of i] obtain st s where
    run: "replay_run files cfg ?e (w, i) = Some (st, s)" unfolding ReplayEngine_new_def by blast
  from alloc_orders_run [OF start(2) parseFile_new [OF pf], of w 0] obtain tr0 where
    "engine_run (fold registerSymbol syms MatchingEngine_new, w) tr0 (fold registerSymbol syms MatchingEngine_new, ?start)" by blast
  from run_inv [OF this] start(1) have "engine_inv ?e ?start" by (simp add: ReplayEngine_new_def)
  then have ok: "replay_ok 0 ?init" using start(2) by (simp add: replay_ok_def engine_inv_clock ReplayEngine_new_def)
  have q: "quantity_upto (0 + ?n) (rp_world ?init) = (\<Sum>x\<leftarrow>?os. unat (oquantity x))"
    using quantity_upto_cong [of "snd (nowNs ?start)" ?start ?n] alloc_quantity [of ?os w] by (simp add: world_simps)
  from replay_loop_spec [OF ok, of ?n cfg, unfolded q, OF total] obtain s1 where
    r: "replay_loop cfg [0..<?n] ?init = Some s1" "clock (rp_world s1) = clock (rp_world ?init)"
      "replay_view s1 = fold (spec_replay_order cfg (clock (rp_world ?init))) (map (heap (rp_world ?init)) [0..<?n]) (replay_view ?init)"
    unfolding add_0 by blast
  have h: "map (heap (rp_world ?init)) [0..<?n] = ?os" using allocated_orders [of ?os w] by (simp add: world_simps)
  have c: "clock (rp_world ?init) = clock w" "clock (rp_world s1) = clock w" using aw r(2) by (simp_all add: world_simps)
  have v0: "replay_view ?init = \<lparr>ps_engine = spec_start syms, ps_ticks = Suc (ticks w), ps_io =
      (if pr_errors parsed \<noteq> [] \<and> ?os = []
       then put_err (''Parse errors:'' @ newline @ concat (map parse_error_text (pr_errors parsed))) i else i),
      ps_samples = [], ps_stats = ReplayStats_zero\<lparr>rs_submitted := of_nat ?n\<rparr>\<rparr>"
    using aw by (simp add: replay_view_def registered_spec ReplayEngine_new_def world_simps put_err_lines put_err_put LatencyTimer_new_def)
  from r(3) have v: "replay_view s1 = fold (spec_replay_order cfg (clock w)) ?os (replay_view ?init)"
    unfolding h c .
  have "ps_ticks (replay_view s1) = ticks (rp_world s1)" "ps_io (replay_view s1) = rp_io s1"
    "ps_samples (replay_view s1) = timer_samples (rp_timer s1)" "ps_stats (replay_view s1) = rp_stats s1"
    by (simp_all add: replay_view_def)
  note view = this [unfolded v v0]
  have wall: "nowNs ?start = (clock w (ticks w), snd (nowNs ?start))" using aw by (simp add: nowNs_def)
  from run obtain lat where
    lat: "timer_compute (fst (nowNs (rp_world s1)) - clock w (ticks w)) (rp_timer s1) = Some lat"
      "st = (rp_stats s1)\<lparr>rs_latency := lat\<rparr>" "rp_world s = snd (nowNs (rp_world s1))" "rp_io s = rp_io s1"
    unfolding replay_run_def pf option.case Let_def fst_conv snd_conv
    by (subst (asm) wall) (auto simp: r(1) case_prod_beta split: option.splits)
  have fresh: "timer_compute x \<lparr>timer_t0 = 0, timer_samples = timer_samples (rp_timer s1)\<rparr> = timer_compute x (rp_timer s1)" for x
    by (rule compute_samples) simp
  have "timer_compute (clock w (ticks (rp_world s1)) - clock w (ticks w)) \<lparr>timer_t0 = 0, timer_samples = timer_samples (rp_timer s1)\<rparr> = Some lat"
    unfolding fresh using lat(1) c(2) by (simp add: nowNs_def)
  then have "spec_replay cfg syms parsed (clock w) (ticks w) i = Some (st, ticks (rp_world s), rp_io s)"
    unfolding spec_replay_def Let_def view lat(2-4) by (simp add: world_simps)
  with run show ?thesis by blast
qed

section \<open>The program\<close>

text \<open>What the inputs of the two modes have to satisfy.\<close>

definition typed_ok :: "string \<Rightarrow> bool" where
  "typed_ok input \<longleftrightarrow>
     (let ls = before_quit (getlines (CHR 0x0A) input)
      in list_all (\<lambda>l. parseLine l 0 \<noteq> None) ls \<and> (\<Sum>x\<leftarrow>typed_orders ls. unat (oquantity x)) < 2 ^ 64)"

definition file_ok :: "ParseResult option \<Rightarrow> bool" where
  "file_ok pf \<longleftrightarrow>
     (case pf of
        None \<Rightarrow> False
      | Some parsed \<Rightarrow> (\<Sum>x\<leftarrow>pr_orders parsed. unat (oquantity x)) < 2 ^ 64 \<and> length (pr_orders parsed) \<le> 2 ^ 31)"

definition spec_main ::
  "(string \<Rightarrow> string option) \<Rightarrow> string \<Rightarrow> string list \<Rightarrow> string \<Rightarrow> (nat \<Rightarrow> Timestamp) \<Rightarrow> nat \<Rightarrow> io \<Rightarrow> (int \<times> nat \<times> io) option" where
  "spec_main files argv0 args input clk t i =
     (let op = main_args args MainOptions_default;
          cfg = \<lparr>rc_csvPath = m_csvPath op, rc_printTrades = m_trades op, rc_printBook = m_book op,
                 rc_verbose = m_verbose op, rc_bookDepth = 5\<rparr>
      in if m_replay op
         then Option.bind (parseFile files (m_csvPath op)) (\<lambda>parsed.
                map_option (\<lambda>(st, t', i'). (0, t', replay_summary st i')) (spec_replay cfg (m_symbols op) parsed clk t i))
         else if m_interactive op
         then (let s = spec_interactive (m_symbols op) input clk t i in Some (0, ps_ticks s, ps_io s))
         else Some (1, t, put_err (usage_text argv0) i))"

lemma main_spec:
  assumes "fresh_world w" and "op = main_args args MainOptions_default"
    and "m_replay op \<Longrightarrow> file_ok (parseFile files (m_csvPath op))"
    and "\<not> m_replay op \<Longrightarrow> m_interactive op \<Longrightarrow> typed_ok input"
  shows "\<exists>status w' i'. exchange_main files argv0 args input (w, i) = Some (status, w', i') \<and>
    spec_main files argv0 args input (clock w) (ticks w) i = Some (status, ticks w', i')"
proof (cases "m_replay op")
  case True
  let ?cfg = "\<lparr>rc_csvPath = m_csvPath op, rc_printTrades = m_trades op, rc_printBook = m_book op,
      rc_verbose = m_verbose op, rc_bookDepth = 5\<rparr>"
  have ne: "args \<noteq> []" using True assms(2) by (auto simp: MainOptions_default_def)
  have cfg: "ReplayConfig_default\<lparr>rc_csvPath := m_csvPath op, rc_printTrades := m_trades op,
      rc_printBook := m_book op, rc_verbose := m_verbose op\<rparr> = ?cfg" by (simp add: ReplayConfig_default_def)
  from assms(3) [OF True] obtain parsed where
    p: "parseFile files (rc_csvPath ?cfg) = Some parsed" "(\<Sum>x\<leftarrow>pr_orders parsed. unat (oquantity x)) < 2 ^ 64"
      "length (pr_orders parsed) \<le> 2 ^ 31" by (auto simp: file_ok_def split: option.splits)
  from replay_run_spec [OF assms(1) p, of "m_symbols op" i] obtain st s where
    r: "replay_run files ?cfg (ReplayEngine_new (m_symbols op)) (w, i) = Some (st, s)"
      "spec_replay ?cfg (m_symbols op) parsed (clock w) (ticks w) i = Some (st, ticks (rp_world s), rp_io s)" by blast
  have "exchange_main files argv0 args input (w, i) = Some (0, rp_world s, replay_summary st (rp_io s))"
    using ne True r(1) cfg assms(2) by (simp add: exchange_main_def main_replay_def Let_def)
  moreover have "spec_main files argv0 args input (clock w) (ticks w) i = Some (0, ticks (rp_world s), replay_summary st (rp_io s))"
    using True p(1) r(2) assms(2) by (simp add: spec_main_def Let_def)
  ultimately show ?thesis by blast
next
  case rep: False
  show ?thesis
  proof (cases "m_interactive op")
    case True
    have ne: "args \<noteq> []" using True assms(2) by (auto simp: MainOptions_default_def)
    from interactive_spec [OF assms(1) refl, of input "m_symbols op" i] assms(4) [OF rep True] obtain s where
      s: "interactive (m_symbols op) input (w, i) = Some s"
        "session_view s = spec_interactive (m_symbols op) input (clock w) (ticks w) i"
      by (auto simp: typed_ok_def Let_def list_all_iff)
    have "ps_ticks (session_view s) = ticks (s_world s)" "ps_io (session_view s) = s_io s" by (simp_all add: session_view_def)
    with ne rep True s assms(2) show ?thesis by (simp add: exchange_main_def spec_main_def Let_def)
  next
    case False
    with rep assms(2) show ?thesis by (auto simp: exchange_main_def spec_main_def Let_def MainOptions_default_def)
  qed
qed

end
