(* ===== verification/Invariant_Checker.thy ===== *)
theory Invariant_Checker
  imports Engine_Traces Book_Queries Fixed_Price Std_Stream
begin

text \<open>
  \<^verbatim>\<open>include/benchmark/InvariantChecker.hpp\<close> and \<^verbatim>\<open>src/benchmark/InvariantChecker.cpp\<close>: the checks the benchmark
  runs after a run.  Each reports exactly the faults of what it is given, and merging keeps them all; books
  of the engine and trades of a run have none.
\<close>

record InvariantViolation =
  iv_symbol :: string
  iv_rule :: string
  iv_detail :: string

record Report =
  rep_passed :: bool
  rep_violations :: "InvariantViolation list"

definition Report_ok :: Report where
  "Report_ok = \<lparr>rep_passed = True, rep_violations = []\<rparr>"

definition addViolation :: "string \<Rightarrow> string \<Rightarrow> string \<Rightarrow> Report \<Rightarrow> Report" where
  "addViolation sy rule detail r =
     \<lparr>rep_passed = False,
      rep_violations = rep_violations r @ [\<lparr>iv_symbol = sy, iv_rule = rule, iv_detail = detail\<rparr>]\<rparr>"

definition check_level :: "string \<Rightarrow> string \<Rightarrow> BookLevel \<Rightarrow> Report \<Rightarrow> Report" where
  "check_level sy nm l r =
     (let r1 = (if blqty l = 0
                then addViolation sy (''no_zero_qty_'' @ nm @ ''_level'') (''price='' @ to_string_i64 (blprice l)) r
                else r)
      in if blcount l = 0
         then addViolation sy (''no_empty_'' @ nm @ ''_level'') (''price='' @ to_string_i64 (blprice l)) r1
         else r1)"

definition checkBook :: "(OrderRef \<Rightarrow> Order) \<Rightarrow> OrderBook \<Rightarrow> Report" where
  "checkBook h b =
     (let sy = book_symbol b; bid = bestBid b; ask = bestAsk b;
          r1 = (case (bid, ask) of
                  (Some p, Some q) \<Rightarrow>
                    if q \<le> p
                    then addViolation sy ''best_bid_lt_best_ask''
                           (''bid='' @ print_double False 6 (fromFixedPrice p) @
                            '' ask='' @ print_double False 6 (fromFixedPrice q)) Report_ok
                    else Report_ok
                | _ \<Rightarrow> Report_ok);
          r2 = fold (check_level sy ''bid'') (topBids 10000 b) r1;
          r3 = fold (check_level sy ''ask'') (topAsks 10000 b) r2;
          r4 = (if (bid \<noteq> None \<or> ask \<noteq> None) \<and> totalBidQty b = 0 \<and> totalAskQty b = 0
                then addViolation sy ''resting_volume_nonzero'' ''book reports levels but zero total volume'' r3
                else r3)
      in if \<not> checkInvariants h b
         then addViolation sy ''internal_structural_invariant'' ''OrderBook::checkInvariants() failed'' r4
         else r4)"

definition check_trade :: "Trade \<Rightarrow> (Price \<times> Price) option \<Rightarrow> Report \<Rightarrow> Report" where
  "check_trade t bidAsk r =
     (let r1 = (if tprice t \<le> 0
                then addViolation (tsymbol t) ''trade_positive_price''
                       (''trade id maker='' @ to_string_u64 (makerOrderId t) @
                        '' price='' @ to_string_i64 (tprice t)) r
                else r);
          r2 = (if tquantity t = 0
                then addViolation (tsymbol t) ''trade_nonzero_qty'' (''maker='' @ to_string_u64 (makerOrderId t)) r1
                else r1)
      in case bidAsk of
           None \<Rightarrow> r2
         | Some (bid, ask) \<Rightarrow>
             if 0 < bid \<and> 0 < ask \<and> ask \<le> bid
             then addViolation (tsymbol t) ''bid_lt_ask_at_trade''
                    (''bid='' @ to_string_i64 bid @ '' ask='' @ to_string_i64 ask) r2
             else r2)"

definition checkTrades :: "Trade list \<Rightarrow> (Price \<times> Price) list \<Rightarrow> Report" where
  "checkTrades trades bidAskAtTrade =
     (let hasBidAsk = (length bidAskAtTrade = length trades)
      in fold (\<lambda>i. check_trade (trades ! i) (if hasBidAsk then Some (bidAskAtTrade ! i) else None))
           [0..<length trades] Report_ok)"

fun unique_ids_loop :: "OrderId set \<Rightarrow> OrderId list \<Rightarrow> Report \<Rightarrow> Report" where
  "unique_ids_loop seen [] r = r"
| "unique_ids_loop seen (i # ids) r =
     unique_ids_loop (insert i seen) ids
       (if i \<in> seen then addViolation ''global'' ''unique_order_ids'' (''duplicate id='' @ to_string_u64 i) r else r)"

definition checkUniqueIds :: "OrderId list \<Rightarrow> Report" where
  "checkUniqueIds ids = unique_ids_loop {} ids Report_ok"

definition merge_reports :: "Report list \<Rightarrow> Report" where
  "merge_reports rs =
     fold (\<lambda>r c. \<lparr>rep_passed = (if \<not> rep_passed r then False else rep_passed c),
                  rep_violations = rep_violations c @ rep_violations r\<rparr>) rs Report_ok"

section \<open>What passes\<close>

lemma check_level_ok: "0 < blqty l \<Longrightarrow> blcount l \<noteq> 0 \<Longrightarrow> check_level sy nm l r = r"
  by (simp add: check_level_def Let_def)

lemma fold_id: "(\<And>x. x \<in> set xs \<Longrightarrow> f x = (\<lambda>r. r)) \<Longrightarrow> fold f xs r = r"
  by (induction xs) simp_all

lemma level_count_pos:
  assumes "level_wf sd h L" shows "level_orderCount L \<noteq> 0"
proof -
  have pos: "1 \<le> unat (remainingQty (h r))" if "r \<in> set (orders L)" for r
  proof -
    have "resting_ok sd (lprice L) (h r)" using assms that by (simp add: level_wf_def)
    then show ?thesis using resting_remaining_pos [of sd "lprice L" "h r"] by simp
  qed
  have "length rs \<le> rest_qty h rs" if "set rs \<subseteq> set (orders L)" for rs
    using that
  proof (induction rs)
    case (Cons r rs)
    have "Suc (length rs) \<le> unat (remainingQty (h r)) + rest_qty h rs"
      using pos [of r] Cons by (simp add: add_mono)
    then show ?case by simp
  qed simp
  from this [of "orders L"] have "length (orders L) \<le> unat (totalQty L)" using assms by (simp add: level_wf_def)
  also have "\<dots> < 2 ^ 64" by (rule unat_u64_less)
  finally have "unat (of_nat (length (orders L)) :: u64) = length (orders L)" by (rule unat_of_nat_u64)
  moreover have "length (orders L) \<noteq> 0" using assms by (simp add: level_wf_def)
  ultimately show ?thesis unfolding level_orderCount_def by (metis unsigned_0)
qed

lemma levels_pass:
  assumes "side_wf sd h s" shows "fold (check_level sy nm) (top_levels n [] s) r = r"
proof (rule fold_id)
  fix l assume "l \<in> set (top_levels n [] s)"
  then obtain p L where l: "l = level_view (p, L)" "(p, L) \<in> set s"
    unfolding top_levels_take by (fastforce dest!: in_set_takeD)
  then have wf: "level_wf sd h L" using assms by (auto simp: side_wf_def)
  have "0 < blqty l" "blcount l \<noteq> 0"
    using totalQty_pos [OF wf] level_count_pos [OF wf] l(1) by (simp_all add: level_view_def)
  then show "check_level sy nm l = (\<lambda>r. r)" by (auto simp: check_level_ok)
qed

lemma open_side_pos: "side_wf sd h s \<Longrightarrow> s \<noteq> [] \<Longrightarrow> 0 < open_qty (abs_side h s)"
proof -
  assume s: "side_wf sd h s" "s \<noteq> []"
  then obtain p L s' where "s = (p, L) # s'" by (cases s) auto
  then have "level_wf sd h L" using s(1) by (simp add: side_wf_Cons)
  from totalQty_pos [OF this] this have "0 < rest_qty h (orders L)" by (simp add: level_wf_def word_gt_0_unat)
  then show ?thesis unfolding open_qty_abs_side using \<open>s = (p, L) # s'\<close> by (simp add: rest_qty_def)
qed

lemma checkBook_passes:
  assumes wf: "book_wf h b" shows "checkBook h b = Report_ok"
proof -
  have s: "side_wf BUY h (bids b)" "side_wf SELL h (asks b)" using wf by (simp_all add: book_wf_def)
  have lv: "fold (check_level sy nm) (topBids n b) r = r" "fold (check_level sy nm) (topAsks n b) r = r" for sy nm n r
    using levels_pass [OF s(1)] levels_pass [OF s(2)] by (simp_all add: topBids_def topAsks_def)
  have bb: "bestBid b \<noteq> None \<longleftrightarrow> bids b \<noteq> []" "bestAsk b \<noteq> None \<longleftrightarrow> asks b \<noteq> []"
    by (simp_all add: bestBid_def bestAsk_def side_best_def split: list.split)
  have tot: "\<not> ((bestBid b \<noteq> None \<or> bestAsk b \<noteq> None) \<and> totalBidQty b = 0 \<and> totalAskQty b = 0)"
  proof
    assume z: "(bestBid b \<noteq> None \<or> bestAsk b \<noteq> None) \<and> totalBidQty b = 0 \<and> totalAskQty b = 0"
    then have "open_qty (abs_side h (bids b)) = 0" "open_qty (abs_side h (asks b)) = 0"
      using side_totals [OF wf] by (simp_all only: abs_book_def abook.simps unsigned_0)
    with z open_side_pos [OF s(1)] open_side_pos [OF s(2)] show False unfolding bb by force
  qed
  have r1: "(case (bestBid b, bestAsk b) of (Some p, Some q) \<Rightarrow> if q \<le> p then x p q else Report_ok | _ \<Rightarrow> Report_ok) = Report_ok" for x
    using uncrossed_best [of b] wf by (auto simp: book_wf_def simp flip: not_less split: option.splits)
  show ?thesis
    unfolding checkBook_def Let_def r1 lv using tot checkInvariants_wf [OF wf] by auto
qed

lemma checkTrades_passes:
  assumes "\<forall>t\<in>set ts. 0 < tprice t \<and> 0 < tquantity t"
  shows "checkTrades ts [] = Report_ok"
  unfolding checkTrades_def Let_def
proof (rule fold_id)
  fix i assume "i \<in> set [0..<length ts]"
  then have i: "ts ! i \<in> set ts" "length [] \<noteq> length ts" by auto
  with assms have "0 < tprice (ts ! i)" "0 < tquantity (ts ! i)" by auto
  with i(2) show "check_trade (ts ! i) (if length [] = length ts then Some ([] ! i) else None) = (\<lambda>r. r)"
    by (auto simp: check_trade_def Let_def not_less)
qed

lemma unique_ids_loop_passed:
  "rep_passed (unique_ids_loop seen ids r) \<longleftrightarrow> rep_passed r \<and> distinct ids \<and> set ids \<inter> seen = {}"
  by (induction ids arbitrary: seen r) (auto simp: addViolation_def)

lemma unique_ids_loop_ok: "distinct ids \<Longrightarrow> set ids \<inter> seen = {} \<Longrightarrow> unique_ids_loop seen ids r = r"
  by (induction ids arbitrary: seen r) auto

lemma checkUniqueIds_passed: "rep_passed (checkUniqueIds ids) \<longleftrightarrow> distinct ids"
  by (simp add: checkUniqueIds_def unique_ids_loop_passed Report_ok_def)

lemma merge_loop:
  "fold (\<lambda>r c. \<lparr>rep_passed = (if \<not> rep_passed r then False else rep_passed c),
                rep_violations = rep_violations c @ rep_violations r\<rparr>) rs c =
   \<lparr>rep_passed = (rep_passed c \<and> (\<forall>r\<in>set rs. rep_passed r)),
    rep_violations = rep_violations c @ concat (map rep_violations rs)\<rparr>"
  by (induction rs arbitrary: c) auto

lemma merge_reports_eq:
  "merge_reports rs = \<lparr>rep_passed = (\<forall>r\<in>set rs. rep_passed r), rep_violations = concat (map rep_violations rs)\<rparr>"
  by (simp add: merge_reports_def merge_loop Report_ok_def)

section \<open>What is reported\<close>

text \<open>The faults of a book, of a list of trades with the quotes of their moment, and of a list of ids; a report
  lists them all, in this order, and passes when there are none.\<close>

abbreviation fault :: "string \<Rightarrow> string \<Rightarrow> string \<Rightarrow> InvariantViolation" where
  "fault sy rule detail \<equiv> \<lparr>iv_symbol = sy, iv_rule = rule, iv_detail = detail\<rparr>"

definition level_faults :: "string \<Rightarrow> string \<Rightarrow> Price \<times> PriceLevel \<Rightarrow> InvariantViolation list" where
  "level_faults sy nm e =
     [fault sy (''no_zero_qty_'' @ nm @ ''_level'') (''price='' @ to_string_i64 (fst e)). totalQty (snd e) = 0] @
     [fault sy (''no_empty_'' @ nm @ ''_level'') (''price='' @ to_string_i64 (fst e)). level_orderCount (snd e) = 0]"

definition book_faults :: "(OrderRef \<Rightarrow> Order) \<Rightarrow> OrderBook \<Rightarrow> InvariantViolation list" where
  "book_faults h b =
     (let sy = book_symbol b
      in (case (bids b, asks b) of
            ((p, _) # _, (q, _) # _) \<Rightarrow>
              [fault sy ''best_bid_lt_best_ask'' (''bid='' @ print_double False 6 (fromFixedPrice p) @
                 '' ask='' @ print_double False 6 (fromFixedPrice q)). q \<le> p]
          | _ \<Rightarrow> []) @
         concat (map (level_faults sy ''bid'') (take 10000 (bids b))) @
         concat (map (level_faults sy ''ask'') (take 10000 (asks b))) @
         [fault sy ''resting_volume_nonzero'' ''book reports levels but zero total volume''.
            (bids b \<noteq> [] \<or> asks b \<noteq> []) \<and> totalBidQty b = 0 \<and> totalAskQty b = 0] @
         [fault sy ''internal_structural_invariant'' ''OrderBook::checkInvariants() failed''. \<not> checkInvariants h b])"

definition trade_faults :: "Trade \<times> (Price \<times> Price) option \<Rightarrow> InvariantViolation list" where
  "trade_faults x =
     (let t = fst x
      in [fault (tsymbol t) ''trade_positive_price'' (''trade id maker='' @ to_string_u64 (makerOrderId t) @
            '' price='' @ to_string_i64 (tprice t)). tprice t \<le> 0] @
         [fault (tsymbol t) ''trade_nonzero_qty'' (''maker='' @ to_string_u64 (makerOrderId t)). tquantity t = 0] @
         (case snd x of
            None \<Rightarrow> []
          | Some (bid, ask) \<Rightarrow>
              [fault (tsymbol t) ''bid_lt_ask_at_trade'' (''bid='' @ to_string_i64 bid @ '' ask='' @ to_string_i64 ask).
                 0 < bid \<and> 0 < ask \<and> ask \<le> bid]))"

definition quoted :: "(Price \<times> Price) list \<Rightarrow> Trade list \<Rightarrow> (Trade \<times> (Price \<times> Price) option) list" where
  "quoted qs ts = zip ts (if length qs = length ts then map Some qs else replicate (length ts) None)"

text \<open>The ids that occur earlier in the list already.\<close>

definition repeated :: "OrderId list \<Rightarrow> OrderId list" where
  "repeated ids = map (\<lambda>k. ids ! k) (filter (\<lambda>k. ids ! k \<in> set (take k ids)) [0..<length ids])"

definition id_fault :: "OrderId \<Rightarrow> InvariantViolation" where
  "id_fault i = fault ''global'' ''unique_order_ids'' (''duplicate id='' @ to_string_u64 i)"

definition report_of :: "InvariantViolation list \<Rightarrow> Report" where
  "report_of vs = \<lparr>rep_passed = (vs = []), rep_violations = vs\<rparr>"

lemma report_of_simps [simp]:
  "rep_passed (report_of vs) \<longleftrightarrow> vs = []" "rep_violations (report_of vs) = vs"
  by (simp_all add: report_of_def)

lemma Report_ok_of: "Report_ok = report_of []"
  by (simp add: Report_ok_def report_of_def)

lemma addViolation_of: "addViolation sy rule detail (report_of vs) = report_of (vs @ [fault sy rule detail])"
  by (simp add: addViolation_def report_of_def)

lemma fold_report:
  assumes "\<And>x vs. x \<in> set xs \<Longrightarrow> f x (report_of vs) = report_of (vs @ g x)"
  shows "fold f xs (report_of vs) = report_of (vs @ concat (map g xs))"
  using assms by (induction xs arbitrary: vs) simp_all

lemma check_level_of:
  "check_level sy nm \<lparr>blprice = fst e, blqty = totalQty (snd e), blcount = level_orderCount (snd e)\<rparr> (report_of vs)
    = report_of (vs @ level_faults sy nm e)"
  by (simp add: check_level_def level_faults_def addViolation_of Let_def)

lemma check_levels_of:
  "fold (check_level sy nm) (top_levels 10000 [] s) (report_of vs)
    = report_of (vs @ concat (map (level_faults sy nm) (take 10000 s)))"
proof -
  have t: "top_levels 10000 [] s
      = map (\<lambda>e. \<lparr>blprice = fst e, blqty = totalQty (snd e), blcount = level_orderCount (snd e)\<rparr>) (take 10000 s)"
    by (simp add: top_levels_take level_view_def take_map)
  show ?thesis unfolding t fold_map comp_def by (rule fold_report) (rule check_level_of)
qed

lemma checkBook_of: "checkBook h b = report_of (book_faults h b)"
proof -
  have best: "(case (bestBid b, bestAsk b) of (Some p, Some q) \<Rightarrow> if q \<le> p then addViolation sy rule (d p q) Report_ok else Report_ok
      | _ \<Rightarrow> Report_ok)
    = report_of (case (bids b, asks b) of ((p, _) # _, (q, _) # _) \<Rightarrow> [fault sy rule (d p q). q \<le> p] | _ \<Rightarrow> [])" for sy rule d
    using addViolation_of [of sy rule _ "[]"]
    by (auto simp: bestBid_def bestAsk_def side_best_def Report_ok_of split: list.split)
  have none: "bestBid b \<noteq> None \<longleftrightarrow> bids b \<noteq> []" "bestAsk b \<noteq> None \<longleftrightarrow> asks b \<noteq> []"
    by (simp_all add: bestBid_def bestAsk_def side_best_def split: list.split)
  have step: "(if c then addViolation sy rule d (report_of vs) else report_of vs) = report_of (vs @ [fault sy rule d. c])"
    for c sy rule d vs by (simp add: addViolation_of)
  show ?thesis
    unfolding checkBook_def book_faults_def Let_def best none topBids_def topAsks_def check_levels_of step append_assoc ..
qed

lemma checkTrades_of: "checkTrades ts qs = report_of (concat (map trade_faults (quoted qs ts)))"
proof -
  have one: "check_trade t q (report_of vs) = report_of (vs @ trade_faults (t, q))" for t q vs
    by (auto simp: check_trade_def trade_faults_def addViolation_of Let_def split: option.split)
  have "map trade_faults (quoted qs ts)
      = map (\<lambda>i. trade_faults (ts ! i, if length qs = length ts then Some (qs ! i) else None)) [0..<length ts]"
    by (rule nth_equalityI) (simp_all add: quoted_def)
  then show ?thesis
    unfolding checkTrades_def Let_def Report_ok_of by (subst fold_report [OF one]) simp
qed

lemma unique_ids_loop_of:
  "unique_ids_loop seen ids (report_of vs)
    = report_of (vs @ map (\<lambda>k. id_fault (ids ! k)) (filter (\<lambda>k. ids ! k \<in> set (take k ids) \<union> seen) [0..<length ids]))"
proof (induction ids arbitrary: seen vs)
  case (Cons i ids)
  have u: "[0..<length (i # ids)] = 0 # map Suc [0..<length ids]" by (simp add: upt_conv_Cons map_Suc_upt del: upt_Suc)
  show ?case
    unfolding u by (simp add: addViolation_of id_fault_def comp_def filter_map Cons.IH [of "insert i seen"] disj_commute disj_left_commute)
qed simp

lemma checkUniqueIds_of: "checkUniqueIds ids = report_of (map id_fault (repeated ids))"
  unfolding checkUniqueIds_def Report_ok_of unique_ids_loop_of
  by (simp add: repeated_def comp_def)

lemma repeated_distinct: "repeated ids = [] \<longleftrightarrow> distinct ids"
  using checkUniqueIds_passed [of ids] by (simp add: checkUniqueIds_of)

lemma merge_reports_of: "merge_reports (map report_of vss) = report_of (concat vss)"
  by (simp add: merge_reports_eq report_of_def concat_eq_Nil_conv comp_def)

end
