(* ===== verification/Program_Properties.thy ===== *)
theory Program_Properties
  imports Program_Spec Invariant_Checker Engine_Properties
begin

text \<open>
  The properties of the components around the engine, and of the programs that compose them:
  number conversions, the parser, the command line, the two modes of the exchange, the timer and
  the checker.
\<close>

section \<open>The benchmark's audit\<close>



section \<open>Prices as doubles\<close>

text \<open>
  C36: Up to 2^49 ten-thousandths a price survives the conversion to a double and back when it is not
  negative, and comes back one too large when it is.
\<close>

theorem price_double_roundtrip:
  assumes "\<bar>i64_val p\<bar> \<le> 2 ^ 49"
  shows "toFixedPrice (fromFixedPrice p) = Some (if 0 \<le> p then p else I64 (of_int (i64_val p + 1)))"
proof -
  have "\<bar>i64_val p\<bar> < 2 ^ 53" using assms by simp
  from fromFixedPrice_decimal [OF this] toFixedPrice_decimal [OF assms] show ?thesis
    by (simp add: less_eq_i64_def i64_of_val)
qed

lemma price_double_roundtrip_witness:
  "toFixedPrice (fromFixedPrice (I64 1502500)) = Some (I64 1502500) \<and>
   toFixedPrice (fromFixedPrice (I64 (- 2))) = Some (I64 (- 1))"
  using price_double_roundtrip [of "I64 1502500"] price_double_roundtrip [of "I64 (- 2)"]
  by (simp add: less_eq_i64_def)

section \<open>The parser\<close>

text \<open>
  C34: A file with a header and one line per order in the documented format, the price from 0 to 2^49
  ten-thousandths with any number of decimals that shows all of it (150.25, 150.2500 or, for a whole number,
  150), is parsed to exactly those orders without an error.
\<close>

theorem csv_file_roundtrip:
  assumes "\<forall>(k, x)\<in>set rows. csv_order x \<and> enough_decimals k x" and "header \<noteq> []" and "CHR 0x0A \<notin> set header"
  shows "parseFile (\<lambda>_. Some (concat (map (\<lambda>l. l @ newline) (header # map (\<lambda>(k, x). csv_text k x) rows)))) path
    = Some \<lparr>pr_orders = map snd rows, pr_errors = []\<rparr>"
proof -
  have "getlines (CHR 0x0A) (concat (map (\<lambda>l. l @ newline) (header # map (\<lambda>(k, x). csv_text k x) rows)))
      = header # map (\<lambda>(k, x). csv_text k x) rows"
    using assms csv_text_newline by (intro getlines_unlines) auto
  moreover have "parse_lines (map (\<lambda>(k, x). csv_text k x) rows) n True res
      = Some (res\<lparr>pr_orders := pr_orders res @ map snd rows\<rparr>)" for n res
    using assms(1)
  proof (induction rows arbitrary: n res)
    case (Cons row rows)
    then show ?case using csv_text_not_Nil by (cases row) (simp add: parse_csv_text Let_def)
  qed simp
  ultimately show ?thesis using assms(2) by (simp only: parseFile_def option.case) (simp add: Let_def)
qed

text \<open>The example of the README, up to its last line.\<close>

definition readme_orders :: "(nat \<times> Order) list" where
  "readme_orders =
     [(2, Order_new 1001 ''AAPL'' BUY LIMIT (I64 1502500) 100 1), (0, Order_new 1002 ''AAPL'' SELL MARKET (I64 0) 50 2),
      (2, Order_new 1003 ''AAPL'' BUY IOC (I64 1500000) 40 3), (2, Order_new 1004 ''AAPL'' SELL FOK (I64 1490000) 30 4)]"

lemma readme_texts:
  "map (\<lambda>(k, x). csv_text k x) readme_orders =
     [''1,1001,AAPL,BUY,LIMIT,150.25,100'', ''2,1002,AAPL,SELL,MARKET,0,50'', ''3,1003,AAPL,BUY,IOC,150.00,40'',
      ''4,1004,AAPL,SELL,FOK,149.00,30'']"
proof -
  have pad: "pad_digits 2 n = [digit_char (n div 10 mod 10), digit_char (n mod 10)]" for n
    by (simp add: numeral_2_eq_2)
  have p: "price_text 2 (I64 1502500) = ''150.25''" "price_text 0 (I64 0) = ''0''" "price_text 2 (I64 1500000) = ''150.00''"
    "price_text 2 (I64 1490000) = ''149.00''"
    by (simp_all add: price_text_def nat_digits.simps digit_char_eval pad)
  have u: "to_string_u64 1 = ''1''" "to_string_u64 2 = ''2''" "to_string_u64 3 = ''3''" "to_string_u64 4 = ''4''"
    "to_string_u64 30 = ''30''" "to_string_u64 40 = ''40''" "to_string_u64 50 = ''50''" "to_string_u64 100 = ''100''"
    "to_string_u64 1001 = ''1001''" "to_string_u64 1002 = ''1002''" "to_string_u64 1003 = ''1003''" "to_string_u64 1004 = ''1004''"
    by (simp_all add: to_string_u64_def nat_digits.simps digit_char_eval)
  show ?thesis by (simp add: readme_orders_def csv_text_def Order_new_def p u)
qed

lemma csv_file_roundtrip_witness:
  "parseFile (\<lambda>_. Some (''timestamp,order_id,symbol,side,type,price,quantity'' @ newline @
     ''1,1001,AAPL,BUY,LIMIT,150.25,100'' @ newline @ ''2,1002,AAPL,SELL,MARKET,0,50'' @ newline @
     ''3,1003,AAPL,BUY,IOC,150.00,40'' @ newline @ ''4,1004,AAPL,SELL,FOK,149.00,30'' @ newline)) ''x'' =
   Some \<lparr>pr_orders = [Order_new 1001 ''AAPL'' BUY LIMIT (I64 1502500) 100 1, Order_new 1002 ''AAPL'' SELL MARKET (I64 0) 50 2,
      Order_new 1003 ''AAPL'' BUY IOC (I64 1500000) 40 3, Order_new 1004 ''AAPL'' SELL FOK (I64 1490000) 30 4], pr_errors = []\<rparr>"
proof -
  have "\<forall>(k, x)\<in>set readme_orders. csv_order x \<and> enough_decimals k x"
    by (simp add: readme_orders_def csv_order_def enough_decimals_def Order_new_def)
  from csv_file_roundtrip [OF this, of "''timestamp,order_id,symbol,side,type,price,quantity''" "''x''"]
  show ?thesis unfolding readme_texts by (simp add: readme_orders_def)
qed

text \<open>The last line of that example is no order: the parser wants a number in the seventh field.\<close>

lemma readme_cancel_line_rejected:
  "parseLine ''5,1005,AAPL,BUY,LIMIT,1005,CANCEL,0,1'' n = Some None"
proof -
  have t: "to_string_u64 5 = ''5''" "to_string_u64 1005 = ''1005''" "price_text 0 (I64 10050000) = ''1005''"
    by (simp_all add: to_string_u64_def price_text_def nat_digits.simps digit_char_eval)
  have n: "stoull ''5'' = Some 5" "stoull ''1005'' = Some 1005"
    using stoull_to_string [of "[]" 5] stoull_to_string [of "[]" 1005] by (simp_all add: t)
  have q: "stoull ''CANCEL'' = None" by (simp add: stoull_def read_sign_def is_space_def is_digit_def)
  from price_text_read [of "I64 10050000" 0] obtain d where
    d: "stod ''1005'' = Some d" "toFixedPrice d = Some (I64 10050000)" by (auto simp: t)
  have "csv_split ''5,1005,AAPL,BUY,LIMIT,1005,CANCEL,0,1'' (CHR '','')
      = [''5'', ''1005'', ''AAPL'', ''BUY'', ''LIMIT'', ''1005'', ''CANCEL'', ''0'', ''1'']"
    by (simp add: csv_split_def getlines.simps(2))
  then show ?thesis by (simp add: parseLine_def n q d parse_side_def parse_type_def)
qed

definition sample_order :: Order where
  "sample_order = Order_new 7 ''AAPL'' SELL LIMIT (I64 1502500) 40 1000"

lemma sample_csv: "csv_order sample_order"
  by (simp add: csv_order_def sample_order_def Order_new_def)

text \<open>
  C35: Of the non-empty lines of a file all but the first, the header, are parsed, each to one order or
  to one error with its line number and text, both in the order of the file; a file that cannot be
  opened is one error with line 0.
\<close>

theorem parse_file_accounts:
  assumes "files path = Some text" and "body = tl (numbered 0 (getlines (CHR 0x0A) text))" and "lines_defined body"
  shows "\<exists>res. parseFile files path = Some res \<and> pr_orders res = line_orders body \<and> pr_errors res = line_errors body \<and>
    length (pr_orders res) + length (pr_errors res) = length body"
  using assms parse_lines_header [of "getlines (CHR 0x0A) text" 0] line_counts [OF assms(3)]
  by (simp add: parseFile_def Let_def)

lemma parse_file_accounts_witness:
  "\<exists>res. parseFile (\<lambda>_. Some (''h'' @ newline @ newline @ csv_line sample_order @ newline @ ''?'')) ''x'' = Some res \<and>
     pr_orders res = [sample_order] \<and> map perr_line (pr_errors res) = [4]"
proof -
  have bad: "parseLine ''?'' n = Some None" for n by (simp add: parseLine_def csv_split_def getlines_last)
  have ok: "parseLine (csv_line sample_order) n = Some (Some sample_order)" for n by (rule parse_csv_line [OF sample_csv])
  let ?text = "''h'' @ newline @ newline @ csv_line sample_order @ newline @ ''?''"
  have g: "getlines (CHR 0x0A) ?text = [''h'', [], csv_line sample_order, ''?'']"
    using getlines_token [of "CHR 0x0A" "''h''" "newline @ csv_line sample_order @ newline @ ''?''"]
      getlines_token [of "CHR 0x0A" "[]" "csv_line sample_order @ newline @ ''?''"]
      getlines_token [OF csv_line_newline [OF sample_csv], of "''?''"] getlines_last [of "CHR 0x0A" "''?''"]
    by simp
  have b: "[(3, csv_line sample_order), (4, ''?'')] = tl (numbered 0 (getlines (CHR 0x0A) ?text))"
    unfolding g by (simp add: numbered_simps csv_line_not_Nil)
  have "lines_defined [(3, csv_line sample_order), (4, ''?'')]" by (simp add: line_simps bad ok)
  from parse_file_accounts [OF _ b this, of "\<lambda>_. Some ?text" "''x''"] show ?thesis
    by (auto simp: line_simps bad ok)
qed

section \<open>The command line\<close>

fun join_commas :: "string list \<Rightarrow> string" where
  "join_commas [] = []"
| "join_commas [t] = t"
| "join_commas (t # ts) = t @ CHR '','' # join_commas ts"

lemma join_tokens:
  "join_commas (getlines (CHR '','') s @ (if s = [] \<or> last s = CHR '','' then [''''] else [])) = s"
proof (induction "length s" arbitrary: s rule: less_induct)
  case less
  show ?case
  proof (rule getlines_cases [where s = s and d = "CHR '',''"])
    assume "s \<noteq> []" "CHR '','' \<notin> set s"
    then show ?thesis using getlines_whole [of "CHR '',''" s] by simp
  next
    fix t u assume s: "s = t @ CHR '','' # u" and t: "CHR '','' \<notin> set t"
    let ?r = "getlines (CHR '','') u @ (if u = [] \<or> last u = CHR '','' then [''''] else [])"
    have "join_commas ?r = u" using less s by simp
    moreover have "?r \<noteq> []"
      by (rule getlines_cases [where s = u and d = "CHR '',''"]) (auto simp: getlines_token getlines_last)
    then obtain x xs where "?r = x # xs" by (cases ?r) auto
    ultimately have "join_commas (t # ?r) = t @ CHR '','' # u" by simp
    then show ?thesis unfolding s getlines_token [OF t] by auto
  qed simp
qed

text \<open>
  The splitting of a symbol list on the command line and the splitting of a line by the parser agree
  except on an empty last field, which only the former keeps; its fields joined with commas give
  back the argument.
\<close>

theorem splitters_compared:
  "splitComma s = csv_split s (CHR '','') @ (if s = [] \<or> last s = CHR '','' then [''''] else []) \<and>
   join_commas (splitComma s) = s \<and> list_all (\<lambda>t. CHR '','' \<notin> set t) (splitComma s)"
  using splitComma_tokens [of s] join_tokens [of s] getlines_no_delim [of _ "CHR '',''" s]
  by (auto simp: csv_split_def list_all_iff)

section \<open>The exchange program\<close>

text \<open>
  C23: Interactive mode: whatever lines are typed, if no price is outside the fixed-point range and the
  quantities of the orders add up to less than 2^64, the program ends with status 0, has submitted
  exactly the orders of the well-formed lines before QUIT, in order, as one run of the engine, and
  has reported exactly the malformed ones.
\<close>

theorem interactive_mode:
  assumes "fresh_world w" and "op = main_args args MainOptions_default" and "m_interactive op" and "\<not> m_replay op"
    and "ls = before_quit (getlines (CHR 0x0A) stdin)" and "\<forall>l\<in>set ls. parseLine l 0 \<noteq> None"
    and "(\<Sum>x\<leftarrow>typed_orders ls. unat (oquantity x)) < 2 ^ 64"
  shows "\<exists>w' i' e' tr. exchange_main files argv0 args stdin (w, i) = Some (0, w', i') \<and>
    engine_start (MatchingEngine_new, w) \<and> engine_run (MatchingEngine_new, w) tr (e', w') \<and>
    constructs tr = zip [0..<length (typed_orders ls)] (typed_orders ls) \<and>
    submits tr = [0..<length (typed_orders ls)] \<and>
    io_err i' = io_err i @ concat (replicate (bad_lines ls) (''parse error'' @ newline))"
proof -
  have "args \<noteq> []" using assms(2,3) by (auto simp: MainOptions_default_def)
  moreover from interactive_run [OF assms(1,5,6,7), of "m_symbols op" i] obtain s tr where
    "interactive (m_symbols op) stdin (w, i) = Some s" "engine_run (MatchingEngine_new, w) tr (s_engine s, s_world s)"
    "constructs tr = zip [0..<length (typed_orders ls)] (typed_orders ls)" "submits tr = [0..<length (typed_orders ls)]"
    "io_err (s_io s) = io_err i @ concat (replicate (bad_lines ls) (''parse error'' @ newline))" by blast
  ultimately show ?thesis
    using assms(2-4) registered_start(1) [OF assms(1)]
    by (intro exI [of _ "s_world s"] exI [of _ "s_io s"] exI [of _ "s_engine s"] exI [of _ tr])
      (simp add: exchange_main_def Let_def)
qed

definition blank_world :: world where
  "blank_world = \<lparr>heap = (\<lambda>_. Order_new 0 '''' BUY LIMIT 0 0 0), clock = of_nat, ticks = 0\<rparr>"

lemma blank_fresh: "fresh_world blank_world"
  by (simp add: fresh_world_def blank_world_def Order_new_def)

lemma sample_not_quit: "csv_line sample_order \<noteq> ''QUIT''" "csv_line sample_order \<noteq> ''quit''"
proof -
  have "CHR '','' \<in> set (csv_line sample_order)" by (simp add: csv_line_def csv_text_def)
  then show "csv_line sample_order \<noteq> ''QUIT''" "csv_line sample_order \<noteq> ''quit''" by auto
qed

lemma interactive_mode_witness:
  "\<exists>w' i' e' tr. exchange_main (\<lambda>_. None) ''x'' [''--interactive''] (csv_line sample_order @ newline @ ''?'' @ newline @ ''QUIT'')
       (blank_world, io_start) = Some (0, w', i') \<and>
     engine_run (MatchingEngine_new, blank_world) tr (e', w') \<and> submits tr = [0] \<and> io_err i' = ''parse error'' @ newline"
proof -
  let ?in = "csv_line sample_order @ newline @ ''?'' @ newline @ ''QUIT''"
  have g: "getlines (CHR 0x0A) ?in = [csv_line sample_order, ''?'', ''QUIT'']"
    using getlines_token [OF csv_line_newline [OF sample_csv], of "''?'' @ newline @ ''QUIT''"]
      getlines_token [of "CHR 0x0A" "''?''" "''QUIT''"] getlines_last [of "CHR 0x0A" "''QUIT''"] by simp
  have ls: "[csv_line sample_order, ''?''] = before_quit (getlines (CHR 0x0A) ?in)"
    unfolding g by (simp add: before_quit_def sample_not_quit)
  have bad: "parseLine ''?'' n = Some None" for n by (simp add: parseLine_def csv_split_def getlines_last)
  have ok: "parseLine (csv_line sample_order) n = Some (Some sample_order)" for n by (rule parse_csv_line [OF sample_csv])
  have t: "typed_orders [csv_line sample_order, ''?''] = [sample_order]" "bad_lines [csv_line sample_order, ''?''] = 1"
    by (simp_all add: typed_orders_def bad_lines_def ok bad)
  have "\<forall>l\<in>set [csv_line sample_order, ''?'']. parseLine l 0 \<noteq> None" by (simp add: ok bad)
  note m = interactive_mode [OF blank_fresh refl _ _ ls this, of "[''--interactive'']" "\<lambda>_. None" "''x''" io_start]
  have op: "m_interactive (main_args [''--interactive''] MainOptions_default)"
    "\<not> m_replay (main_args [''--interactive''] MainOptions_default)" by (simp_all add: MainOptions_default_def)
  have "(\<Sum>x\<leftarrow>typed_orders [csv_line sample_order, ''?'']. unat (oquantity x)) < 2 ^ 64"
    unfolding t by (simp add: sample_order_def Order_new_def)
  from m [OF op this] show ?thesis unfolding t by (auto simp: io_start_def)
qed

text \<open>
  C24: Replay mode: a file of up to 2^31 orders, none with a price outside the fixed-point range and with quantities that add
  up to less than 2^64, is replayed to the end as one run of the engine that submits its orders in
  order, one result each.  The summary counts the orders, the results that are not rejected, those that are, and the
  trades of the run; its latencies are the statistics of the times between the clock readings around
  each submission, over the time between the first and the last reading.
\<close>

theorem replay_accounts:
  assumes "fresh_world w" and "parseFile files (rc_csvPath cfg) = Some parsed"
    and "(\<Sum>x\<leftarrow>pr_orders parsed. unat (oquantity x)) < 2 ^ 64" and "length (pr_orders parsed) \<le> 2 ^ 31"
  shows "\<exists>st s tr. replay_run files cfg (ReplayEngine_new syms) (w, i) = Some (st, s) \<and>
    engine_run (ReplayEngine_new syms, w) tr (rp_engine s, rp_world s) \<and> engine_inv (rp_engine s) (rp_world s) \<and>
    constructs tr = zip [0..<length (pr_orders parsed)] (pr_orders parsed) \<and>
    submits tr = [0..<length (pr_orders parsed)] \<and> length (run_results tr) = length (pr_orders parsed) \<and>
    rs_submitted st = of_nat (length (pr_orders parsed)) \<and>
    rs_accepted st = of_nat (length (filter (\<lambda>res. rstatus res \<noteq> REJECTED) (run_results tr))) \<and>
    rs_rejected st = of_nat (length (filter (\<lambda>res. rstatus res = REJECTED) (run_results tr))) \<and>
    rs_trades st = of_nat (length (run_trades tr)) \<and>
    timer_compute (clock w (ticks w + 1 + 2 * length (pr_orders parsed) + length (run_trades tr)) - clock w (ticks w))
      \<lparr>timer_t0 = 0, timer_samples = latencies (clock w) (ticks w + 1) (run_results tr)\<rparr> = Some (rs_latency st)"
proof -
  from replay_run_ok [OF assms(2) registered_start(2,3) [OF assms(1), of syms] assms(3,4), of i]
  show ?thesis unfolding ReplayEngine_new_def accepted_def rejected_def by blast
qed

text \<open>A file of one order, which is counted once.\<close>

lemma replay_accounts_witness:
  "\<exists>st s. replay_run (\<lambda>_. Some (''id'' @ newline @ csv_line sample_order @ newline)) ReplayConfig_default
     (ReplayEngine_new [''MSFT'']) (blank_world, io_start) = Some (st, s) \<and>
     rs_submitted st = 1 \<and> (rs_accepted st = 1 \<and> rs_rejected st = 0 \<or> rs_accepted st = 0 \<and> rs_rejected st = 1)"
proof -
  have "parseFile (\<lambda>_. Some (''id'' @ newline @ csv_line sample_order @ newline)) (rc_csvPath ReplayConfig_default)
      = Some \<lparr>pr_orders = [sample_order], pr_errors = []\<rparr>"
  proof -
    have "getlines (CHR 0x0A) (''id'' @ newline @ csv_line sample_order @ newline) = [''id'', csv_line sample_order]"
      using getlines_token [of "CHR 0x0A" "''id''" "csv_line sample_order @ newline"]
        getlines_token [OF csv_line_newline [OF sample_csv], of "[]"] by simp
    then show ?thesis
      by (simp add: parseFile_def ReplayConfig_default_def parse_csv_line [OF sample_csv] csv_line_not_Nil Let_def)
  qed
  from replay_accounts [OF blank_fresh this, of "[''MSFT'']" io_start] show ?thesis
    by (auto simp: sample_order_def Order_new_def length_Suc_conv)
qed

text \<open>
  C22: The whole exchange program, whatever its arguments, returns with the exit status and prints the text
  of a reference program over values, which keeps one priority list of open orders per side and symbol, has no heap,
  addresses, price levels, cached totals or index, and reads the clock equally often.  For a replay the quantities of the
  file add up to less than 2^64 over at most 2^31 orders, for an interactive session those of the typed orders do, and
  no price leaves the fixed-point range.
\<close>

theorem exchange_program_refines_spec:
  assumes "fresh_world w" and "op = main_args args MainOptions_default"
    and "m_replay op \<Longrightarrow> file_ok (parseFile files (m_csvPath op))"
    and "\<not> m_replay op \<Longrightarrow> m_interactive op \<Longrightarrow> typed_ok input"
  shows "\<exists>status w' i'. exchange_main files argv0 args input (w, i) = Some (status, w', i') \<and>
    spec_main files argv0 args input (clock w) (ticks w) i = Some (status, ticks w', i')"
  by (rule main_spec [OF assms])

text \<open>One resting order is typed: the program shows a book with one level.\<close>

lemma exchange_program_refines_spec_witness:
  "\<exists>w' i'. exchange_main (\<lambda>_. None) ''x'' [''--interactive''] (csv_line sample_order) (blank_world, io_start) = Some (0, w', i') \<and>
     io_out i' = banner @ feed_text ''AAPL'' \<lparr>abids = [], aasks = [((I64 1502500, 7), 40)]\<rparr> 5"
proof -
  let ?op = "main_args [''--interactive''] MainOptions_default"
  let ?ab = "\<lparr>abids = [], aasks = [((I64 1502500, 7), 40)]\<rparr>"
  have ok: "parseLine (csv_line sample_order) 0 = Some (Some sample_order)" by (rule parse_csv_line [OF sample_csv])
  have g: "before_quit (getlines (CHR 0x0A) (csv_line sample_order)) = [csv_line sample_order]"
    by (simp add: getlines_last csv_line_newline [OF sample_csv] csv_line_not_Nil before_quit_def sample_not_quit)
  have op: "\<not> m_replay ?op" "m_interactive ?op" "m_symbols ?op = [''AAPL'', ''MSFT'', ''TSLA'', ''NVDA'']"
    by (simp_all add: MainOptions_default_def)
  have "typed_ok (csv_line sample_order)"
    unfolding typed_ok_def g by (simp add: ok typed_orders_def) (simp add: sample_order_def Order_new_def)
  with exchange_program_refines_spec [OF blank_fresh refl, of "[''--interactive'']" "\<lambda>_. None" "csv_line sample_order" "''x''" io_start] op
  obtain status w' i' where
    r: "exchange_main (\<lambda>_. None) ''x'' [''--interactive''] (csv_line sample_order) (blank_world, io_start) = Some (status, w', i')"
      "spec_main (\<lambda>_. None) ''x'' [''--interactive''] (csv_line sample_order) (clock blank_world) (ticks blank_world) io_start
        = Some (status, ticks w', i')" by blast
  obtain a where a: "spec_submit sample_order of_nat 0 (spec_start [''AAPL'', ''MSFT'', ''TSLA'', ''NVDA''])
      = (\<lparr>rstatus = ACCEPTED, rtrades = [], rejectReason = ''''\<rparr>, a, 0)" "ae_books a ''AAPL'' = Some ?ab"
    by (simp add: spec_submit_def spec_execution_def spec_start_def sample_order_def Order_new_def acceptable_order_def
        spec_execute_def spec_rest_def rest_remainder_def insert_rest_def match_side_def submit_reason_def less_i64_def Let_def)
  have "spec_line (csv_line sample_order) of_nat \<lparr>ps_engine = spec_start (m_symbols ?op), ps_ticks = 0, ps_io = put banner io_start\<rparr>
      = \<lparr>ps_engine = a, ps_ticks = 0, ps_io = spec_publish ''AAPL'' ?ab [] 5 (put banner io_start)\<rparr>"
    unfolding op(3) spec_line_def ok using a
    by (simp add: spec_typed_def spec_feed_def set_fixed_put) (simp add: sample_order_def Order_new_def)
  with r(2) g op have "status = 0" "i' = spec_publish ''AAPL'' ?ab [] 5 (put banner io_start)"
    by (simp_all add: spec_main_def spec_interactive_def Let_def blank_world_def)
  with r(1) show ?thesis by (auto simp: spec_publish_def io_start_def)
qed

section \<open>The latency timer\<close>

text \<open>
  C38: For up to 2^31 samples the statistics are defined and exact: p50, p95 and p99 are the samples at the ranks
  \<open>c (n - 1) / 100\<close>, rounded down, of the sorted samples, although the ranks are computed in doubles; the maximum is the
  maximum, the mean the sum modulo 2^64 divided by the count; they are ordered; and the throughput is the exact quotient up
  to a relative error of 2^-50, or 0 when no time has passed.
\<close>

theorem latency_statistics:
  assumes "timer_samples l \<noteq> []" and "length (timer_samples l) \<le> 2 ^ 31"
  shows "\<exists>st. timer_compute wallNs l = Some st \<and>
    st_p50 st = order_stat 50 (timer_samples l) \<and> st_p95 st = order_stat 95 (timer_samples l) \<and>
    st_p99 st = order_stat 99 (timer_samples l) \<and> st_max st = Max (set (timer_samples l)) \<and>
    st_p50 st \<le> st_p95 st \<and> st_p95 st \<le> st_p99 st \<and> st_p99 st \<le> st_max st \<and>
    unat (st_mean st) = (\<Sum>x\<leftarrow>timer_samples l. unat x) mod 2 ^ 64 div length (timer_samples l) \<and>
    unat (st_count st) = length (timer_samples l) \<and>
    throughput_ok (st_throughput st) (length (timer_samples l)) wallNs"
proof -
  note mono = order_stat_mono [OF assms(1)]
  from compute_exact [OF assms, of wallNs] obtain st where
    "timer_compute wallNs l = Some st" "st_p50 st = order_stat 50 (timer_samples l)" "st_p95 st = order_stat 95 (timer_samples l)"
    "st_p99 st = order_stat 99 (timer_samples l)" "st_max st = Max (set (timer_samples l))"
    "unat (st_mean st) = (\<Sum>x\<leftarrow>timer_samples l. unat x) mod 2 ^ 64 div length (timer_samples l)"
    "unat (st_count st) = length (timer_samples l)" "throughput_ok (st_throughput st) (length (timer_samples l)) wallNs"
    by blast
  with mono(1) [of 50 95] mono(1) [of 95 99] mono(2) [of 99 99] show ?thesis by (intro exI [of _ st]) simp
qed

lemma latency_statistics_witness:
  "\<exists>st. timer_compute 100 \<lparr>timer_t0 = 0, timer_samples = [30, 10, 20]\<rparr> = Some st \<and>
     st_p50 st = 20 \<and> st_p95 st = 20 \<and> st_max st = 30 \<and> unat (st_mean st) = 20"
proof -
  let ?l = "\<lparr>timer_t0 = 0, timer_samples = [30, 10, 20]\<rparr>"
  have "timer_samples ?l \<noteq> []" "length (timer_samples ?l) \<le> 2 ^ 31" by simp_all
  from latency_statistics [OF this, of 100] obtain st where
    st: "timer_compute 100 ?l = Some st" "st_p50 st = order_stat 50 [30, 10, 20]" "st_p95 st = order_stat 95 [30, 10, 20]"
      "st_max st = Max {30, 10, 20}" "unat (st_mean st) = 20" by auto
  moreover have "sort [30, 10, 20 :: u64] = [10, 20, 30]" by simp
  ultimately show ?thesis by (intro exI [of _ st]) (simp add: order_stat_def)
qed

end
