(* ===== verification/Double_Ops.thy ===== *)
theory Double_Ops
  imports Std_Double
begin

text \<open>
  The operations of \<^verbatim>\<open>double\<close> on two operands, comparisons and \<^verbatim>\<open>std::round\<close>.  As zero has no sign here, a
  division by zero counts as one by \<open>+0\<close>.  \<open>dbl_in\<close> bounds a finite double; each operation on
  moderate bounds widens them by at most a factor of two.
\<close>

section \<open>Operations\<close>

fun dbl_neg :: "double \<Rightarrow> double" where
  "dbl_neg (Finite q) = Finite (- q)"
| "dbl_neg (Infinity s) = Infinity (\<not> s)"
| "dbl_neg NotANumber = NotANumber"

fun dbl_add :: "double \<Rightarrow> double \<Rightarrow> double" where
  "dbl_add (Finite p) (Finite q) = to_double (p + q)"
| "dbl_add (Finite p) (Infinity s) = Infinity s"
| "dbl_add (Infinity s) (Finite q) = Infinity s"
| "dbl_add (Infinity s) (Infinity t) = (if s = t then Infinity s else NotANumber)"
| "dbl_add _ _ = NotANumber"

definition dbl_sub :: "double \<Rightarrow> double \<Rightarrow> double" where
  "dbl_sub a b = dbl_add a (dbl_neg b)"

fun dbl_mul :: "double \<Rightarrow> double \<Rightarrow> double" where
  "dbl_mul (Finite p) (Finite q) = to_double (p * q)"
| "dbl_mul (Finite p) (Infinity s) = (if p = 0 then NotANumber else Infinity (s \<noteq> (p < 0)))"
| "dbl_mul (Infinity s) (Finite q) = (if q = 0 then NotANumber else Infinity (s \<noteq> (q < 0)))"
| "dbl_mul (Infinity s) (Infinity t) = Infinity (s \<noteq> t)"
| "dbl_mul _ _ = NotANumber"

fun dbl_div :: "double \<Rightarrow> double \<Rightarrow> double" where
  "dbl_div (Finite p) (Finite q) =
     (if q = 0 then (if p = 0 then NotANumber else Infinity (p < 0)) else to_double (p / q))"
| "dbl_div (Finite p) (Infinity s) = Finite 0"
| "dbl_div (Infinity s) (Finite q) = Infinity (s \<noteq> (q < 0))"
| "dbl_div _ _ = NotANumber"

text \<open>\<^verbatim>\<open>std::round\<close>: to the nearest integer, halves away from zero.\<close>

definition round_away :: "rat \<Rightarrow> int" where
  "round_away q = (if q < 0 then - \<lfloor>1 / 2 - q\<rfloor> else \<lfloor>q + 1 / 2\<rfloor>)"

fun dbl_round :: "double \<Rightarrow> double" where
  "dbl_round (Finite q) = Finite (of_int (round_away q))"
| "dbl_round d = d"

fun dbl_less :: "double \<Rightarrow> double \<Rightarrow> bool" where
  "dbl_less (Finite p) (Finite q) = (p < q)"
| "dbl_less (Finite p) (Infinity s) = (\<not> s)"
| "dbl_less (Infinity s) (Finite q) = s"
| "dbl_less (Infinity s) (Infinity t) = (s \<and> \<not> t)"
| "dbl_less _ _ = False"

definition dbl_le :: "double \<Rightarrow> double \<Rightarrow> bool" where
  "dbl_le a b \<longleftrightarrow> dbl_less a b \<or> (a = b \<and> a \<noteq> NotANumber)"

section \<open>Bounds\<close>

definition dbl_in :: "rat \<Rightarrow> rat \<Rightarrow> double \<Rightarrow> bool" where
  "dbl_in lo hi d \<longleftrightarrow> (\<exists>q. d = Finite q \<and> lo \<le> q \<and> q \<le> hi)"

lemma dbl_in_weaken: "dbl_in lo hi d \<Longrightarrow> lo' \<le> lo \<Longrightarrow> hi \<le> hi' \<Longrightarrow> dbl_in lo' hi' d"
  by (auto simp: dbl_in_def intro: order_trans)

lemma to_double_in:
  assumes "1 / 2 ^ 200 \<le> lo" and "lo \<le> q" and "q \<le> hi" and "hi \<le> 2 ^ 200"
  shows "dbl_in (lo / 2) (2 * hi) (to_double q)"
proof -
  have "1 / 2 ^ 200 \<le> q" "q \<le> 2 ^ 200" using assms by linarith+
  from dbl_apply_moderate [of "\<lambda>x. x" q, OF this] assms show ?thesis
    by (auto simp: dbl_apply_def dbl_in_def)
qed

lemma dbl_add_in:
  assumes "dbl_in a b x" and "dbl_in c d y" and "1 / 2 ^ 200 \<le> a + c" and "b + d \<le> 2 ^ 200"
  shows "dbl_in ((a + c) / 2) (2 * (b + d)) (dbl_add x y)"
proof -
  from assms(1,2) obtain p q where v: "x = Finite p" "y = Finite q" "a \<le> p" "p \<le> b" "c \<le> q" "q \<le> d"
    by (auto simp: dbl_in_def)
  then have "a + c \<le> p + q" "p + q \<le> b + d" by linarith+
  from to_double_in [OF assms(3) this assms(4)] v show ?thesis by simp
qed

lemma dbl_neg_in: "dbl_in a b x \<Longrightarrow> dbl_in (- b) (- a) (dbl_neg x)"
  by (auto simp: dbl_in_def)

lemma dbl_sub_in:
  assumes "dbl_in a b x" and "dbl_in c d y" and "1 / 2 ^ 200 \<le> a - d" and "b - c \<le> 2 ^ 200"
  shows "dbl_in ((a - d) / 2) (2 * (b - c)) (dbl_sub x y)"
  using dbl_add_in [OF assms(1) dbl_neg_in [OF assms(2)]] assms(3,4) by (simp add: dbl_sub_def)

lemma dbl_mul_in:
  assumes "dbl_in a b x" and "dbl_in c d y" and "0 \<le> a" and "0 \<le> c" and "1 / 2 ^ 200 \<le> a * c" and "b * d \<le> 2 ^ 200"
  shows "dbl_in (a * c / 2) (2 * (b * d)) (dbl_mul x y)"
proof -
  from assms(1,2) obtain p q where v: "x = Finite p" "y = Finite q" "a \<le> p" "p \<le> b" "c \<le> q" "q \<le> d"
    by (auto simp: dbl_in_def)
  then have "a * c \<le> p * q" "p * q \<le> b * d" using assms(3,4) by (auto intro!: mult_mono)
  with to_double_in [OF assms(5) _ _ assms(6)] v show ?thesis by simp
qed

lemma dbl_div_in:
  assumes "dbl_in a b x" and "dbl_in c d y" and "0 \<le> a" and "0 < c" and "1 / 2 ^ 200 \<le> a / d" and "b / c \<le> 2 ^ 200"
  shows "dbl_in (a / d / 2) (2 * (b / c)) (dbl_div x y)"
proof -
  from assms(1,2) obtain p q where v: "x = Finite p" "y = Finite q" "a \<le> p" "p \<le> b" "c \<le> q" "q \<le> d"
    by (auto simp: dbl_in_def)
  then have "a / d \<le> p / q" "p / q \<le> b / c" "q \<noteq> 0" using assms(3,4) by (auto intro!: frac_le)
  with to_double_in [OF assms(5) _ _ assms(6)] v show ?thesis by simp
qed

lemma dbl_round_in:
  assumes "dbl_in (of_int m) (of_int n) x" and "0 \<le> m" shows "dbl_in (of_int m) (of_int n) (dbl_round x)"
proof -
  from assms(1) obtain q where q: "x = Finite q" "of_int m \<le> q" "q \<le> of_int n" by (auto simp: dbl_in_def)
  have "(0 :: rat) \<le> of_int m" using assms(2) by simp
  with q have "\<not> q < 0" by linarith
  moreover have "m \<le> \<lfloor>q + 1 / 2\<rfloor>" using q(2) by (simp add: le_floor_iff)
  moreover have "\<lfloor>q + 1 / 2\<rfloor> \<le> n" using q(3) by (simp add: floor_le_iff)
  ultimately show ?thesis using q(1) by (simp add: dbl_in_def round_away_def)
qed

lemma dbl_in_not_le: "dbl_in a b x \<Longrightarrow> 0 < a \<Longrightarrow> \<not> dbl_le x (Finite 0)"
  by (auto simp: dbl_in_def dbl_le_def)

end
