(* ===== verification/Order_Generator.thy ===== *)
theory Order_Generator
  imports Double_Ops Fixed_Price "HOL-Library.Monad_Syntax"
begin

text \<open>
  \<^verbatim>\<open>include/benchmark/OrderGenerator.hpp\<close> and \<^verbatim>\<open>src/benchmark/OrderGenerator.cpp\<close>: a stream of random
  orders with a given mix of types.  What the standard library's engine and distributions draw is not
  determined by the language: they are the parameter \<open>draws\<close>, functions of a generator state, and the
  theorems assume only the documented ranges.  Drawing an index outside a vector is undefined
  behaviour, \<open>None\<close>.
\<close>

record GeneratorConfig =
  gc_count :: u64
  gc_symbols :: "Symbol list"
  gc_seed :: u32
  gc_fracLimit :: double
  gc_fracMarket :: double
  gc_fracCancel :: double
  gc_fracIoc :: double
  gc_fracFok :: double
  gc_fracInvalid :: double

definition GeneratorConfig_default :: GeneratorConfig where
  "GeneratorConfig_default =
     \<lparr>gc_count = 1000000, gc_symbols = [''AAPL'', ''MSFT'', ''NVDA'', ''TSLA''], gc_seed = 42,
      gc_fracLimit = to_double (55 / 100), gc_fracMarket = to_double (20 / 100), gc_fracCancel = to_double (15 / 100),
      gc_fracIoc = to_double (3 / 100), gc_fracFok = to_double (2 / 100), gc_fracInvalid = to_double (5 / 100)\<rparr>"

record SymbolParams =
  midPrice :: double
  halfSpread :: double
  tickSize :: double

definition symbol_params :: "rat \<Rightarrow> rat \<Rightarrow> SymbolParams" where
  "symbol_params mid half = \<lparr>midPrice = to_double mid, halfSpread = to_double half, tickSize = to_double (1 / 100)\<rparr>"

definition defaultSymbolParams :: "Symbol \<Rightarrow> SymbolParams" where
  "defaultSymbolParams sy =
     (if sy = ''AAPL'' then symbol_params 185 (1 / 2)
      else if sy = ''MSFT'' then symbol_params 415 (3 / 4)
      else if sy = ''NVDA'' then symbol_params 875 2
      else if sy = ''TSLA'' then symbol_params 180 1
      else symbol_params 100 (1 / 2))"

text \<open>The distributions the code uses, over a state of the random engine.\<close>

record 'g draws =
  seed_engine :: "u32 \<Rightarrow> 'g"
  draw_u64 :: "u64 \<Rightarrow> u64 \<Rightarrow> 'g \<Rightarrow> u64 \<times> 'g"
  draw_int :: "int \<Rightarrow> int \<Rightarrow> 'g \<Rightarrow> int \<times> 'g"
  draw_real :: "double \<Rightarrow> double \<Rightarrow> 'g \<Rightarrow> double \<times> 'g"
  draw_bool :: "double \<Rightarrow> 'g \<Rightarrow> bool \<times> 'g"

text \<open>Their documented ranges.\<close>

definition lawful_draws :: "'g draws \<Rightarrow> bool" where
  "lawful_draws d \<longleftrightarrow>
     (\<forall>a b g. a \<le> b \<longrightarrow> a \<le> fst (draw_u64 d a b g) \<and> fst (draw_u64 d a b g) \<le> b) \<and>
     (\<forall>x y g. x \<le> y \<longrightarrow> dbl_in x y (fst (draw_real d (Finite x) (Finite y) g)))"

record 'g generator =
  g_engine :: 'g
  g_counter :: u64
  g_resting :: "(Symbol \<times> OrderId) list"

definition OrderGenerator_new :: "'g draws \<Rightarrow> GeneratorConfig \<Rightarrow> 'g generator" where
  "OrderGenerator_new d cfg = \<lparr>g_engine = seed_engine d (gc_seed cfg), g_counter = 0, g_resting = []\<rparr>"

text \<open>One draw, advancing the engine of the generator.\<close>

definition drawn :: "('g \<Rightarrow> 'a \<times> 'g) \<Rightarrow> 'g generator \<Rightarrow> 'a \<times> 'g generator" where
  "drawn f g = (let (x, e) = f (g_engine g) in (x, g\<lparr>g_engine := e\<rparr>))"

definition nextId :: "'g generator \<Rightarrow> OrderId \<times> 'g generator" where
  "nextId g = (g_counter g + 1, g\<lparr>g_counter := g_counter g + 1\<rparr>)"

definition draw_side :: "'g draws \<Rightarrow> 'g generator \<Rightarrow> Side \<times> 'g generator" where
  "draw_side d g = (let (b, g') = drawn (draw_bool d (Finite (1 / 2))) g in (if b then BUY else SELL, g'))"

definition round_to_tick :: "SymbolParams \<Rightarrow> double \<Rightarrow> double" where
  "round_to_tick P raw =
     (let x = dbl_mul (dbl_round (dbl_div raw (tickSize P))) (tickSize P)
      in if dbl_le x (Finite 0) then tickSize P else x)"

definition passive_price :: "Side \<Rightarrow> SymbolParams \<Rightarrow> double \<Rightarrow> double" where
  "passive_price sd P off = (if sd = BUY then dbl_sub (midPrice P) off else dbl_add (midPrice P) off)"

definition aggressive_price :: "Side \<Rightarrow> SymbolParams \<Rightarrow> double \<Rightarrow> double" where
  "aggressive_price sd P off = (if sd = BUY then dbl_add (midPrice P) off else dbl_sub (midPrice P) off)"

definition makeLimit :: "'g draws \<Rightarrow> Symbol \<Rightarrow> Timestamp \<Rightarrow> 'g generator \<Rightarrow> (Order \<times> 'g generator) option" where
  "makeLimit d sy ts g =
     (let P = defaultSymbolParams sy;
          (sd, g) = draw_side d g;
          (off, g) = drawn (draw_real d (Finite 0) (halfSpread P)) g;
          raw = round_to_tick P (passive_price sd P off);
          (aggr, g) = drawn (draw_bool d (to_double (30 / 100))) g;
          (raw, g) = (if aggr
                      then (let (off2, g') = drawn (draw_real d (Finite 0) (dbl_mul (halfSpread P) (Finite 2))) g
                            in (round_to_tick P (aggressive_price sd P off2), g'))
                      else (raw, g));
          (i, g) = nextId g;
          (q, g) = drawn (draw_u64 d 1 500) g
      in map_option (\<lambda>p. (Order_new i sy sd LIMIT p q ts, g)) (toFixedPrice raw))"

definition makeMarket :: "'g draws \<Rightarrow> Symbol \<Rightarrow> Timestamp \<Rightarrow> 'g generator \<Rightarrow> Order \<times> 'g generator" where
  "makeMarket d sy ts g =
     (let (sd, g) = draw_side d g;
          (i, g) = nextId g;
          (q, g) = drawn (draw_u64 d 1 200) g
      in (Order_new i sy sd MARKET 0 q ts, g))"

text \<open>No order when nothing rests; otherwise one entry, whose place the last one takes.\<close>

definition makeCancel :: "'g draws \<Rightarrow> Timestamp \<Rightarrow> 'g generator \<Rightarrow> (Order option \<times> 'g generator) option" where
  "makeCancel d ts g =
     (if g_resting g = [] then Some (None, g)
      else let (idx, g) = drawn (draw_u64 d 0 (of_nat (length (g_resting g)) - 1)) g;
               k = unat idx; rs = g_resting g
           in if k < length rs
              then (let (sy, i) = rs ! k
                    in Some (Some (Order_new i sy BUY CANCEL 0 1 ts), g\<lparr>g_resting := butlast (rs[k := last rs])\<rparr>))
              else None)"

text \<open>The common part of \<^verbatim>\<open>makeIoc\<close> and \<^verbatim>\<open>makeFok\<close>: an aggressive price and a bounded quantity.\<close>

definition make_aggressive ::
  "OrderType \<Rightarrow> rat \<Rightarrow> u64 \<Rightarrow> 'g draws \<Rightarrow> Symbol \<Rightarrow> Timestamp \<Rightarrow> 'g generator \<Rightarrow> (Order \<times> 'g generator) option" where
  "make_aggressive ty factor maxq d sy ts g =
     (let P = defaultSymbolParams sy;
          (sd, g) = draw_side d g;
          (off, g) = drawn (draw_real d (Finite 0) (dbl_mul (halfSpread P) (Finite factor))) g;
          raw = round_to_tick P (aggressive_price sd P off);
          (i, g) = nextId g;
          (q, g) = drawn (draw_u64 d 1 maxq) g
      in map_option (\<lambda>p. (Order_new i sy sd ty p q ts, g)) (toFixedPrice raw))"

definition makeIoc :: "'g draws \<Rightarrow> Symbol \<Rightarrow> Timestamp \<Rightarrow> 'g generator \<Rightarrow> (Order \<times> 'g generator) option" where
  "makeIoc = make_aggressive IOC 3 150"

definition makeFok :: "'g draws \<Rightarrow> Symbol \<Rightarrow> Timestamp \<Rightarrow> 'g generator \<Rightarrow> (Order \<times> 'g generator) option" where
  "makeFok = make_aggressive FOK 2 80"

definition makeInvalid :: "'g draws \<Rightarrow> Symbol \<Rightarrow> Timestamp \<Rightarrow> 'g generator \<Rightarrow> (Order \<times> 'g generator) option" where
  "makeInvalid d sy ts g =
     (let (kind, g) = drawn (draw_int d 0 2) g;
          (i, g) = nextId g
      in if kind = 0 then map_option (\<lambda>p. (Order_new i sy BUY LIMIT p 0 ts, g)) (toFixedPrice (Finite 100))
         else if kind = 1 then Some (Order_new i sy SELL LIMIT 0 100 ts, g)
         else map_option (\<lambda>p. (Order_new i ''INVALID'' BUY LIMIT p 100 ts, g)) (toFixedPrice (Finite 100)))"

section \<open>The stream\<close>

definition pick_symbol :: "'g draws \<Rightarrow> Symbol list \<Rightarrow> 'g generator \<Rightarrow> (Symbol \<times> 'g generator) option" where
  "pick_symbol d syms g =
     (let (k, g) = drawn (draw_u64 d 0 (of_nat (length syms) - 1)) g
      in if unat k < length syms then Some (syms ! unat k, g) else None)"

definition track :: "Symbol \<Rightarrow> OrderId \<Rightarrow> 'g generator \<Rightarrow> 'g generator" where
  "track sy i g = g\<lparr>g_resting := g_resting g @ [(sy, i)]\<rparr>"

fun seed_orders :: "'g draws \<Rightarrow> Symbol list \<Rightarrow> Timestamp list \<Rightarrow> 'g generator \<Rightarrow> (Order list \<times> 'g generator) option" where
  "seed_orders d syms [] g = Some ([], g)"
| "seed_orders d syms (ts # rest) g = do {
     (sy, g) \<leftarrow> pick_symbol d syms g;
     (x, g) \<leftarrow> makeLimit d sy ts g;
     (xs, g) \<leftarrow> seed_orders d syms rest (track sy (oid x) g);
     Some (x # xs, g) }"

record thresholds =
  t_limit :: double
  t_market :: double
  t_cancel :: double
  t_ioc :: double
  t_fok :: double

definition type_thresholds :: "GeneratorConfig \<Rightarrow> thresholds" where
  "type_thresholds cfg =
     (let l = gc_fracLimit cfg; m = dbl_add l (gc_fracMarket cfg); c = dbl_add m (gc_fracCancel cfg);
          i = dbl_add c (gc_fracIoc cfg)
      in \<lparr>t_limit = l, t_market = m, t_cancel = c, t_ioc = i, t_fok = dbl_add i (gc_fracFok cfg)\<rparr>)"

definition main_order ::
  "'g draws \<Rightarrow> Symbol list \<Rightarrow> thresholds \<Rightarrow> Timestamp \<Rightarrow> 'g generator \<Rightarrow> (Order \<times> 'g generator) option" where
  "main_order d syms t ts g = do {
     (sy, g) \<leftarrow> pick_symbol d syms g;
     let (r, g) = drawn (draw_real d (Finite 0) (Finite 1)) g;
     if dbl_less r (t_limit t)
     then do {
       (x, g) \<leftarrow> makeLimit d sy ts g;
       Some (x, if length (g_resting g) < 50000 then track sy (oid x) g else g) }
     else if dbl_less r (t_market t) then Some (makeMarket d sy ts g)
     else if dbl_less r (t_cancel t)
     then do {
       (c, g) \<leftarrow> makeCancel d ts g;
       case c of
         Some x \<Rightarrow> Some (x, g)
       | None \<Rightarrow> do {
           (x, g) \<leftarrow> makeLimit d sy ts g;
           Some (x, track sy (oid x) g) } }
     else if dbl_less r (t_ioc t) then makeIoc d sy ts g
     else if dbl_less r (t_fok t) then makeFok d sy ts g
     else makeInvalid d sy ts g }"

fun main_orders ::
  "'g draws \<Rightarrow> Symbol list \<Rightarrow> thresholds \<Rightarrow> Timestamp list \<Rightarrow> 'g generator \<Rightarrow> (Order list \<times> 'g generator) option" where
  "main_orders d syms t [] g = Some ([], g)"
| "main_orders d syms t (ts # rest) g = do {
     (x, g) \<leftarrow> main_order d syms t ts g;
     (xs, g) \<leftarrow> main_orders d syms t rest g;
     Some (x # xs, g) }"

definition seed_count :: "u64 \<Rightarrow> nat" where
  "seed_count n = min (unat n div 10) 5000"

definition generate :: "'g draws \<Rightarrow> GeneratorConfig \<Rightarrow> 'g generator \<Rightarrow> (Order list \<times> 'g generator) option" where
  "generate d cfg g = do {
     let n = unat (gc_count cfg);
     let k = seed_count (gc_count cfg);
     (xs, g) \<leftarrow> seed_orders d (gc_symbols cfg) (map of_nat [0..<k]) g;
     (ys, g) \<leftarrow> main_orders d (gc_symbols cfg) (type_thresholds cfg) (map of_nat [k..<n]) g;
     Some (xs @ ys, g) }"


section \<open>Prices\<close>

text \<open>
  Rough bounds are enough: every intermediate price stays between 13 and 4000 dollars, so it rounds to
  a positive multiple of the tick and fits the fixed-point range; the fallback to one tick is
  never needed.
\<close>

lemma default_params_cases:
  assumes "\<And>mid half. 100 \<le> mid \<Longrightarrow> mid \<le> 875 \<Longrightarrow> 1 / 2 \<le> half \<Longrightarrow> half \<le> 2 \<Longrightarrow> P (symbol_params mid half)"
  shows "P (defaultSymbolParams sy)"
proof -
  have "P (symbol_params 185 (1 / 2))" "P (symbol_params 415 (3 / 4))" "P (symbol_params 875 2)"
    "P (symbol_params 180 1)" "P (symbol_params 100 (1 / 2))" by (rule assms; simp)+
  then show ?thesis unfolding defaultSymbolParams_def by presburger
qed

lemma params_in:
  "dbl_in 50 1750 (midPrice (defaultSymbolParams sy))" "dbl_in (1 / 4) 4 (halfSpread (defaultSymbolParams sy))"
  "dbl_in (1 / 200) (1 / 50) (tickSize (defaultSymbolParams sy))"
proof -
  have m: "dbl_in 50 1750 (to_double q)" if "100 \<le> q" "q \<le> 875" for q
    using to_double_in [of 100 q 875] that by simp
  have h: "dbl_in (1 / 4) 4 (to_double q)" if "1 / 2 \<le> q" "q \<le> 2" for q
    using to_double_in [of "1 / 2" q 2] that by simp
  have t: "dbl_in (1 / 200) (1 / 50) (to_double (1 / 100))"
    using to_double_in [of "1 / 100" "1 / 100" "1 / 100"] by simp
  show "dbl_in 50 1750 (midPrice (defaultSymbolParams sy))"
    by (rule default_params_cases [where P = "\<lambda>p. dbl_in 50 1750 (midPrice p)"]) (simp only: symbol_params_def SymbolParams.simps m)
  show "dbl_in (1 / 4) 4 (halfSpread (defaultSymbolParams sy))"
    by (rule default_params_cases [where P = "\<lambda>p. dbl_in (1 / 4) 4 (halfSpread p)"]) (simp only: symbol_params_def SymbolParams.simps h)
  show "dbl_in (1 / 200) (1 / 50) (tickSize (defaultSymbolParams sy))"
    by (rule default_params_cases [where P = "\<lambda>p. dbl_in (1 / 200) (1 / 50) (tickSize p)"]) (simp only: symbol_params_def SymbolParams.simps t)
qed

lemma toFixedPrice_in:
  assumes "dbl_in (1 / 2) 100000 x" shows "\<exists>p. toFixedPrice x = Some p \<and> 0 < p"
proof -
  from assms obtain q where q: "x = Finite q" "1 / 2 \<le> q" "q \<le> 100000" by (auto simp: dbl_in_def)
  have "dbl_in 2500 2000000000 (dbl_apply (\<lambda>x. x * of_int PRICE_SCALE) x)"
    using to_double_in [of 5000 "q * 10000" 1000000000] q by (simp add: dbl_apply_def PRICE_SCALE_def)
  then obtain a where a: "dbl_apply (\<lambda>x. x * of_int PRICE_SCALE) x = Finite a" "2500 \<le> a" "a \<le> 2000000000"
    by (auto simp: dbl_in_def)
  have "dbl_in 1250 4000000002 (to_double (a + 1 / 2))"
    using to_double_in [of 2500 "a + 1 / 2" 2000000001] a(2,3) by simp
  then obtain b where b: "to_double (a + 1 / 2) = Finite b" "1250 \<le> b" "b \<le> 4000000002" by (auto simp: dbl_in_def)
  have t: "trunc_rat b = \<lfloor>b\<rfloor>" using b(2) by (simp add: trunc_rat_def)
  have r: "1250 \<le> \<lfloor>b\<rfloor>" "\<lfloor>b\<rfloor> \<le> 4000000002" using b(2,3) by (simp_all add: le_floor_iff floor_le_iff)
  then have "- (2 ^ 63) \<le> \<lfloor>b\<rfloor>" "\<lfloor>b\<rfloor> < 2 ^ 63" by simp_all
  then have "toFixedPrice x = Some (I64 (of_int \<lfloor>b\<rfloor>))" and "i64_val (I64 (of_int \<lfloor>b\<rfloor>)) = \<lfloor>b\<rfloor>"
    using a(1) b(1) t i64_val_of_int [of "\<lfloor>b\<rfloor>"] by (simp_all add: toFixedPrice_def dbl_apply_def dbl_to_i64_def Let_def)
  with r(1) show ?thesis by (auto simp: i64_pos_iff)
qed

lemma tick_price:
  assumes "dbl_in 13 4000 raw"
  shows "\<exists>p. toFixedPrice (round_to_tick (defaultSymbolParams sy) raw) = Some p \<and> 0 < p"
proof -
  let ?t = "tickSize (defaultSymbolParams sy)"
  note t = params_in(3) [of sy]
  have "dbl_in 325 1600000 (dbl_div raw ?t)" using dbl_div_in [OF assms t] by simp
  then have "dbl_in 325 1600000 (dbl_round (dbl_div raw ?t))" using dbl_round_in [of 325 1600000] by simp
  from dbl_mul_in [OF this t] have x: "dbl_in (13 / 16) 64000 (dbl_mul (dbl_round (dbl_div raw ?t)) ?t)" by simp
  have "\<not> dbl_le (dbl_mul (dbl_round (dbl_div raw ?t)) ?t) (Finite 0)" by (rule dbl_in_not_le [OF x]) simp
  then have "round_to_tick (defaultSymbolParams sy) raw = dbl_mul (dbl_round (dbl_div raw ?t)) ?t"
    by (simp add: round_to_tick_def Let_def)
  with toFixedPrice_in [OF dbl_in_weaken [OF x]] show ?thesis by simp
qed

lemma offset_price:
  assumes "dbl_in 0 24 off"
  shows "dbl_in 13 4000 (passive_price sd (defaultSymbolParams sy) off)"
    "dbl_in 13 4000 (aggressive_price sd (defaultSymbolParams sy) off)"
proof -
  note m = params_in(1) [of sy]
  have "dbl_in 13 4000 (dbl_sub (midPrice (defaultSymbolParams sy)) off)"
    by (rule dbl_in_weaken [OF dbl_sub_in [OF m assms]]) simp_all
  moreover have "dbl_in 13 4000 (dbl_add (midPrice (defaultSymbolParams sy)) off)"
    by (rule dbl_in_weaken [OF dbl_add_in [OF m assms]]) simp_all
  ultimately show "dbl_in 13 4000 (passive_price sd (defaultSymbolParams sy) off)"
    "dbl_in 13 4000 (aggressive_price sd (defaultSymbolParams sy) off)"
    by (simp_all add: passive_price_def aggressive_price_def)
qed

lemma drawn_offset:
  assumes "lawful_draws d" and "dbl_in 0 24 h"
  shows "dbl_in 0 24 (fst (drawn (draw_real d (Finite 0) h) g))"
proof -
  from assms(2) obtain q where q: "h = Finite q" "0 \<le> q" "q \<le> 24" by (auto simp: dbl_in_def)
  have "dbl_in 0 q (fst (draw_real d (Finite 0) (Finite q) (g_engine g)))"
    using assms(1) q(2) by (simp add: lawful_draws_def)
  with q show ?thesis by (simp add: drawn_def case_prod_beta dbl_in_weaken [OF _ order_refl])
qed

lemma spread_in:
  assumes "1 \<le> f" and "f \<le> 3"
  shows "dbl_in 0 24 (halfSpread (defaultSymbolParams sy))" "dbl_in 0 24 (dbl_mul (halfSpread (defaultSymbolParams sy)) (Finite f))"
proof -
  note h = params_in(2) [of sy]
  show "dbl_in 0 24 (halfSpread (defaultSymbolParams sy))" by (rule dbl_in_weaken [OF h]) simp_all
  have "dbl_in 1 3 (Finite f)" using assms by (simp add: dbl_in_def)
  from dbl_mul_in [OF h this] show "dbl_in 0 24 (dbl_mul (halfSpread (defaultSymbolParams sy)) (Finite f))"
    by (auto intro: dbl_in_weaken)
qed

end
