(* ===== verification/Generator_Stream.thy ===== *)
theory Generator_Stream
  imports Order_Generator Order_Book "HOL-Library.Multiset"
begin

text \<open>
  What the generated stream looks like, whatever is drawn: one order per time stamp, fresh ids in
  sequence, cancellations only of limit orders emitted before and at most once each, bounded
  quantities, positive prices except in the orders that are meant to be rejected.
\<close>

section \<open>The shape of a single order\<close>

definition proper_order :: "Symbol list \<Rightarrow> Order \<Rightarrow> bool" where
  "proper_order syms x \<longleftrightarrow>
     osymbol x \<in> set syms \<and> 0 < oquantity x \<and> (otype x \<in> {LIMIT, IOC, FOK} \<longrightarrow> 0 < oprice x)"

definition reject_order :: "Order \<Rightarrow> bool" where
  "reject_order x \<longleftrightarrow> otype x = LIMIT \<and> (oquantity x = 0 \<or> oprice x = 0 \<or> osymbol x = ''INVALID'')"

definition generated_order :: "Symbol list \<Rightarrow> Order \<Rightarrow> bool" where
  "generated_order syms x \<longleftrightarrow>
     unat (oquantity x) \<le> 500 \<and> ofilledQty x = 0 \<and> ostatus x = PENDING \<and> (proper_order syms x \<or> reject_order x)"

text \<open>A step that emits an order with the next id.\<close>

definition emits :: "Symbol list \<Rightarrow> Timestamp \<Rightarrow> Order \<Rightarrow> 'g generator \<Rightarrow> 'g generator \<Rightarrow> bool" where
  "emits syms ts x g g' \<longleftrightarrow>
     otype x \<noteq> CANCEL \<and> otimestamp x = ts \<and> generated_order syms x \<and> oid x = g_counter g + 1 \<and>
     g_counter g' = g_counter g + 1 \<and> g_resting g' = g_resting g"

lemma drawn_simps [simp]:
  "g_counter (snd (drawn f g)) = g_counter g" "g_resting (snd (drawn f g)) = g_resting g"
  by (simp_all add: drawn_def case_prod_beta)

lemma draw_side_simps [simp]:
  "g_counter (snd (draw_side d g)) = g_counter g" "g_resting (snd (draw_side d g)) = g_resting g"
  by (simp_all add: draw_side_def case_prod_beta)

lemma nextId_simps [simp]:
  "fst (nextId g) = g_counter g + 1" "g_counter (snd (nextId g)) = g_counter g + 1" "g_resting (snd (nextId g)) = g_resting g"
  by (simp_all add: nextId_def)

lemma drawn_quantity:
  assumes "lawful_draws d" and "1 \<le> m" and "unat m \<le> 500"
  shows "0 < fst (drawn (draw_u64 d 1 m) g)" and "unat (fst (drawn (draw_u64 d 1 m) g)) \<le> 500"
proof -
  let ?q = "fst (draw_u64 d 1 m (g_engine g))"
  have q: "1 \<le> ?q" "?q \<le> m" using assms(1,2) by (simp_all add: lawful_draws_def)
  have "0 < unat ?q" using q(1) by (simp add: word_le_nat_alt)
  then show "0 < fst (drawn (draw_u64 d 1 m) g)" by (simp add: drawn_def case_prod_beta word_gt_0_unat)
  show "unat (fst (drawn (draw_u64 d 1 m) g)) \<le> 500"
    using q(2) assms(3) by (simp add: drawn_def case_prod_beta word_le_nat_alt)
qed

lemma generated_proper:
  assumes "0 < q" and "unat q \<le> 500" and "sy \<in> set syms" and "ty \<in> {LIMIT, IOC, FOK} \<longrightarrow> 0 < p"
  shows "generated_order syms (Order_new i sy sd ty p q ts)"
  using assms by (simp add: generated_order_def proper_order_def Order_new_def)

lemma makeLimit_emits:
  assumes d: "lawful_draws d" and sy: "sy \<in> set syms"
  shows "\<exists>x g'. makeLimit d sy ts g = Some (x, g') \<and> emits syms ts x g g' \<and> otype x = LIMIT \<and> osymbol x = sy"
proof -
  let ?P = "defaultSymbolParams sy"
  let ?sd = "fst (draw_side d g)" and ?g1 = "snd (draw_side d g)"
  let ?off = "fst (drawn (draw_real d (Finite 0) (halfSpread ?P)) ?g1)" and ?g2 = "snd (drawn (draw_real d (Finite 0) (halfSpread ?P)) ?g1)"
  let ?aggr = "fst (drawn (draw_bool d (to_double (30 / 100))) ?g2)" and ?g3 = "snd (drawn (draw_bool d (to_double (30 / 100))) ?g2)"
  let ?D = "drawn (draw_real d (Finite 0) (dbl_mul (halfSpread ?P) (Finite 2))) ?g3"
  let ?raw = "if ?aggr then round_to_tick ?P (aggressive_price ?sd ?P (fst ?D)) else round_to_tick ?P (passive_price ?sd ?P ?off)"
  let ?g4 = "if ?aggr then snd ?D else ?g3"
  let ?g5 = "snd (nextId ?g4)"
  let ?q = "fst (drawn (draw_u64 d 1 500) ?g5)" and ?g6 = "snd (drawn (draw_u64 d 1 500) ?g5)"
  have "\<exists>p. toFixedPrice ?raw = Some p \<and> 0 < p"
  proof (cases ?aggr)
    case True
    show ?thesis
      using tick_price [OF offset_price(2) [OF drawn_offset [OF d spread_in(2) [of 2 sy]]]] True by simp
  next
    case False
    show ?thesis
      using tick_price [OF offset_price(1) [OF drawn_offset [OF d spread_in(1) [of 1 sy]]]] False by simp
  qed
  then obtain p where p: "toFixedPrice ?raw = Some p" "0 < p" by blast
  let ?x = "Order_new (fst (nextId ?g4)) sy ?sd LIMIT p ?q ts"
  have "makeLimit d sy ts g = map_option (\<lambda>p. (Order_new (fst (nextId ?g4)) sy ?sd LIMIT p ?q ts, ?g6)) (toFixedPrice ?raw)"
    unfolding makeLimit_def Let_def case_prod_beta if_distrib [of fst] if_distrib [of snd] prod.sel ..
  then have "makeLimit d sy ts g = Some (?x, ?g6)" unfolding p(1) by simp
  moreover have "g_counter ?g4 = g_counter g" "g_resting ?g4 = g_resting g" by simp_all
  then have "emits syms ts ?x g ?g6"
    using generated_proper [OF drawn_quantity [OF d, of 500 ?g5] sy, of LIMIT p "fst (nextId ?g4)" ?sd ts] p(2)
    by (simp add: emits_def) (simp add: Order_new_def)
  ultimately show ?thesis by (intro exI [of _ ?x] exI [of _ ?g6]) (simp add: Order_new_def)
qed

lemma makeMarket_emits:
  assumes d: "lawful_draws d" and sy: "sy \<in> set syms"
  shows "emits syms ts (fst (makeMarket d sy ts g)) g (snd (makeMarket d sy ts g))"
proof -
  let ?g = "snd (nextId (snd (draw_side d g)))"
  have m: "makeMarket d sy ts g
    = (Order_new (fst (nextId (snd (draw_side d g)))) sy (fst (draw_side d g)) MARKET 0 (fst (drawn (draw_u64 d 1 200) ?g)) ts,
       snd (drawn (draw_u64 d 1 200) ?g))"
    unfolding makeMarket_def Let_def case_prod_beta ..
  show ?thesis
    using generated_proper [OF drawn_quantity [OF d, of 200 ?g] sy, of MARKET 0 "fst (nextId (snd (draw_side d g)))" "fst (draw_side d g)" ts]
    unfolding m by (simp add: emits_def) (simp add: Order_new_def)
qed

lemma make_aggressive_emits:
  assumes d: "lawful_draws d" and sy: "sy \<in> set syms" and f: "1 \<le> f" "f \<le> 3" and mq: "1 \<le> mq" "unat mq \<le> 500"
    and ty: "ty \<in> {IOC, FOK}"
  shows "\<exists>x g'. make_aggressive ty f mq d sy ts g = Some (x, g') \<and> emits syms ts x g g'"
proof -
  let ?P = "defaultSymbolParams sy"
  let ?sd = "fst (draw_side d g)" and ?g1 = "snd (draw_side d g)"
  let ?D = "drawn (draw_real d (Finite 0) (dbl_mul (halfSpread ?P) (Finite f))) ?g1"
  let ?raw = "round_to_tick ?P (aggressive_price ?sd ?P (fst ?D))"
  let ?g5 = "snd (nextId (snd ?D))"
  let ?q = "fst (drawn (draw_u64 d 1 mq) ?g5)" and ?g6 = "snd (drawn (draw_u64 d 1 mq) ?g5)"
  from tick_price [OF offset_price(2) [OF drawn_offset [OF d spread_in(2) [OF f, of sy]]]]
  obtain p where p: "toFixedPrice ?raw = Some p" "0 < p" by blast
  let ?x = "Order_new (fst (nextId (snd ?D))) sy ?sd ty p ?q ts"
  have "make_aggressive ty f mq d sy ts g
      = map_option (\<lambda>p. (Order_new (fst (nextId (snd ?D))) sy ?sd ty p ?q ts, ?g6)) (toFixedPrice ?raw)"
    unfolding make_aggressive_def Let_def case_prod_beta ..
  then have "make_aggressive ty f mq d sy ts g = Some (?x, ?g6)" unfolding p(1) by simp
  moreover have "emits syms ts ?x g ?g6"
    using generated_proper [OF drawn_quantity [OF d mq, of ?g5] sy, of ty p "fst (nextId (snd ?D))" ?sd ts] p(2) ty
    by (simp add: emits_def) (auto simp: Order_new_def)
  ultimately show ?thesis by blast
qed

lemma makeInvalid_emits:
  assumes "sy \<in> set syms"
  shows "\<exists>x g'. makeInvalid d sy ts g = Some (x, g') \<and> emits syms ts x g g'"
proof -
  let ?D = "drawn (draw_int d 0 2) g"
  let ?i = "fst (nextId (snd ?D))" and ?g = "snd (nextId (snd ?D))"
  have "dbl_in (1 / 2) 100000 (Finite 100)" by (simp add: dbl_in_def)
  from toFixedPrice_in [OF this] obtain p where p: "toFixedPrice (Finite 100) = Some p" "0 < p" by blast
  let ?x = "if fst ?D = 0 then Order_new ?i sy BUY LIMIT p 0 ts
    else if fst ?D = 1 then Order_new ?i sy SELL LIMIT 0 100 ts else Order_new ?i ''INVALID'' BUY LIMIT p 100 ts"
  have "makeInvalid d sy ts g = Some (?x, ?g)"
    using p(1) by (simp add: makeInvalid_def Let_def case_prod_beta)
  moreover have "emits syms ts ?x g ?g"
    by (simp add: emits_def) (simp add: generated_order_def reject_order_def Order_new_def)
  ultimately show ?thesis by blast
qed

section \<open>The state of the generator\<close>

definition with_id :: "Order list \<Rightarrow> Order list" where
  "with_id os = filter (\<lambda>x. otype x \<noteq> CANCEL) os"

definition limit_refs :: "Order list \<Rightarrow> (Symbol \<times> OrderId) list" where
  "limit_refs os = map (\<lambda>x. (osymbol x, oid x)) (filter (\<lambda>x. otype x = LIMIT) os)"

definition cancel_refs :: "Order list \<Rightarrow> (Symbol \<times> OrderId) list" where
  "cancel_refs os = map (\<lambda>x. (osymbol x, oid x)) (filter (\<lambda>x. otype x = CANCEL) os)"

text \<open>What a generated list satisfies.\<close>

definition generated_stream :: "Symbol list \<Rightarrow> Order list \<Rightarrow> bool" where
  "generated_stream syms os \<longleftrightarrow>
     map otimestamp os = map of_nat [0..<length os] \<and>
     map oid (with_id os) = map of_nat [1..<Suc (length (with_id os))] \<and>
     distinct (map snd (cancel_refs os)) \<and>
     (\<forall>j<length os. otype (os ! j) = CANCEL \<longrightarrow> (osymbol (os ! j), oid (os ! j)) \<in> set (limit_refs (take j os))) \<and>
     (\<forall>x\<in>set os. if otype x = CANCEL then x = Order_new (oid x) (osymbol x) BUY CANCEL 0 1 (otimestamp x) else generated_order syms x)"

definition generator_inv :: "Symbol list \<Rightarrow> Order list \<Rightarrow> 'g generator \<Rightarrow> bool" where
  "generator_inv syms os g \<longleftrightarrow>
     generated_stream syms os \<and> g_counter g = of_nat (length (with_id os)) \<and>
     set (g_resting g) \<subseteq> set (limit_refs os) \<and> distinct (map snd (g_resting g) @ map snd (cancel_refs os))"

lemma with_id_simps [simp]:
  "with_id [] = []" "with_id (xs @ ys) = with_id xs @ with_id ys" "with_id [x] = (if otype x = CANCEL then [] else [x])"
  by (simp_all add: with_id_def)

lemma limit_refs_simps [simp]:
  "limit_refs [] = []" "limit_refs (xs @ ys) = limit_refs xs @ limit_refs ys"
  "limit_refs [x] = (if otype x = LIMIT then [(osymbol x, oid x)] else [])"
  by (simp_all add: limit_refs_def)

lemma cancel_refs_simps [simp]:
  "cancel_refs [] = []" "cancel_refs (xs @ ys) = cancel_refs xs @ cancel_refs ys"
  "cancel_refs [x] = (if otype x = CANCEL then [(osymbol x, oid x)] else [])"
  by (simp_all add: cancel_refs_def)

lemma with_id_length: "length (with_id os) \<le> length os"
  by (simp add: with_id_def)

lemma limit_refs_take: "set (limit_refs (take j os)) \<subseteq> set (limit_refs os)"
  unfolding limit_refs_def using set_take_subset [of j os] by auto

lemma limit_refs_ids: "snd ` set (limit_refs os) \<subseteq> set (map oid (with_id os))"
  by (auto simp: limit_refs_def with_id_def)

lemma cancel_refs_limits:
  assumes "generated_stream syms os" shows "set (cancel_refs os) \<subseteq> set (limit_refs os)"
proof
  fix r assume "r \<in> set (cancel_refs os)"
  then obtain x where x: "x \<in> set os" "otype x = CANCEL" "r = (osymbol x, oid x)"
    by (auto simp: cancel_refs_def)
  then obtain j where "j < length os" "x = os ! j" by (auto simp: in_set_conv_nth)
  with assms x(2,3) have "r \<in> set (limit_refs (take j os))" by (simp add: generated_stream_def)
  then show "r \<in> set (limit_refs os)" using limit_refs_take by blast
qed

lemma stream_nil: "generated_stream syms []" "generator_inv syms [] (OrderGenerator_new d cfg)"
  by (simp_all add: generated_stream_def generator_inv_def OrderGenerator_new_def)

text \<open>A list grows by an order with the next id, or by a cancellation of an earlier limit order.\<close>

lemma stream_emit:
  assumes s: "generated_stream syms os" and ty: "otype x \<noteq> CANCEL" and ts: "otimestamp x = of_nat (length os)"
    and i: "oid x = of_nat (Suc (length (with_id os)))" and o: "generated_order syms x"
  shows "generated_stream syms (os @ [x])"
  using s ty ts i o unfolding generated_stream_def
  by (simp add: less_Suc_eq nth_append all_conj_distrib)

lemma stream_cancel:
  assumes s: "generated_stream syms os" and ty: "otype x = CANCEL" and ts: "otimestamp x = of_nat (length os)"
    and r: "(osymbol x, oid x) \<in> set (limit_refs os)" and n: "oid x \<notin> snd ` set (cancel_refs os)"
    and q: "x = Order_new (oid x) (osymbol x) BUY CANCEL 0 1 (otimestamp x)"
  shows "generated_stream syms (os @ [x])"
  using s ty ts r n q [symmetric] unfolding generated_stream_def
  by (simp add: less_Suc_eq nth_append all_conj_distrib)

text \<open>The next id occurs nowhere before.\<close>

lemma next_id_new:
  assumes s: "generated_stream syms os" and l: "Suc (length os) < 2 ^ 64"
  shows "(of_nat (Suc (length (with_id os))) :: u64) \<notin> snd ` set (limit_refs os)"
proof
  let ?m = "length (with_id os)"
  assume "(of_nat (Suc ?m) :: u64) \<in> snd ` set (limit_refs os)"
  then have "(of_nat (Suc ?m) :: u64) \<in> set (map oid (with_id os))" using limit_refs_ids by blast
  moreover have "map oid (with_id os) = map of_nat [1..<Suc ?m]" using s unfolding generated_stream_def by (elim conjE)
  ultimately have "(of_nat (Suc ?m) :: u64) \<in> of_nat ` {1..<Suc ?m}" by (simp only: set_map set_upt)
  then obtain k where k: "k < Suc ?m" "(of_nat (Suc ?m) :: u64) = of_nat k" by (elim imageE) (rule that, simp_all only: atLeastLessThan_iff)
  have m: "Suc ?m < 2 ^ 64" using with_id_length [of os] l by linarith
  have "unat (of_nat (Suc ?m) :: u64) = Suc ?m" "unat (of_nat k :: u64) = k"
    using m k(1) by (simp_all only: unat_of_nat take_bit_nat_eq_self) simp_all
  with k show False by simp
qed

lemma inv_emit:
  assumes v: "generator_inv syms os g" and e: "emits syms (of_nat (length os)) x g g'" and l: "Suc (length os) < 2 ^ 64"
  shows "generator_inv syms (os @ [x]) g'"
    and "otype x = LIMIT \<Longrightarrow> generator_inv syms (os @ [x]) (track (osymbol x) (oid x) g')"
proof -
  let ?i = "of_nat (Suc (length (with_id os))) :: u64"
  note v' = v [unfolded generator_inv_def] and e' = e [unfolded emits_def]
  have i: "oid x = ?i" using v' e' by simp
  have st: "generated_stream syms (os @ [x])" using v' e' i by (intro stream_emit) simp_all
  show inv: "generator_inv syms (os @ [x]) g'" using v' e' st by (auto simp: generator_inv_def)
  have "?i \<notin> snd ` set (limit_refs os)" using next_id_new v' l by blast
  then have "?i \<notin> snd ` set (g_resting g)" "?i \<notin> snd ` set (cancel_refs os)"
    using v' cancel_refs_limits [of syms os] by blast+
  then show "generator_inv syms (os @ [x]) (track (osymbol x) (oid x) g')" if "otype x = LIMIT"
    using inv e' i that by (auto simp: generator_inv_def track_def)
qed

text \<open>Taking an entry out of the list of resting orders, the last one filling its place.\<close>

lemma swap_out:
  assumes "k < length rs" shows "mset (butlast (rs[k := last rs])) = mset rs - {#rs ! k#}"
proof -
  have ne: "rs \<noteq> []" using assms by auto
  have "mset (rs[k := last rs]) = add_mset (last rs) (mset rs - {#rs ! k#})"
    using assms by (simp add: mset_update)
  moreover have "last (rs[k := last rs]) = last rs"
    using assms ne by (cases "k = length rs - 1") (simp_all add: last_list_update last_conv_nth)
  then have "mset (rs[k := last rs]) = add_mset (last rs) (mset (butlast (rs[k := last rs])))"
    using ne append_butlast_last_id [of "rs[k := last rs]"] by (metis list_update_nonempty mset_append mset.simps(2) mset_single_iff union_mset_add_mset_right add.right_neutral mset.simps(1))
  ultimately show ?thesis by simp
qed

lemma inv_cancel:
  assumes v: "generator_inv syms os g" and k: "k < length (g_resting g)" "g_resting g ! k = (sy, i)"
    and g': "g_counter g' = g_counter g" "g_resting g' = butlast ((g_resting g)[k := last (g_resting g)])"
  shows "generator_inv syms (os @ [Order_new i sy BUY CANCEL 0 1 (of_nat (length os))]) g'"
proof -
  let ?rs = "g_resting g" and ?rs' = "g_resting g'" and ?x = "Order_new i sy BUY CANCEL 0 1 (of_nat (length os))"
  note v' = v [unfolded generator_inv_def]
  have "(sy, i) \<in># mset ?rs" using k by (metis nth_mem set_mset_mset)
  then have ms: "mset ((sy, i) # ?rs') = mset ?rs" unfolding g'(2) using swap_out [OF k(1)] k(2) by simp
  then have set': "set ((sy, i) # ?rs') = set ?rs" by (rule mset_eq_setD)
  have "mset (map snd ((sy, i) # ?rs') @ map snd (cancel_refs os)) = mset (map snd ?rs @ map snd (cancel_refs os))"
    using ms by (simp only: mset_append mset_map)
  from mset_eq_imp_distinct_iff [OF this] v'
  have d: "distinct (map snd ((sy, i) # ?rs') @ map snd (cancel_refs os))" by (elim conjE) (rule iffD2)
  have "generated_stream syms (os @ [?x])"
    using v' d set' by (intro stream_cancel) (auto simp: Order_new_def)
  then show ?thesis using v' d set' g'(1) by (auto simp: generator_inv_def Order_new_def)
qed

lemma makeCancel_nothing: "g_resting g = [] \<Longrightarrow> makeCancel d ts g = Some (None, g)"
  by (simp add: makeCancel_def)

lemma draw_index:
  assumes "lawful_draws d" and "n \<noteq> 0" and "n < 2 ^ 64"
  shows "unat (fst (drawn (draw_u64 d 0 (of_nat n - 1)) g)) < n"
proof -
  let ?k = "fst (draw_u64 d 0 (of_nat n - 1) (g_engine g))"
  have "?k \<le> of_nat n - 1" using assms(1) by (simp add: lawful_draws_def)
  then have "unat ?k \<le> unat (of_nat n - 1 :: u64)" by (simp add: word_le_nat_alt)
  moreover have "(of_nat n :: u64) - 1 = of_nat (n - 1)" using assms(2) by (simp add: of_nat_diff)
  then have "unat (of_nat n - 1 :: u64) = n - 1" using assms(3) by (simp add: unat_of_nat take_bit_nat_eq_self)
  ultimately show ?thesis using assms(2) by (simp add: drawn_def case_prod_beta)
qed

lemma resting_bound:
  assumes "generator_inv syms os g" and "length os < 2 ^ 64" shows "length (g_resting g) < 2 ^ 64"
proof -
  have "length (g_resting g) = card (set (g_resting g))"
    using assms(1) by (simp add: generator_inv_def distinct_map distinct_card)
  also have "\<dots> \<le> card (set (limit_refs os))"
    using assms(1) by (simp add: generator_inv_def card_mono)
  also have "\<dots> \<le> length os" by (rule order_trans [OF card_length]) (simp add: limit_refs_def)
  finally show ?thesis using assms(2) by simp
qed

lemma makeCancel_step:
  assumes d: "lawful_draws d" and v: "generator_inv syms os g" and l: "length os < 2 ^ 64" and ne: "g_resting g \<noteq> []"
  shows "\<exists>x g'. makeCancel d (of_nat (length os)) g = Some (Some x, g') \<and> generator_inv syms (os @ [x]) g'"
proof -
  let ?D = "drawn (draw_u64 d 0 (of_nat (length (g_resting g)) - 1)) g"
  let ?k = "unat (fst ?D)"
  have k: "?k < length (g_resting g)" using draw_index [OF d _ resting_bound [OF v l]] ne by simp
  obtain sy i where r: "g_resting g ! ?k = (sy, i)" by fastforce
  let ?x = "Order_new i sy BUY CANCEL 0 1 (of_nat (length os))"
  let ?g = "(snd ?D)\<lparr>g_resting := butlast ((g_resting g)[?k := last (g_resting g)])\<rparr>"
  have "makeCancel d (of_nat (length os)) g = Some (Some ?x, ?g)"
    using ne k r by (simp add: makeCancel_def Let_def case_prod_beta)
  moreover have "generator_inv syms (os @ [?x]) ?g" by (rule inv_cancel [OF v k r]) simp_all
  ultimately show ?thesis by blast
qed

section \<open>The steps of \<^verbatim>\<open>generate\<close>\<close>

lemma pick_symbol_in:
  assumes "lawful_draws d" and "syms \<noteq> []" and "length syms < 2 ^ 64"
  shows "\<exists>sy g'. pick_symbol d syms g = Some (sy, g') \<and> sy \<in> set syms \<and> g_counter g' = g_counter g \<and> g_resting g' = g_resting g"
  using draw_index [OF assms(1) _ assms(3), of g] assms(2) by (simp add: pick_symbol_def Let_def case_prod_beta)

lemma inv_drawn: "generator_inv syms os g \<Longrightarrow> g_counter g' = g_counter g \<Longrightarrow> g_resting g' = g_resting g \<Longrightarrow> generator_inv syms os g'"
  by (simp add: generator_inv_def)

lemma main_order_step:
  assumes d: "lawful_draws d" and ss: "syms \<noteq> []" "length syms < 2 ^ 64"
    and v: "generator_inv syms os g" and l: "Suc (length os) < 2 ^ 64"
  shows "\<exists>x g'. main_order d syms t (of_nat (length os)) g = Some (x, g') \<and> generator_inv syms (os @ [x]) g'"
proof -
  let ?ts = "of_nat (length os) :: u64"
  from pick_symbol_in [OF d ss, of g] obtain sy g1
    where p: "pick_symbol d syms g = Some (sy, g1)" and sy: "sy \<in> set syms"
      and g1: "g_counter g1 = g_counter g" "g_resting g1 = g_resting g" by blast
  let ?D = "drawn (draw_real d (Finite 0) (Finite 1)) g1"
  let ?r = "fst ?D" and ?g = "snd ?D"
  have v2: "generator_inv syms os ?g" by (rule inv_drawn [OF v]) (simp_all add: g1)
  note emit = inv_emit [OF v2 _ l]
  from makeLimit_emits [OF d sy, of ?ts ?g] obtain x g2 where lim: "makeLimit d sy ?ts ?g = Some (x, g2)"
    "emits syms ?ts x ?g g2" "otype x = LIMIT" "osymbol x = sy" by blast
  note lim_inv = emit(1) [OF lim(2)] emit(2) [OF lim(2) lim(3)]
  note step = main_order_def p Let_def case_prod_beta
  consider (limit) "dbl_less ?r (t_limit t)"
    | (market) "\<not> dbl_less ?r (t_limit t)" "dbl_less ?r (t_market t)"
    | (cancel) "\<not> dbl_less ?r (t_limit t)" "\<not> dbl_less ?r (t_market t)" "dbl_less ?r (t_cancel t)"
    | (ioc) "\<not> dbl_less ?r (t_limit t)" "\<not> dbl_less ?r (t_market t)" "\<not> dbl_less ?r (t_cancel t)" "dbl_less ?r (t_ioc t)"
    | (fok) "\<not> dbl_less ?r (t_limit t)" "\<not> dbl_less ?r (t_market t)" "\<not> dbl_less ?r (t_cancel t)" "\<not> dbl_less ?r (t_ioc t)"
        "dbl_less ?r (t_fok t)"
    | (invalid) "\<not> dbl_less ?r (t_limit t)" "\<not> dbl_less ?r (t_market t)" "\<not> dbl_less ?r (t_cancel t)" "\<not> dbl_less ?r (t_ioc t)"
        "\<not> dbl_less ?r (t_fok t)"
    by blast
  then show ?thesis
  proof cases
    case limit
    then show ?thesis using lim lim_inv by (simp add: step)
  next
    case market
    then show ?thesis
      using emit(1) [OF makeMarket_emits [OF d sy, of ?ts ?g]]
      by (intro exI [of _ "fst (makeMarket d sy ?ts ?g)"] exI [of _ "snd (makeMarket d sy ?ts ?g)"]) (simp add: step)
  next
    case cancel
    show ?thesis
    proof (cases "g_resting ?g = []")
      case True
      then show ?thesis using cancel lim lim_inv makeCancel_nothing [OF True, of d ?ts] by (simp add: step)
    next
      case False
      from makeCancel_step [OF d v2 Suc_lessD [OF l] False] cancel show ?thesis by (auto simp: step)
    qed
  next
    case ioc
    from make_aggressive_emits [OF d sy, where f = 3 and mq = 150 and ty = IOC and ts = ?ts and g = ?g]
    obtain y g3 where "makeIoc d sy ?ts ?g = Some (y, g3)" "emits syms ?ts y ?g g3" unfolding makeIoc_def by auto
    with ioc emit(1) show ?thesis by (auto simp: step)
  next
    case fok
    from make_aggressive_emits [OF d sy, where f = 2 and mq = 80 and ty = FOK and ts = ?ts and g = ?g]
    obtain y g3 where "makeFok d sy ?ts ?g = Some (y, g3)" "emits syms ?ts y ?g g3" unfolding makeFok_def by auto
    with fok emit(1) show ?thesis by (auto simp: step)
  next
    case invalid
    from makeInvalid_emits [OF sy, of d ?ts ?g]
    obtain y g3 where "makeInvalid d sy ?ts ?g = Some (y, g3)" "emits syms ?ts y ?g g3" by auto
    with invalid emit(1) show ?thesis by (auto simp: step)
  qed
qed

lemma stamps_Suc: "[length os..<length os + Suc n] = length os # [length (os @ [x])..<length (os @ [x]) + n]"
  by (subst upt_conv_Cons) simp_all

lemma seed_orders_steps:
  assumes d: "lawful_draws d" and ss: "syms \<noteq> []" "length syms < 2 ^ 64"
  shows "generator_inv syms os g \<Longrightarrow> length os + n < 2 ^ 64 \<Longrightarrow>
    \<exists>xs g'. seed_orders d syms (map of_nat [length os..<length os + n]) g = Some (xs, g') \<and> length xs = n \<and>
      generator_inv syms (os @ xs) g'"
proof (induction n arbitrary: os g)
  case (Suc n)
  let ?ts = "of_nat (length os) :: u64"
  from pick_symbol_in [OF d ss, of g] obtain sy g1
    where p: "pick_symbol d syms g = Some (sy, g1)" and sy: "sy \<in> set syms"
      and g1: "g_counter g1 = g_counter g" "g_resting g1 = g_resting g" by blast
  from makeLimit_emits [OF d sy, of ?ts g1] obtain x g2 where x: "makeLimit d sy ?ts g1 = Some (x, g2)"
    "emits syms ?ts x g1 g2" "otype x = LIMIT" "osymbol x = sy" by blast
  have "generator_inv syms (os @ [x]) (track sy (oid x) g2)"
    using inv_emit(2) [OF inv_drawn [OF Suc.prems(1) g1] x(2) _ x(3)] Suc.prems(2) x(4) by simp
  moreover have "length (os @ [x]) + n < 2 ^ 64" using Suc.prems(2) by simp
  moreover define ks where "ks = [length (os @ [x])..<length (os @ [x]) + n]"
  ultimately obtain xs g' where
    "seed_orders d syms (map of_nat ks) (track sy (oid x) g2) = Some (xs, g')"
    "length xs = n" "generator_inv syms ((os @ [x]) @ xs) g'" using Suc.IH by blast
  then show ?case unfolding stamps_Suc [of os n x] ks_def [symmetric] using p x(1) by auto
qed auto

lemma main_orders_steps:
  assumes d: "lawful_draws d" and ss: "syms \<noteq> []" "length syms < 2 ^ 64"
  shows "generator_inv syms os g \<Longrightarrow> length os + n < 2 ^ 64 \<Longrightarrow>
    \<exists>xs g'. main_orders d syms t (map of_nat [length os..<length os + n]) g = Some (xs, g') \<and> length xs = n \<and>
      generator_inv syms (os @ xs) g'"
proof (induction n arbitrary: os g)
  case (Suc n)
  from main_order_step [OF d ss Suc.prems(1), of t] Suc.prems(2) obtain x g2
    where x: "main_order d syms t (of_nat (length os)) g = Some (x, g2)" "generator_inv syms (os @ [x]) g2" by auto
  moreover have "length (os @ [x]) + n < 2 ^ 64" using Suc.prems(2) by simp
  moreover define ks where "ks = [length (os @ [x])..<length (os @ [x]) + n]"
  ultimately obtain xs g' where
    "main_orders d syms t (map of_nat ks) g2 = Some (xs, g')"
    "length xs = n" "generator_inv syms ((os @ [x]) @ xs) g'" using Suc.IH by blast
  then show ?case unfolding stamps_Suc [of os n x] ks_def [symmetric] using x(1) by auto
qed auto

lemma generate_stream:
  assumes d: "lawful_draws d" and ss: "gc_symbols cfg \<noteq> []" "length (gc_symbols cfg) < 2 ^ 64"
  shows "\<exists>os g. generate d cfg (OrderGenerator_new d cfg) = Some (os, g) \<and> length os = unat (gc_count cfg) \<and>
    generated_stream (gc_symbols cfg) os"
proof -
  let ?k = "seed_count (gc_count cfg)" and ?n = "unat (gc_count cfg)" and ?sy = "gc_symbols cfg"
  have k: "?k \<le> ?n" by (simp add: seed_count_def)
  have n: "?n < 2 ^ 64" using unsigned_less [of "gc_count cfg", where ?'a = nat] by simp
  from seed_orders_steps [OF d ss, of "[]" "OrderGenerator_new d cfg" ?k] k n obtain xs g1 where
    xs: "seed_orders d ?sy (map of_nat [0..<?k]) (OrderGenerator_new d cfg) = Some (xs, g1)" "length xs = ?k"
      "generator_inv ?sy xs g1" by (auto simp: stream_nil)
  from main_orders_steps [OF d ss xs(3), of "?n - ?k" "type_thresholds cfg"] k n xs(2) obtain ys g2 where
    ys: "main_orders d ?sy (type_thresholds cfg) (map of_nat [?k..<?n]) g1 = Some (ys, g2)" "length ys = ?n - ?k"
      "generator_inv ?sy (xs @ ys) g2" by auto
  show ?thesis using xs ys k by (intro exI [of _ "xs @ ys"]) (simp add: generate_def generator_inv_def)
qed

end
