(* ===== verification/Benchmark_Runner.thy ===== *)
theory Benchmark_Runner
  imports Interactive Latency_Stats Invariant_Checker Command_Line "HOL-Library.Signed_Division"
begin

text \<open>
  The single-threaded core of \<^verbatim>\<open>src/benchmark/BenchmarkRunner.cpp\<close>: submit every order with the clock read
  around it, account for the result, then audit books, trades and ids.  The orders are
  objects the generator has created; the resident set size the operating system reports is a parameter.
\<close>

record BenchmarkResult =
  br_submitted :: u64
  br_accepted :: u64
  br_rejected :: u64
  br_cancels :: u64
  br_trades :: u64
  br_latency :: Stats
  br_memoryKB :: u64
  br_invariants :: Report
  br_mode :: BenchmarkMode

definition BenchmarkResult_new :: BenchmarkResult where
  "BenchmarkResult_new =
     \<lparr>br_submitted = 0, br_accepted = 0, br_rejected = 0, br_cancels = 0, br_trades = 0,
      br_latency = Stats_zero, br_memoryKB = 0, br_invariants = \<lparr>rep_passed = False, rep_violations = []\<rparr>,
      br_mode = Baseline\<rparr>"

text \<open>The fields the constructor leaves indeterminate (latency, audit) are given a value; every run sets them.
  Then the local variables of a run.\<close>

record bench_run =
  bn_engine :: MatchingEngine
  bn_world :: world
  bn_timer :: LatencyTimer
  bn_result :: BenchmarkResult
  bn_trades :: "Trade list"
  bn_ids :: "OrderId list"

definition bench_account :: "EngineResult \<Rightarrow> BenchmarkResult \<Rightarrow> BenchmarkResult" where
  "bench_account res b =
     (if rstatus res = REJECTED then b\<lparr>br_rejected := br_rejected b + 1\<rparr>
      else if rstatus res = CANCELLED
      then b\<lparr>br_cancels := br_cancels b + 1, br_accepted := br_accepted b + 1\<rparr>
      else b\<lparr>br_accepted := br_accepted b + 1\<rparr>)\<lparr>br_trades := br_trades b + of_nat (length (rtrades res))\<rparr>"

definition bench_submit :: "OrderRef \<Rightarrow> bench_run \<Rightarrow> bench_run option" where
  "bench_submit r s =
     (let (tm1, w1) = timer_start (bn_timer s) (bn_world s)
      in case submitOrder r (bn_engine s) w1 of
           None \<Rightarrow> None
         | Some (res, e', w2) \<Rightarrow>
             (let (tm2, w3) = timer_stop tm1 w2
              in Some \<lparr>bn_engine = e', bn_world = w3, bn_timer = tm2,
                       bn_result = bench_account res (bn_result s),
                       bn_trades = bn_trades s @ rtrades res,
                       bn_ids = (if rstatus res = REJECTED \<or> rstatus res = CANCELLED then bn_ids s
                                 else bn_ids s @ [oid (heap w3 r)])\<rparr>))"

fun bench_loop :: "OrderRef list \<Rightarrow> bench_run \<Rightarrow> bench_run option" where
  "bench_loop [] s = Some s"
| "bench_loop (r # rs) s = (case bench_submit r s of None \<Rightarrow> None | Some s' \<Rightarrow> bench_loop rs s')"

definition bench_init :: "BenchmarkConfig \<Rightarrow> nat \<Rightarrow> world \<Rightarrow> bench_run" where
  "bench_init cfg n w =
     \<lparr>bn_engine = fold registerSymbol (bc_symbols cfg) MatchingEngine_new, bn_world = w,
      bn_timer = LatencyTimer_new, bn_result = BenchmarkResult_new\<lparr>br_submitted := of_nat n\<rparr>,
      bn_trades = [], bn_ids = []\<rparr>"

text \<open>
  The resident set size from \<^verbatim>\<open>getrusage\<close>, \<open>None\<close> where the call fails; the field counts bytes on Apple systems
  and kilobytes elsewhere, and the division truncates towards zero.
\<close>

definition currentRssKB :: "bool \<Rightarrow> i64 option \<Rightarrow> u64" where
  "currentRssKB apple usage =
     (case usage of
        None \<Rightarrow> 0
      | Some maxrss \<Rightarrow> of_int (if apple then i64_val maxrss sdiv 1024 else i64_val maxrss))"

definition finalise :: "u64 \<Rightarrow> BenchmarkConfig \<Rightarrow> bench_run \<Rightarrow> BenchmarkResult" where
  "finalise rss cfg s =
     (bn_result s)\<lparr>br_memoryKB := rss, br_invariants :=
       (if bc_verify cfg
        then merge_reports
               (map (checkBook (heap (bn_world s)))
                  (concat (map (\<lambda>sy. case engine_book sy (bn_engine s) of None \<Rightarrow> [] | Some b \<Rightarrow> [b]) (bc_symbols cfg))) @
                [checkTrades (bn_trades s) [], checkUniqueIds (bn_ids s)])
        else Report_ok)\<rparr>"

definition bench_result :: "u64 \<Rightarrow> BenchmarkConfig \<Rightarrow> u64 \<Rightarrow> bench_run \<Rightarrow> BenchmarkResult option" where
  "bench_result rss cfg wallNs s =
     (case timer_compute wallNs (bn_timer s) of
        None \<Rightarrow> None
      | Some lat \<Rightarrow> Some (finalise rss cfg (s\<lparr>bn_result := (bn_result s)\<lparr>br_latency := lat\<rparr>\<rparr>)))"

definition runBaseline :: "u64 \<Rightarrow> BenchmarkConfig \<Rightarrow> OrderRef list \<Rightarrow> world \<Rightarrow> (BenchmarkResult \<times> world) option" where
  "runBaseline rss cfg ords w =
     (let (wallStart, w1) = nowNs w
      in case bench_loop ords (bench_init cfg (length ords) w1) of
           None \<Rightarrow> None
         | Some s \<Rightarrow>
             (let (wallEnd, w2) = nowNs (bn_world s); s' = s\<lparr>bn_world := w2\<rparr>
              in map_option (\<lambda>b. (b, w2)) (bench_result rss cfg (wallEnd - wallStart) s')))"

lemma bench_loop_append:
  "bench_loop (rs @ rs') s = (case bench_loop rs s of None \<Rightarrow> None | Some s' \<Rightarrow> bench_loop rs' s')"
  by (induction rs arbitrary: s) (simp_all split: option.split)

section \<open>A run is a run of the engine\<close>

text \<open>What is known after the orders at the addresses below \<open>k\<close> have been submitted by the run \<open>tr\<close>.\<close>

definition bench_ok :: "nat \<Rightarrow> (event \<times> EngineResult option) list \<Rightarrow> bench_run \<Rightarrow> bench_run \<Rightarrow> bool" where
  "bench_ok k tr s0 s \<longleftrightarrow>
     engine_run (bn_engine s0, bn_world s0) tr (bn_engine s, bn_world s) \<and>
     engine_inv (bn_engine s) (bn_world s) \<and> engine_refs (bn_engine s) \<subseteq> {..<k} \<and>
     bn_trades s = bn_trades s0 @ run_trades tr \<and>
     (\<forall>x. oquantity (heap (bn_world s) x) = oquantity (heap (bn_world s0) x) \<and>
          oid (heap (bn_world s) x) = oid (heap (bn_world s0) x))"

lemma bench_submit_eq:
  assumes "submitOrder r (bn_engine s) (snd (nowNs (bn_world s))) = Some (res, e', w2)"
  shows "bench_submit r s = Some
    \<lparr>bn_engine = e', bn_world = snd (nowNs w2),
     bn_timer = \<lparr>timer_t0 = fst (nowNs (bn_world s)),
       timer_samples = timer_samples (bn_timer s) @ [fst (nowNs w2) - fst (nowNs (bn_world s))]\<rparr>,
     bn_result = bench_account res (bn_result s), bn_trades = bn_trades s @ rtrades res,
     bn_ids = (if rstatus res = REJECTED \<or> rstatus res = CANCELLED then bn_ids s
               else bn_ids s @ [oid (heap (snd (nowNs w2)) r)])\<rparr>"
proof -
  let ?tm = "(bn_timer s)\<lparr>timer_t0 := fst (nowNs (bn_world s))\<rparr>"
  have t1: "timer_start (bn_timer s) (bn_world s) = (?tm, snd (nowNs (bn_world s)))"
    by (simp add: timer_start_def case_prod_beta)
  have t2: "timer_stop ?tm w2 = (\<lparr>timer_t0 = fst (nowNs (bn_world s)),
       timer_samples = timer_samples (bn_timer s) @ [fst (nowNs w2) - fst (nowNs (bn_world s))]\<rparr>, snd (nowNs w2))"
    by (simp add: timer_stop_def case_prod_beta)
  show ?thesis unfolding bench_submit_def Let_def t1 prod.case assms option.case t2 ..
qed

lemma bench_submit_run:
  assumes inv: "engine_inv (bn_engine s) (bn_world s)" and refs: "engine_refs (bn_engine s) \<subseteq> {..<k}"
    and total: "quantity_upto (Suc k) (bn_world s) < 2 ^ 64"
  shows "\<exists>s' res. bench_submit k s = Some s' \<and>
    bench_ok (Suc k) [(Read_Clock, None), (Submit k, Some res), (Read_Clock, None)] s s' \<and>
    bn_result s' = bench_account res (bn_result s) \<and>
    length (timer_samples (bn_timer s')) = Suc (length (timer_samples (bn_timer s))) \<and>
    bn_ids s' = (if rstatus res = REJECTED \<or> rstatus res = CANCELLED then bn_ids s
                 else bn_ids s @ [oid (heap (bn_world s) k)])"
proof -
  let ?e = "bn_engine s" and ?w = "snd (nowNs (bn_world s))"
  from timed_submit [OF inv refs total] obtain res e' w2 where
    sub: "submitOrder k ?e ?w = Some (res, e', w2)" "engine_inv e' (snd (nowNs w2))" "engine_refs e' \<subseteq> {..<Suc k}"
      "\<forall>x. oquantity (heap w2 x) = oquantity (heap (bn_world s) x) \<and> oid (heap w2 x) = oid (heap (bn_world s) x)"
      "engine_run (?e, bn_world s) [(Read_Clock, None), (Submit k, Some res), (Read_Clock, None)] (e', snd (nowNs w2))"
    by blast
  let ?w3 = "snd (nowNs w2)"
  let ?tm = "\<lparr>timer_t0 = fst (nowNs (bn_world s)), timer_samples = timer_samples (bn_timer s) @ [fst (nowNs w2) - fst (nowNs (bn_world s))]\<rparr>"
  let ?s = "\<lparr>bn_engine = e', bn_world = ?w3, bn_timer = ?tm, bn_result = bench_account res (bn_result s),
    bn_trades = bn_trades s @ rtrades res,
    bn_ids = (if rstatus res = REJECTED \<or> rstatus res = CANCELLED then bn_ids s else bn_ids s @ [oid (heap ?w3 k)])\<rparr>"
  have "bench_submit k s = Some ?s" by (rule bench_submit_eq [OF sub(1)])
  moreover have "bench_ok (Suc k) [(Read_Clock, None), (Submit k, Some res), (Read_Clock, None)] s ?s"
    using sub(2-5) by (simp add: bench_ok_def world_simps)
  moreover have "oid (heap ?w3 k) = oid (heap (bn_world s) k)" using sub(4) by (simp add: world_simps)
  ultimately show ?thesis by (intro exI [of _ ?s] exI [of _ res]) simp
qed

section \<open>The whole loop\<close>

lemma bench_ok_trans:
  assumes "bench_ok k tr s0 s1" and "bench_ok n tr' s1 s2"
  shows "bench_ok n (tr @ tr') s0 s2"
  using assms run_trans [of "(bn_engine s0, bn_world s0)" tr "(bn_engine s1, bn_world s1)" tr' "(bn_engine s2, bn_world s2)"]
  by (simp add: bench_ok_def run_trades_def)

text \<open>An id is recorded as accepted once, when the validator has recorded it for good.\<close>

definition ids_ok :: "bench_run \<Rightarrow> bool" where
  "ids_ok s \<longleftrightarrow> distinct (bn_ids s) \<and> set (bn_ids s) \<subseteq> usedIds (validator (bn_engine s))"

lemma accepted_new_id:
  assumes inv: "engine_inv e w" and fits: "engine_fits r e w" and s: "submitOrder r e w = Some (res, e', w')"
    and st: "rstatus res \<noteq> REJECTED" "rstatus res \<noteq> CANCELLED"
  shows "oid (heap w r) \<notin> usedIds (validator e)"
    and "usedIds (validator e') = insert (oid (heap w r)) (usedIds (validator e))"
proof -
  have ty: "otype (heap w r) \<noteq> CANCEL"
  proof
    assume "otype (heap w r) = CANCEL"
    from submit_cancel [OF this, of e] s have
      "res = fst (engine_cancelOrder (osymbol (heap w r)) (oid (heap w r)) (e\<lparr>ordersProcessed := ordersProcessed e + 1\<rparr>) w)"
      by (auto split: prod.splits)
    with st show False by (auto simp: engine_cancelOrder_def Let_def split: option.splits prod.splits if_splits)
  qed
  have ok: "acceptable_order (heap w r) (validator e)"
  proof (rule ccontr)
    assume "\<not> acceptable_order (heap w r) (validator e)"
    from submit_rejected [OF ty this] s st show False by simp
  qed
  then show "oid (heap w r) \<notin> usedIds (validator e)" by (simp add: acceptable_order_def)
  from submit_executed [OF inv fits ty ok] s obtain b b' where "executed r e w res e' w' b b'" by auto
  then show "usedIds (validator e') = insert (oid (heap w r)) (usedIds (validator e))" by (rule executed_used)
qed

lemma bench_submit_ids:
  assumes ok: "ids_ok s" and inv: "engine_inv (bn_engine s) (bn_world s)"
    and bk: "bench_ok k [(Read_Clock, None), (Submit r, Some res), (Read_Clock, None)] s s'"
    and ids: "bn_ids s' = (if rstatus res = REJECTED \<or> rstatus res = CANCELLED then bn_ids s
                 else bn_ids s @ [oid (heap (bn_world s) r)])"
  shows "ids_ok s'"
proof -
  have run: "engine_run (bn_engine s, bn_world s) [(Read_Clock, None), (Submit r, Some res), (Read_Clock, None)]
      (bn_engine s', bn_world s')" using bk by (simp add: bench_ok_def)
  have mono: "usedIds (validator (bn_engine s)) \<subseteq> usedIds (validator (bn_engine s'))"
    using run_used [OF run] inv by simp
  show ?thesis
  proof (cases "rstatus res = REJECTED \<or> rstatus res = CANCELLED")
    case True
    then show ?thesis using ok mono ids by (auto simp: ids_ok_def)
  next
    case False
    from run obtain e2 w2 w3 where
      c: "engine_step (bn_engine s, bn_world s) Read_Clock None (bn_engine s, w2)" "w2 = snd (nowNs (bn_world s))"
      and st: "engine_step (bn_engine s, w2) (Submit r) (Some res) (e2, w3)"
      and c2: "bn_engine s' = e2"
      by (auto elim!: run_consE run_nilE step_clockE simp: step_clock)
    from st have f: "engine_fits r (bn_engine s) w2" "submitOrder r (bn_engine s) w2 = Some (res, e2, w3)"
      by (auto elim: step_submitE)
    have inv2: "engine_inv (bn_engine s) w2" using inv c(2) by (simp add: engine_inv_clock)
    have "heap w2 = heap (bn_world s)" using c(2) by (simp add: world_simps)
    with accepted_new_id [OF inv2 f] False ok mono ids c2 show ?thesis by (auto simp: ids_ok_def)
  qed
qed

lemma bench_account_sums:
  "br_accepted (bench_account res b) + br_rejected (bench_account res b) = br_accepted b + br_rejected b + 1"
  "br_trades (bench_account res b) = br_trades b + of_nat (length (rtrades res))"
  "br_submitted (bench_account res b) = br_submitted b"
  by (simp_all add: bench_account_def)

lemma bench_loop_run:
  assumes "engine_inv (bn_engine s) (bn_world s)" and "engine_refs (bn_engine s) \<subseteq> {..<k}" and "ids_ok s"
    and "quantity_upto (k + n) (bn_world s) < 2 ^ 64"
  shows "\<exists>s' tr. bench_loop [k..<k + n] s = Some s' \<and> bench_ok (k + n) tr s s' \<and> ids_ok s' \<and>
    constructs tr = [] \<and> submits tr = [k..<k + n] \<and>
    length (timer_samples (bn_timer s')) = length (timer_samples (bn_timer s)) + n \<and>
    br_accepted (bn_result s') + br_rejected (bn_result s') = br_accepted (bn_result s) + br_rejected (bn_result s) + of_nat n \<and>
    br_trades (bn_result s') = br_trades (bn_result s) + of_nat (length (run_trades tr)) \<and>
    br_submitted (bn_result s') = br_submitted (bn_result s)"
  using assms
proof (induction n arbitrary: k s)
  case 0
  then show ?case by (auto simp: bench_ok_def intro!: exI [of _ "[]"] run_nil)
next
  case (Suc n)
  have "quantity_upto (Suc k) (bn_world s) < 2 ^ 64"
    using quantity_upto_mono [of "Suc k" "k + Suc n" "bn_world s"] Suc.prems(4) by simp
  from bench_submit_run [OF Suc.prems(1,2) this] obtain s1 res where
    s1: "bench_submit k s = Some s1"
      "bench_ok (Suc k) [(Read_Clock, None), (Submit k, Some res), (Read_Clock, None)] s s1"
      "bn_result s1 = bench_account res (bn_result s)"
      "length (timer_samples (bn_timer s1)) = Suc (length (timer_samples (bn_timer s)))"
      "bn_ids s1 = (if rstatus res = REJECTED \<or> rstatus res = CANCELLED then bn_ids s
                    else bn_ids s @ [oid (heap (bn_world s) k)])"
    by (elim exE conjE) (rule that)
  have ok1: "engine_inv (bn_engine s1) (bn_world s1)" "engine_refs (bn_engine s1) \<subseteq> {..<Suc k}"
    using s1(2) by (simp_all add: bench_ok_def)
  have ids1: "ids_ok s1" by (rule bench_submit_ids [OF Suc.prems(3,1) s1(2,5)])
  have "\<forall>x. oquantity (heap (bn_world s1) x) = oquantity (heap (bn_world s) x)" using s1(2) by (simp add: bench_ok_def)
  then have "quantity_upto (Suc k + n) (bn_world s1) < 2 ^ 64"
    using Suc.prems(4) by (subst quantity_upto_cong) simp_all
  from Suc.IH [OF ok1 ids1 this] obtain s' tr where
    r: "bench_loop [Suc k..<Suc k + n] s1 = Some s'" "bench_ok (Suc k + n) tr s1 s'" "ids_ok s'"
      "constructs tr = []" "submits tr = [Suc k..<Suc k + n]"
      "length (timer_samples (bn_timer s')) = length (timer_samples (bn_timer s1)) + n"
      "br_accepted (bn_result s') + br_rejected (bn_result s') = br_accepted (bn_result s1) + br_rejected (bn_result s1) + of_nat n"
      "br_trades (bn_result s') = br_trades (bn_result s1) + of_nat (length (run_trades tr))"
      "br_submitted (bn_result s') = br_submitted (bn_result s1)"
    by (elim exE conjE) (rule that)
  have u: "[k..<k + Suc n] = k # [Suc k..<Suc k + n]" by (subst upt_conv_Cons) simp_all
  let ?tr = "[(Read_Clock, None), (Submit k, Some res), (Read_Clock, None)] @ tr"
  note c = bench_account_sums [of res "bn_result s"]
  have "bench_loop [k..<k + Suc n] s = Some s'" unfolding u using s1(1) r(1) by simp
  moreover have "bench_ok (k + Suc n) ?tr s s'" using bench_ok_trans [OF s1(2) r(2)] by simp
  moreover have "constructs ?tr = []" "submits ?tr = [k..<k + Suc n]" unfolding u using r(4,5) by simp_all
  moreover have "length (timer_samples (bn_timer s')) = length (timer_samples (bn_timer s)) + Suc n" using r(6) s1(4) by simp
  moreover have "br_accepted (bn_result s') + br_rejected (bn_result s')
      = br_accepted (bn_result s) + br_rejected (bn_result s) + of_nat (Suc n)"
    unfolding r(7) s1(3) c(1) by (simp add: ac_simps)
  moreover have "br_trades (bn_result s') = br_trades (bn_result s) + of_nat (length (run_trades ?tr))"
    unfolding r(8) s1(3) c(2) by (simp add: ac_simps)
  moreover have "br_submitted (bn_result s') = br_submitted (bn_result s)" unfolding r(9) s1(3) c(3) ..
  ultimately show ?case using r(3) by (intro exI [of _ s'] exI [of _ ?tr]) (intro conjI)
qed

lemma finalise_passes:
  assumes inv: "engine_inv (bn_engine s) (bn_world s)" and ids: "ids_ok s"
    and pos: "\<forall>t\<in>set (bn_trades s). 0 < tprice t \<and> 0 < tquantity t"
  shows "br_invariants (finalise rss cfg s) = Report_ok"
proof -
  let ?bs = "concat (map (\<lambda>sy. case engine_book sy (bn_engine s) of None \<Rightarrow> [] | Some b \<Rightarrow> [b]) (bc_symbols cfg))"
  have "checkBook (heap (bn_world s)) b = Report_ok" if "b \<in> set ?bs" for b
    using that engine_invD(1) [OF inv] by (auto simp: engine_book_def intro!: checkBook_passes split: option.splits)
  then have b: "map (checkBook (heap (bn_world s))) ?bs = replicate (length ?bs) Report_ok"
    by (intro replicate_eqI) auto
  have "distinct (bn_ids s)" using ids by (simp add: ids_ok_def)
  then have u: "checkUniqueIds (bn_ids s) = Report_ok"
    using unique_ids_loop_ok [of "bn_ids s" "{}" Report_ok] by (simp add: checkUniqueIds_def)
  show ?thesis
    unfolding finalise_def b u checkTrades_passes [OF pos]
    by (simp add: merge_reports_eq Report_ok_def)
qed

section \<open>The baseline run\<close>

lemma run_trades_append: "run_trades (tr @ tr') = run_trades tr @ run_trades tr'"
  by (simp add: run_trades_def)

lemma finalise_fields:
  "br_submitted (finalise rss cfg s) = br_submitted (bn_result s)" "br_accepted (finalise rss cfg s) = br_accepted (bn_result s)"
  "br_rejected (finalise rss cfg s) = br_rejected (bn_result s)" "br_trades (finalise rss cfg s) = br_trades (bn_result s)"
  by (simp_all add: finalise_def)

lemma baseline_runs:
  assumes w: "fresh_world w" and total: "quantity_upto n w < 2 ^ 64" and n: "n \<le> 2 ^ 31"
  shows "\<exists>res w' tr s. runBaseline rss cfg [0..<n] w = Some (res, w') \<and>
    bench_loop [0..<n] (bench_init cfg n (snd (nowNs w))) = Some s \<and>
    engine_run (MatchingEngine_new, w) tr (bn_engine s, bn_world s) \<and>
    constructs tr = [] \<and> submits tr = [0..<n] \<and> br_submitted res = of_nat n \<and>
    br_accepted res + br_rejected res = br_submitted res \<and>
    br_trades res = of_nat (length (run_trades tr)) \<and> br_invariants res = Report_ok"
proof -
  let ?w1 = "snd (nowNs w)" and ?e = "fold registerSymbol (bc_symbols cfg) MatchingEngine_new"
  let ?s0 = "bench_init cfg n ?w1"
  have w1: "fresh_world ?w1" using w by (simp add: fresh_world_def world_simps)
  note start = registered_start(2,3) [OF w1, of "bc_symbols cfg"]
  have s0: "engine_inv (bn_engine ?s0) (bn_world ?s0)" "engine_refs (bn_engine ?s0) \<subseteq> {..<0}" "ids_ok ?s0"
    "quantity_upto (0 + n) (bn_world ?s0) < 2 ^ 64"
    using start total by (simp_all add: bench_init_def ids_ok_def quantity_upto_def world_simps)
  from bench_loop_run [OF s0] obtain s tr where
    r: "bench_loop [0..<n] ?s0 = Some s" "bench_ok n tr ?s0 s" "ids_ok s" "constructs tr = []" "submits tr = [0..<n]"
      "length (timer_samples (bn_timer s)) = n" "br_accepted (bn_result s) + br_rejected (bn_result s) = of_nat n"
      "br_trades (bn_result s) = of_nat (length (run_trades tr))" "br_submitted (bn_result s) = of_nat n"
    by (auto simp: bench_init_def BenchmarkResult_new_def LatencyTimer_new_def)
  from r(2) have run: "engine_run (?e, ?w1) tr (bn_engine s, bn_world s)" and inv: "engine_inv (bn_engine s) (bn_world s)"
    and ts: "bn_trades s = run_trades tr" by (simp_all add: bench_ok_def bench_init_def)
  let ?w2 = "snd (nowNs (bn_world s))" and ?ns = "fst (nowNs (bn_world s)) - fst (nowNs w)"
  obtain lat where lat: "timer_compute ?ns (bn_timer s) = Some lat"
    using compute_defined [of "bn_timer s"] r(6) n by auto
  let ?s = "s\<lparr>bn_world := ?w2, bn_result := (bn_result s)\<lparr>br_latency := lat\<rparr>\<rparr>"
  have base: "runBaseline rss cfg [0..<n] w = Some (finalise rss cfg ?s, ?w2)"
    using r(1) lat by (simp add: runBaseline_def bench_result_def case_prod_beta Let_def)
  have "\<forall>t\<in>set (bn_trades s). 0 < tprice t \<and> 0 < tquantity t"
    using run_trades_positive [OF run] start(1) ts by auto
  then have ok: "br_invariants (finalise rss cfg ?s) = Report_ok"
    using inv r(3) by (intro finalise_passes) (simp_all add: engine_inv_clock ids_ok_def)
  from register_run [of MatchingEngine_new ?w1 "bc_symbols cfg"] obtain tr0 where
    r0: "engine_run (MatchingEngine_new, ?w1) tr0 (?e, ?w1)" "constructs tr0 = []" "submits tr0 = []" "run_trades tr0 = []" by blast
  have "engine_run (MatchingEngine_new, w) ((Read_Clock, None) # tr0 @ tr) (bn_engine s, bn_world s)"
    using run_trans [OF r0(1) run] by (intro run_step [OF step_clock])
  with base ok r r0 show ?thesis
    by (intro exI [of _ "finalise rss cfg ?s"] exI [of _ ?w2] exI [of _ "(Read_Clock, None) # tr0 @ tr"]
        exI [of _ s])
      (simp add: finalise_fields constructs_append submits_append run_trades_append)
qed

end
