(* ===== verification/Pool_Run.thy ===== *)
theory Pool_Run
  imports Benchmark_Runner Engine_Spec Memory_Pool
begin

text \<open>
  The pool mode of \<^verbatim>\<open>src/benchmark/BenchmarkRunner.cpp\<close> (\<^verbatim>\<open>runPool\<close>): every order is copied into a slot of
  a memory pool, the copy is submitted, and its slot goes back to the pool when the last
  \<^verbatim>\<open>shared_ptr\<close> to it is dropped.  A slot holds the address of the copy that lives in it; copies
  live at fresh addresses of the heap.  A book drops its reference when an order is filled or cancelled,
  the loop drops its own at the end of the iteration.
\<close>

section \<open>References and slots\<close>

definition refs_of :: "MatchingEngine \<Rightarrow> Symbol \<Rightarrow> OrderRef list" where
  "refs_of e s = (case books e s of None \<Rightarrow> [] | Some b \<Rightarrow> book_refs b)"

text \<open>The orders nobody refers to any more after a submission of \<open>r\<close>, in the order in which they go.\<close>

definition dropped :: "OrderRef \<Rightarrow> Symbol \<Rightarrow> MatchingEngine \<Rightarrow> MatchingEngine \<Rightarrow> OrderRef list" where
  "dropped r s e e' =
     filter (\<lambda>x. x \<notin> set (refs_of e' s)) (refs_of e s) @ (if r \<in> set (refs_of e' s) then [] else [r])"

record pool_run =
  pr_run :: bench_run
  pr_pool :: "OrderRef pool"
  pr_slot :: "OrderRef \<Rightarrow> nat"
  pr_next :: OrderRef

definition pool_body :: "OrderRef \<Rightarrow> pool_run \<Rightarrow> (pool_error + pool_run) option" where
  "pool_body src s =
     (let w = bn_world (pr_run s); x = heap w src; r = pr_next s
      in case pool_alloc (Some r) (pr_pool s) of
           (Inl err, P) \<Rightarrow> Some (Inl err)
         | (Inr raw, P) \<Rightarrow>
             (let w1 = upd_order r (\<lambda>_. Order_new (oid x) (osymbol x) (oside x) (otype x) (oprice x) (oquantity x) (otimestamp x)) w;
                  slot = (pr_slot s)(r := raw)
              in case bench_submit r ((pr_run s)\<lparr>bn_world := w1\<rparr>) of
                   None \<Rightarrow> None
                 | Some run \<Rightarrow>
                     (case dealloc_all pool_delete (map slot (dropped r (osymbol x) (bn_engine (pr_run s)) (bn_engine run))) P of
                        None \<Rightarrow> None
                      | Some P' \<Rightarrow> Some (Inr \<lparr>pr_run = run, pr_pool = P', pr_slot = slot, pr_next = Suc r\<rparr>))))"

fun pool_loop :: "OrderRef list \<Rightarrow> pool_run \<Rightarrow> (pool_error + pool_run) option" where
  "pool_loop [] s = Some (Inr s)"
| "pool_loop (r # rs) s =
     (case pool_body r s of
        None \<Rightarrow> None
      | Some (Inl err) \<Rightarrow> Some (Inl err)
      | Some (Inr s') \<Rightarrow> pool_loop rs s')"

definition pool_start :: "BenchmarkConfig \<Rightarrow> nat \<Rightarrow> OrderRef \<Rightarrow> world \<Rightarrow> pool_run" where
  "pool_start cfg n base w =
     \<lparr>pr_run = bench_init cfg n w, pr_pool = pool_new (of_nat n + 1), pr_slot = (\<lambda>_. 0), pr_next = base\<rparr>"

text \<open>
  The result of the run, and the state its local variables are in when it is returned.  Then they are
  destroyed in the reverse order of their declaration: the pool before the engine, so an order that
  still rests is given back to a pool that is gone.
\<close>

definition runPool_result ::
  "u64 \<Rightarrow> BenchmarkConfig \<Rightarrow> OrderRef list \<Rightarrow> OrderRef \<Rightarrow> world \<Rightarrow> (pool_error + (BenchmarkResult \<times> pool_run)) option" where
  "runPool_result rss cfg ords base w =
     (let (wallStart, w1) = nowNs w
      in case pool_loop ords (pool_start cfg (length ords) base w1) of
           None \<Rightarrow> None
         | Some (Inl err) \<Rightarrow> Some (Inl err)
         | Some (Inr s) \<Rightarrow>
             (let (wallEnd, w2) = nowNs (bn_world (pr_run s)); run = (pr_run s)\<lparr>bn_world := w2\<rparr>
              in map_option (\<lambda>b. Inr (b, s\<lparr>pr_run := run\<rparr>)) (bench_result rss cfg (wallEnd - wallStart) run)))"

definition runPool ::
  "u64 \<Rightarrow> BenchmarkConfig \<Rightarrow> OrderRef list \<Rightarrow> OrderRef \<Rightarrow> world \<Rightarrow> (pool_error + (BenchmarkResult \<times> world)) option" where
  "runPool rss cfg ords base w =
     (case runPool_result rss cfg ords base w of
        None \<Rightarrow> None
      | Some (Inl err) \<Rightarrow> Some (Inl err)
      | Some (Inr (b, s)) \<Rightarrow>
          if concat (map (refs_of (bn_engine (pr_run s))) (bc_symbols cfg)) = []
          then Some (Inr (b, bn_world (pr_run s))) else None)"

section \<open>What a submission drops\<close>

lemma refs_of_iff: "x \<in> set (refs_of e s) \<longleftrightarrow> (\<exists>b. books e s = Some b \<and> x \<in> set (book_refs b))"
  by (cases "books e s") (simp_all add: refs_of_def)

lemma refs_of_engine: "engine_refs e = (\<Union>s. set (refs_of e s))"
  unfolding engine_refs_def by (rule set_eqI) (simp add: refs_of_iff)

lemma submit_other_books:
  assumes "submitOrder r e w = Some (res, e', w')" and "s \<noteq> osymbol (heap w r)"
  shows "books e' s = books e s"
  using assms
  by (auto simp: submitOrder_def engine_cancelOrder_def Let_def split: if_splits option.splits prod.splits bind_splits)

lemma refs_symbol: "engine_inv e w \<Longrightarrow> x \<in> set (refs_of e s) \<Longrightarrow> osymbol (heap w x) = s"
  by (auto simp: refs_of_iff engine_invD(5))

lemma refs_of_distinct: "engine_inv e w \<Longrightarrow> distinct (refs_of e s)"
  by (auto simp: refs_of_def intro: book_wf_refs_distinct engine_invD(1) split: option.splits)

lemma submit_drops:
  assumes inv: "engine_inv e w" and fits: "engine_fits r e w" and s: "submitOrder r e w = Some (res, e', w')"
    and inv': "engine_inv e' w'" and fresh: "r \<notin> engine_refs e"
  shows "engine_refs e' = insert r (engine_refs e) - set (dropped r (osymbol (heap w r)) e e')"
    and "distinct (dropped r (osymbol (heap w r)) e e')"
    and "set (dropped r (osymbol (heap w r)) e e') \<subseteq> insert r (engine_refs e)"
proof -
  let ?s = "osymbol (heap w r)"
  have other: "refs_of e' s2 = refs_of e s2" if "s2 \<noteq> ?s" for s2
    using submit_other_books [OF s that] by (simp add: refs_of_def)
  have sub: "set (refs_of e' ?s) \<subseteq> insert r (set (refs_of e ?s))"
  proof
    fix x assume x: "x \<in> set (refs_of e' ?s)"
    then have "x \<in> insert r (engine_refs e)" using submit_static(1) [OF inv fits s] refs_of_engine [of e'] by auto
    moreover have "osymbol (heap w x) = ?s" using refs_symbol [OF inv' x] submit_static(4) [OF inv fits s] by simp
    ultimately show "x \<in> insert r (set (refs_of e ?s))"
      using refs_symbol [OF inv] by (auto simp: refs_of_engine)
  qed
  show "engine_refs e' = insert r (engine_refs e) - set (dropped r ?s e e')"
  proof (intro equalityI subsetI)
    fix x assume "x \<in> engine_refs e'"
    then obtain s2 where s2: "x \<in> set (refs_of e' s2)" by (auto simp: refs_of_engine)
    show "x \<in> insert r (engine_refs e) - set (dropped r ?s e e')"
    proof (cases "s2 = ?s")
      case True
      with s2 sub show ?thesis by (auto simp: dropped_def refs_of_engine)
    next
      case False
      with s2 other have x: "x \<in> set (refs_of e s2)" by simp
      then have "x \<noteq> r" "x \<notin> set (refs_of e ?s)"
        using fresh refs_symbol [OF inv x] False refs_symbol [OF inv, of x ?s] by (auto simp: refs_of_engine)
      with x show ?thesis by (auto simp: dropped_def refs_of_engine)
    qed
  next
    fix x assume x: "x \<in> insert r (engine_refs e) - set (dropped r ?s e e')"
    show "x \<in> engine_refs e'"
    proof (cases "x = r \<or> x \<in> set (refs_of e ?s)")
      case True
      with x have "x \<in> set (refs_of e' ?s)" by (auto simp: dropped_def split: if_splits)
      then show ?thesis by (auto simp: refs_of_engine)
    next
      case False
      with x obtain s2 where "x \<in> set (refs_of e s2)" "s2 \<noteq> ?s" by (auto simp: refs_of_engine)
      with other have "x \<in> set (refs_of e' s2)" by simp
      then show ?thesis by (auto simp: refs_of_engine)
    qed
  qed
  show "distinct (dropped r ?s e e')"
    using refs_of_distinct [OF inv] fresh by (auto simp: dropped_def refs_of_engine)
  show "set (dropped r ?s e e') \<subseteq> insert r (engine_refs e)"
    by (auto simp: dropped_def refs_of_engine)
qed

section \<open>The slots hold exactly the live copies\<close>

definition slots_ok :: "MatchingEngine \<Rightarrow> nat \<Rightarrow> (OrderRef \<Rightarrow> nat) \<Rightarrow> OrderRef pool \<Rightarrow> bool" where
  "slots_ok e c slot P \<longleftrightarrow>
     pool_wf P \<and> finite (engine_refs e) \<and> length (freelist P) + card (engine_refs e) = c \<and>
     (\<forall>x p. slots P p = Some x \<longleftrightarrow> x \<in> engine_refs e \<and> p = slot x)"

lemma slots_ok_step:
  assumes ok: "slots_ok e c slot P" and a: "pool_alloc (Some r) P = (Inr raw, P1)" and fresh: "r \<notin> engine_refs e"
    and refs: "engine_refs e' = insert r (engine_refs e) - set ds" and ds: "distinct ds" "set ds \<subseteq> insert r (engine_refs e)"
  shows "\<exists>P2. dealloc_all pool_delete (map (slot(r := raw)) ds) P1 = Some P2 \<and> slots_ok e' c (slot(r := raw)) P2"
proof -
  let ?slot = "slot(r := raw)" and ?L = "insert r (engine_refs e)"
  from ok have wf: "pool_wf P" and fin: "finite (engine_refs e)" and cnt: "length (freelist P) + card (engine_refs e) = c"
    and sl: "\<And>x p. slots P p = Some x \<longleftrightarrow> x \<in> engine_refs e \<and> p = slot x" by (auto simp: slots_ok_def)
  have "freelist P \<noteq> []" using a pool_alloc_empty [of P "Some r"] by auto
  with pool.alloc_fresh [OF wf, of r] a have
    p1: "slots P raw = None" "slots P1 = (slots P)(raw \<mapsto> r)" "length (freelist P1) = length (freelist P) - 1" "pool_wf P1"
    by (auto simp: pool_new_object_def)
  have raw: "slot x \<noteq> raw" if "x \<in> engine_refs e" for x using p1(1) sl [of "slot x" x] that by auto
  have sl1: "slots P1 p = Some x \<longleftrightarrow> x \<in> ?L \<and> p = ?slot x" for x p
    using sl [of p x] p1(1,2) raw fresh by (cases "x = r") (auto simp: fun_upd_apply)
  have inj: "inj_on ?slot ?L"
  proof (rule inj_onI)
    fix x y assume "x \<in> ?L" "y \<in> ?L" "?slot x = ?slot y"
    then have "slots P1 (?slot x) = Some x" "slots P1 (?slot x) = Some y" using sl1 by metis+
    then show "x = y" by simp
  qed
  have "distinct (map ?slot ds)" using ds(1) inj_on_subset [OF inj ds(2)] by (simp add: distinct_map)
  moreover have "set (map ?slot ds) \<subseteq> dom (slots P1)" using ds(2) sl1 by fastforce
  ultimately obtain P2 where
    p2: "dealloc_all pool_delete (map ?slot ds) P1 = Some P2" "pool_wf P2"
      "length (freelist P2) = length (freelist P1) + length (map ?slot ds)" "slots P2 = slots P1 |` (- set (map ?slot ds))"
    using pool.dealloc_all_ok [OF p1(4)] by blast
  have "slots P2 p = Some x \<longleftrightarrow> x \<in> engine_refs e' \<and> p = ?slot x" for x p
  proof -
    have "?slot x \<in> ?slot ` set ds \<longleftrightarrow> x \<in> set ds" if "x \<in> ?L"
      by (rule inj_on_image_mem_iff [OF inj that ds(2)])
    then show ?thesis using sl1 [of p x] unfolding p2(4) refs restrict_map_def by auto
  qed
  moreover have "length (freelist P2) + card (engine_refs e') = c"
  proof -
    have "card (engine_refs e') = card ?L - card (set ds)"
      unfolding refs using ds fin by (intro card_Diff_subset) auto
    moreover have "card ?L = Suc (card (engine_refs e))" using fin fresh by simp
    moreover have "length ds \<le> card ?L" using ds fin distinct_card [of ds] card_mono [of ?L "set ds"] by simp
    moreover obtain m where "length (freelist P) = Suc m" using \<open>freelist P \<noteq> []\<close> by (cases "freelist P") auto
    ultimately show ?thesis using p2(3) p1(3) cnt ds(1) distinct_card [of ds] by simp
  qed
  moreover have "finite (engine_refs e')" unfolding refs using fin by simp
  ultimately show ?thesis using p2(1,2) by (intro exI [of _ P2]) (simp only: slots_ok_def, blast)
qed


section \<open>Copies behave like the orders they are made from\<close>

lemma own_qty_abs: "rest_qty h (own_refs sd b) = open_qty (own_side sd (abs_book h b))"
  by (simp add: own_refs_def own_side_def abs_book_def open_qty_abs_side)

lemma fits_same_view:
  assumes "engine_fits r1 e1 w1" and "abs_engine (heap w1) e1 = abs_engine (heap w2) e2"
    and "same_order (heap w1 r1) (heap w2 r2)"
  shows "engine_fits r2 e2 w2"
proof -
  let ?s = "osymbol (heap w2 r2)"
  from assms(3) have o1: "osymbol (heap w1 r1) = ?s" "otype (heap w1 r1) = otype (heap w2 r2)"
    "oside (heap w1 r1) = oside (heap w2 r2)" "oquantity (heap w1 r1) = oquantity (heap w2 r2)"
    by (simp_all add: same_order_def)
  have "map_option (abs_book (heap w1)) (books e1 ?s) = map_option (abs_book (heap w2)) (books e2 ?s)"
    using assms(2) by (simp add: abs_engine_def fun_eq_iff)
  with assms(1) show ?thesis
    unfolding engine_fits_def o1 own_qty_abs by (cases "books e1 ?s"; cases "books e2 ?s") auto
qed

lemma abs_engine_upd:
  assumes "r \<notin> engine_refs e" shows "abs_engine (heap (upd_order r f w)) e = abs_engine (heap w) e"
proof -
  have "map_option (abs_book (heap (upd_order r f w))) (books e s) = map_option (abs_book (heap w)) (books e s)" for s
  proof (cases "books e s")
    case (Some b)
    have "abs_book (heap (upd_order r f w)) b = abs_book (heap w) b"
    proof (rule abs_book_cong)
      fix x assume "x \<in> set (book_refs b)"
      with Some have "x \<in> engine_refs e" by (auto simp: engine_refs_def)
      with assms show "heap (upd_order r f w) x = heap w x" by (auto simp: world_simps)
    qed
    with Some show ?thesis by simp
  qed simp
  then show ?thesis by (simp add: abs_engine_def)
qed

text \<open>
  The simulation, after \<open>k\<close> of \<open>n\<close> orders: the single-threaded run over the orders themselves and
  the run over their copies agree on everything but addresses.
\<close>

definition runs_agree :: "bench_run \<Rightarrow> bench_run \<Rightarrow> bool" where
  "runs_agree b p \<longleftrightarrow>
     abs_engine (heap (bn_world b)) (bn_engine b) = abs_engine (heap (bn_world p)) (bn_engine p) \<and>
     clock (bn_world b) = clock (bn_world p) \<and> ticks (bn_world b) = ticks (bn_world p) \<and>
     bn_timer b = bn_timer p \<and> bn_result b = bn_result p \<and> bn_trades b = bn_trades p \<and> bn_ids b = bn_ids p"

definition pool_sim :: "nat \<Rightarrow> nat \<Rightarrow> bench_run \<Rightarrow> pool_run \<Rightarrow> bool" where
  "pool_sim n k b s \<longleftrightarrow>
     runs_agree b (pr_run s) \<and>
     engine_inv (bn_engine b) (bn_world b) \<and> engine_refs (bn_engine b) \<subseteq> {..<k} \<and>
     engine_inv (bn_engine (pr_run s)) (bn_world (pr_run s)) \<and> engine_refs (bn_engine (pr_run s)) \<subseteq> {n..<n + k} \<and>
     (\<forall>i<n. same_order (heap (bn_world b) i) (heap (bn_world (pr_run s)) i)) \<and>
     slots_ok (bn_engine (pr_run s)) (Suc n) (pr_slot s) (pr_pool s) \<and> pr_next s = n + k"

lemma same_order_chain: "same_order x y \<Longrightarrow> same_order x' x \<Longrightarrow> same_order y' y \<Longrightarrow> same_order x' y'"
  by (simp add: same_order_def)

lemma pool_alloc_room:
  assumes "slots_ok e c slot P" and "card (engine_refs e) < c"
  shows "\<exists>raw P1. pool_alloc (Some r) P = (Inr raw, P1)"
proof -
  from assms have "pool_wf P" "freelist P \<noteq> []" by (auto simp: slots_ok_def)
  from pool_alloc_ok [OF this, of r] show ?thesis by blast
qed

text \<open>The two submissions of one round.\<close>

lemma agree_submit:
  assumes agree: "runs_agree b p" and inv: "engine_inv (bn_engine b) (bn_world b)" "engine_inv (bn_engine p) (bn_world p)"
    and fits: "engine_fits r (bn_engine b) (snd (nowNs (bn_world b)))"
    and same: "same_order (heap (bn_world b) r) (heap (bn_world p) r')"
  shows "\<exists>res b' p' w w'. bench_submit r b = Some b' \<and> bench_submit r' p = Some p' \<and> runs_agree b' p' \<and>
    submitOrder r (bn_engine b) (snd (nowNs (bn_world b))) = Some (res, bn_engine b', w) \<and> bn_world b' = snd (nowNs w) \<and>
    submitOrder r' (bn_engine p) (snd (nowNs (bn_world p))) = Some (res, bn_engine p', w') \<and> bn_world p' = snd (nowNs w') \<and>
    engine_inv (bn_engine b') (bn_world b') \<and> engine_inv (bn_engine p') (bn_world p') \<and>
    engine_fits r' (bn_engine p) (snd (nowNs (bn_world p)))"
proof -
  let ?wb = "snd (nowNs (bn_world b))" and ?wp = "snd (nowNs (bn_world p))"
  have i: "engine_inv (bn_engine b) ?wb" "engine_inv (bn_engine p) ?wp" using inv by (simp_all add: engine_inv_clock)
  have v: "abs_engine (heap ?wb) (bn_engine b) = abs_engine (heap ?wp) (bn_engine p)" "clock ?wb = clock ?wp" "ticks ?wb = ticks ?wp"
    using agree by (simp_all add: runs_agree_def world_simps)
  have o1: "same_order (heap ?wb r) (heap ?wp r')" using same by (simp add: world_simps)
  note fp = fits_same_view [OF fits v(1) o1]
  from same_view_submit [OF i(1) fits i(2) fp v o1] obtain res e1 w1 e2 w2 where
    s: "submitOrder r (bn_engine b) ?wb = Some (res, e1, w1)" "submitOrder r' (bn_engine p) ?wp = Some (res, e2, w2)"
      "abs_engine (heap w1) e1 = abs_engine (heap w2) e2" "clock w1 = clock w2" "ticks w1 = ticks w2"
    by blast
  from submit_inv [OF i(1) fits] s(1) have i1: "engine_inv e1 (snd (nowNs w1))" by (auto simp: engine_inv_clock)
  from submit_inv [OF i(2) fp] s(2) have i2: "engine_inv e2 (snd (nowNs w2))" by (auto simp: engine_inv_clock)
  have id: "oid (heap (snd (nowNs w1)) r) = oid (heap (snd (nowNs w2)) r')"
    using same_order_chain [OF o1 submit_same_order [OF i(1) fits s(1)] submit_same_order [OF i(2) fp s(2)]]
    by (simp add: same_order_def world_simps)
  have t: "fst (nowNs (bn_world b)) = fst (nowNs (bn_world p))" "fst (nowNs w1) = fst (nowNs w2)"
    using agree s(4,5) by (simp_all add: runs_agree_def world_simps)
  obtain b' where
    b': "bench_submit r b = Some b'" "bn_engine b' = e1" "bn_world b' = snd (nowNs w1)"
      "bn_timer b' = \<lparr>timer_t0 = fst (nowNs (bn_world b)),
         timer_samples = timer_samples (bn_timer b) @ [fst (nowNs w1) - fst (nowNs (bn_world b))]\<rparr>"
      "bn_result b' = bench_account res (bn_result b)" "bn_trades b' = bn_trades b @ rtrades res"
      "bn_ids b' = (if rstatus res = REJECTED \<or> rstatus res = CANCELLED then bn_ids b
               else bn_ids b @ [oid (heap (snd (nowNs w1)) r)])"
    by (rule that [OF bench_submit_eq [OF s(1)]]) simp_all
  obtain p' where
    p': "bench_submit r' p = Some p'" "bn_engine p' = e2" "bn_world p' = snd (nowNs w2)"
      "bn_timer p' = \<lparr>timer_t0 = fst (nowNs (bn_world p)),
         timer_samples = timer_samples (bn_timer p) @ [fst (nowNs w2) - fst (nowNs (bn_world p))]\<rparr>"
      "bn_result p' = bench_account res (bn_result p)" "bn_trades p' = bn_trades p @ rtrades res"
      "bn_ids p' = (if rstatus res = REJECTED \<or> rstatus res = CANCELLED then bn_ids p
               else bn_ids p @ [oid (heap (snd (nowNs w2)) r')])"
    by (rule that [OF bench_submit_eq [OF s(2)]]) simp_all
  have "runs_agree b' p'"
    unfolding runs_agree_def b'(2-) p'(2-) id t using agree s(3-5) by (simp add: runs_agree_def world_simps)
  with b'(1-3) p'(1-3) s(1,2) i1 i2 fp show ?thesis
    by (intro exI [of _ res] exI [of _ b'] exI [of _ p'] exI [of _ w1] exI [of _ w2]) simp
qed


text \<open>One round: the copy is made, submitted, and what became free goes back to the pool.\<close>

lemma pool_body_sim:
  assumes sim: "pool_sim n k b s" and k: "k < n" and total: "quantity_upto (Suc k) (bn_world b) < 2 ^ 64"
  shows "\<exists>b' s'. bench_submit k b = Some b' \<and> pool_body k s = Some (Inr s') \<and> pool_sim n (Suc k) b' s' \<and>
    quantity_upto m (bn_world b') = quantity_upto m (bn_world b)"
proof -
  let ?p = "pr_run s" and ?r = "n + k"
  let ?x = "heap (bn_world ?p) k"
  let ?w1 = "upd_order ?r (\<lambda>_. Order_new (oid ?x) (osymbol ?x) (oside ?x) (otype ?x) (oprice ?x) (oquantity ?x) (otimestamp ?x)) (bn_world ?p)"
  let ?p1 = "?p\<lparr>bn_world := ?w1\<rparr>"
  from sim have agree: "runs_agree b ?p" and inv: "engine_inv (bn_engine b) (bn_world b)" "engine_inv (bn_engine ?p) (bn_world ?p)"
    and refs: "engine_refs (bn_engine b) \<subseteq> {..<k}" "engine_refs (bn_engine ?p) \<subseteq> {n..<n + k}"
    and src: "\<forall>i<n. same_order (heap (bn_world b) i) (heap (bn_world ?p) i)"
    and sl: "slots_ok (bn_engine ?p) (Suc n) (pr_slot s) (pr_pool s)" and nx: "pr_next s = ?r"
    by (simp_all add: pool_sim_def)
  have fresh: "?r \<notin> engine_refs (bn_engine ?p)" using refs(2) by auto
  have inv1: "engine_inv (bn_engine ?p1) (bn_world ?p1)" using engine_inv_construct [OF inv(2) fresh] by simp
  have agree1: "runs_agree b ?p1" using agree abs_engine_upd [OF fresh] by (simp add: runs_agree_def clock_upd)
  have same: "same_order (heap (bn_world b) k) (heap (bn_world ?p1) ?r)"
    using src k by (simp add: same_order_def Order_new_def world_simps)
  have sum: "(\<Sum>r<Suc k. unat (oquantity (heap (snd (nowNs (bn_world b))) r))) < 2 ^ 64"
    using total by (simp add: quantity_upto_def world_simps)
  have invb: "engine_inv (bn_engine b) (snd (nowNs (bn_world b)))" using inv(1) by (simp add: engine_inv_clock)
  note fits = created_fits [OF invb refs(1) sum]
  from agree_submit [OF agree1 inv(1) inv1 fits same] obtain res b' p' w w' where
    st: "bench_submit k b = Some b'" "bench_submit ?r ?p1 = Some p'" "runs_agree b' p'"
      "submitOrder k (bn_engine b) (snd (nowNs (bn_world b))) = Some (res, bn_engine b', w)" "bn_world b' = snd (nowNs w)"
      "submitOrder ?r (bn_engine ?p1) (snd (nowNs (bn_world ?p1))) = Some (res, bn_engine p', w')" "bn_world p' = snd (nowNs w')"
      "engine_inv (bn_engine b') (bn_world b')" "engine_inv (bn_engine p') (bn_world p')"
      "engine_fits ?r (bn_engine ?p1) (snd (nowNs (bn_world ?p1)))"
    by (elim exE conjE) (rule that)
  have invp: "engine_inv (bn_engine ?p1) (snd (nowNs (bn_world ?p1)))" using inv1 by (simp add: engine_inv_clock)
  have refsb: "engine_refs (bn_engine b') \<subseteq> {..<Suc k}" using submit_static(1) [OF invb fits st(4)] refs(1) by auto
  have "engine_refs (bn_engine p') \<subseteq> insert ?r (engine_refs (bn_engine ?p))"
    using submit_static(1) [OF invp st(10,6)] by simp
  also have "\<dots> \<subseteq> insert ?r {n..<n + k}" by (rule insert_mono [OF refs(2)])
  finally have refsp: "engine_refs (bn_engine p') \<subseteq> {n..<n + Suc k}" by auto
  have same': "same_order (heap (bn_world b') x) (heap (bn_world b) x)" for x
    using submit_same_order [OF invb fits st(4), of x] st(5) by (simp add: same_order_def world_simps)
  have samep: "same_order (heap (bn_world p') x) (heap (bn_world ?p1) x)" for x
    using submit_same_order [OF invp st(10,6), of x] st(7) by (simp add: same_order_def world_simps)
  have "same_order (heap (bn_world b') i) (heap (bn_world p') i)" if "i < n" for i
    using same_order_chain [OF _ same' samep, of i i] src that by (simp add: world_simps)
  moreover have "card (engine_refs (bn_engine ?p)) < Suc n"
    using card_mono [OF _ refs(2)] k by simp
  from pool_alloc_room [OF sl this] obtain raw P1 where a: "pool_alloc (Some ?r) (pr_pool s) = (Inr raw, P1)" by blast
  let ?ds = "dropped ?r (osymbol ?x) (bn_engine ?p) (bn_engine p')"
  have sy: "osymbol (heap (snd (nowNs (bn_world ?p1))) ?r) = osymbol ?x" by (simp add: Order_new_def world_simps)
  have "engine_inv (bn_engine p') w'" using st(7,9) by (simp add: engine_inv_clock)
  note dr = submit_drops [OF invp st(10,6) this, unfolded sy, simplified, OF fresh]
  from slots_ok_step [OF sl a fresh dr] obtain P2 where
    p2: "dealloc_all pool_delete (map ((pr_slot s)(?r := raw)) ?ds) P1 = Some P2"
      "slots_ok (bn_engine p') (Suc n) ((pr_slot s)(?r := raw)) P2" by blast
  let ?s' = "\<lparr>pr_run = p', pr_pool = P2, pr_slot = (pr_slot s)(?r := raw), pr_next = Suc ?r\<rparr>"
  have "pool_body k s = Some (Inr ?s')"
    unfolding pool_body_def Let_def nx a prod.case sum.case st(2) option.case p2(1) ..
  moreover have "quantity_upto m (bn_world b') = quantity_upto m (bn_world b)"
    using same' by (intro quantity_upto_cong) (simp add: same_order_def)
  ultimately show ?thesis
    using st(1,3,8,9) refsb refsp p2(2) by (intro exI [of _ b'] exI [of _ ?s']) (simp add: pool_sim_def)
qed

lemma pool_loop_sim:
  assumes "pool_sim n k b s" and "k + j \<le> n" and "quantity_upto n (bn_world b) < 2 ^ 64"
  shows "\<exists>b' s'. bench_loop [k..<k + j] b = Some b' \<and> pool_loop [k..<k + j] s = Some (Inr s') \<and> pool_sim n (k + j) b' s'"
  using assms
proof (induction j arbitrary: k b s)
  case 0
  then show ?case by simp
next
  case (Suc j)
  have k: "k < n" using Suc.prems(2) by simp
  have t: "quantity_upto (Suc k) (bn_world b) < 2 ^ 64"
    using quantity_upto_mono [of "Suc k" n "bn_world b"] k Suc.prems(3) by simp
  from pool_body_sim [OF Suc.prems(1) k t, of n] obtain b1 s1 where
    s1: "bench_submit k b = Some b1" "pool_body k s = Some (Inr s1)" "pool_sim n (Suc k) b1 s1"
      "quantity_upto n (bn_world b1) = quantity_upto n (bn_world b)" by blast
  from Suc.IH [OF s1(3)] Suc.prems(2,3) s1(4) obtain b' s' where
    r: "bench_loop [Suc k..<Suc k + j] b1 = Some b'" "pool_loop [Suc k..<Suc k + j] s1 = Some (Inr s')" "pool_sim n (Suc k + j) b' s'"
    by auto
  have u: "[k..<k + Suc j] = k # [Suc k..<Suc k + j]" by (subst upt_conv_Cons) simp_all
  show ?case unfolding u using s1(1,2) r by (intro exI [of _ b'] exI [of _ s']) simp
qed


section \<open>The whole run\<close>

text \<open>Whether a book is empty shows in its abstraction.\<close>

lemma same_abs_empty:
  assumes "abs_engine h e = abs_engine h' e'"
  shows "refs_of e' sy = [] \<longleftrightarrow> refs_of e sy = []"
proof -
  have "refs_of e sy = [] \<longleftrightarrow> (case ae_books (abs_engine h e) sy of None \<Rightarrow> True | Some ab \<Rightarrow> abids ab = [] \<and> aasks ab = [])" for h e
    by (simp add: refs_of_def abs_engine_def abs_book_def abs_side_def book_refs_def split: option.split)
  from this [of e h] this [of e' h'] show ?thesis unfolding assms by simp
qed

lemma pool_runs:
  assumes w: "fresh_world w" and total: "quantity_upto n w < 2 ^ 64" and n: "n \<le> 2 ^ 31"
  shows "\<exists>res s w'. runPool_result rss cfg [0..<n] n w = Some (Inr (res, s)) \<and>
    runBaseline rss cfg [0..<n] w = Some (res, w') \<and>
    slots_ok (bn_engine (pr_run s)) (Suc n) (pr_slot s) (pr_pool s) \<and>
    (\<exists>b. bench_loop [0..<n] (bench_init cfg n (snd (nowNs w))) = Some b \<and>
         (\<forall>sy. refs_of (bn_engine (pr_run s)) sy = [] \<longleftrightarrow> refs_of (bn_engine b) sy = []))"
proof -
  let ?w1 = "snd (nowNs w)"
  let ?b0 = "bench_init cfg n ?w1" and ?s0 = "pool_start cfg n n ?w1"
  have w1: "fresh_world ?w1" using w by (simp add: fresh_world_def world_simps)
  note start = registered_start(2,3) [OF w1, of "bc_symbols cfg"]
  have b0: "engine_inv (bn_engine ?b0) (bn_world ?b0)" "engine_refs (bn_engine ?b0) \<subseteq> {..<0}" "ids_ok ?b0"
    "quantity_upto (0 + n) (bn_world ?b0) < 2 ^ 64"
    using start total by (simp_all add: bench_init_def ids_ok_def quantity_upto_def world_simps)
  have cap: "unat (of_nat n + 1 :: u64) = Suc n"
    using n unat_of_nat_u64 [of "Suc n"] by (simp add: add.commute)
  have "unat (of_nat n + 1 :: u64) \<le> 2 ^ 32" unfolding cap using n by simp
  then have "slots_ok (bn_engine (pr_run ?s0)) (Suc n) (pr_slot ?s0) (pr_pool ?s0)"
    using start(2) pool_new_wf [of "of_nat n + 1", where ?'a = OrderRef] cap
    by (simp add: slots_ok_def pool_start_def bench_init_def)
  then have "pool_sim n 0 ?b0 ?s0"
    using b0 start by (simp add: pool_sim_def runs_agree_def pool_start_def same_order_def bench_init_def)
  from pool_loop_sim [OF this, of n] b0(4) obtain b s where
    l: "bench_loop [0..<n] ?b0 = Some b" "pool_loop [0..<n] ?s0 = Some (Inr s)" "pool_sim n n b s" by auto
  from bench_loop_run [OF b0] l(1) obtain tr where
    r: "bench_ok n tr ?b0 b" "ids_ok b" "length (timer_samples (bn_timer b)) = n"
    by (auto simp: bench_init_def LatencyTimer_new_def)
  let ?p = "pr_run s"
  from l(3) have agree: "runs_agree b ?p" and inv: "engine_inv (bn_engine b) (bn_world b)" "engine_inv (bn_engine ?p) (bn_world ?p)"
    and sl: "slots_ok (bn_engine ?p) (Suc n) (pr_slot s) (pr_pool s)" by (simp_all add: pool_sim_def)
  have "validator (bn_engine b) = validator (bn_engine ?p)"
    using agree by (simp add: runs_agree_def abs_engine_def)
  with r(2) agree have ids: "ids_ok ?p" by (simp add: ids_ok_def runs_agree_def)
  have "engine_run (bn_engine ?b0, bn_world ?b0) tr (bn_engine b, bn_world b)" "bn_trades b = run_trades tr"
    using r(1) by (simp_all add: bench_ok_def bench_init_def)
  with run_trades_positive [OF this(1)] b0(1) have pos: "\<forall>t\<in>set (bn_trades b). 0 < tprice t \<and> 0 < tquantity t" by simp
  let ?ns = "fst (nowNs (bn_world b)) - fst (nowNs w)"
  have ns: "fst (nowNs (bn_world ?p)) = fst (nowNs (bn_world b))" using agree by (simp add: runs_agree_def world_simps)
  obtain lat where lat: "timer_compute ?ns (bn_timer b) = Some lat" using compute_defined [of "bn_timer b"] r(3) n by auto
  let ?fin = "\<lambda>q. finalise rss cfg (q\<lparr>bn_world := snd (nowNs (bn_world q)), bn_result := (bn_result q)\<lparr>br_latency := lat\<rparr>\<rparr>)"
  have fin: "?fin q = (bn_result q)\<lparr>br_latency := lat, br_memoryKB := rss, br_invariants := Report_ok\<rparr>"
    if "engine_inv (bn_engine q) (bn_world q)" "ids_ok q" "bn_trades q = bn_trades b" for q
  proof -
    have "br_invariants (?fin q) = Report_ok"
      using that pos by (intro finalise_passes) (simp_all add: engine_inv_clock ids_ok_def)
    then show ?thesis by (simp add: finalise_def)
  qed
  have same: "?fin ?p = ?fin b"
    using fin [OF inv(1) r(2)] fin [OF inv(2) ids] agree by (simp add: runs_agree_def)
  have "runBaseline rss cfg [0..<n] w = Some (?fin b, snd (nowNs (bn_world b)))"
    using l(1) lat by (simp add: runBaseline_def bench_result_def case_prod_beta Let_def)
  moreover have "timer_compute ?ns (bn_timer ?p) = Some lat" using lat agree by (simp add: runs_agree_def)
  then have "runPool_result rss cfg [0..<n] n w = Some (Inr (?fin ?p, s\<lparr>pr_run := ?p\<lparr>bn_world := snd (nowNs (bn_world ?p))\<rparr>\<rparr>))"
    using l(2) ns by (simp add: runPool_result_def bench_result_def case_prod_beta Let_def)
  moreover have "refs_of (bn_engine ?p) sy = [] \<longleftrightarrow> refs_of (bn_engine b) sy = []" for sy
    using same_abs_empty [of "heap (bn_world b)" "bn_engine b" "heap (bn_world ?p)" "bn_engine ?p"] agree
    by (simp add: runs_agree_def)
  ultimately show ?thesis using same sl l(1) by (intro exI [of _ "?fin b"]) simp
qed

end
