(* ===== verification/Pipeline_Run.thy ===== *)
theory Pipeline_Run
  imports Benchmark_Runner Spsc_Weak
begin

text \<open>
  The two-threaded mode of \<^verbatim>\<open>src/benchmark/BenchmarkRunner.cpp\<close> (\<^verbatim>\<open>runPipeline\<close>): the producer
  pushes every order and then the null pointer into a ring buffer, retrying while it is full; the
  engine thread pops, submits and accounts until it meets the null pointer.  The pushes and pops
  are the split ones of \<^verbatim>\<open>Spsc_Steps\<close>, so the two threads interleave at every access to
  the ring; the engine thread's own variables are touched by no other thread.  Seen from the ring, a thread that
  loads an old index of the other one fails needlessly (\<open>stale_failure\<close>) and tries again.
\<close>

datatype engine_thread =
    T_start
  | T_poll u64
  | T_item u64 "OrderRef option"
  | T_done u64

record pipeline =
  pl_ring :: "OrderRef option spsc"
  pl_todo :: "OrderRef option list"
  pl_thread :: engine_thread
  pl_run :: bench_run

definition pipeline_capacity :: "BenchmarkConfig \<Rightarrow> u64" where
  "pipeline_capacity cfg = (if 0 < bc_pipelineCapacity cfg then bc_pipelineCapacity cfg else 2 ^ 14)"

definition pipeline_new :: "BenchmarkConfig \<Rightarrow> OrderRef list \<Rightarrow> world \<Rightarrow> pipeline option" where
  "pipeline_new cfg ords w =
     map_option (\<lambda>r. \<lparr>pl_ring = spsc_start r, pl_todo = map Some ords @ [None], pl_thread = T_start,
                      pl_run = bench_init cfg (length ords) w\<rparr>)
       (ring_new (pipeline_capacity cfg))"

text \<open>The producer: start to push the next item, go on with the push, retry it after a failure.\<close>

inductive push_turn :: "pipeline \<Rightarrow> pipeline \<Rightarrow> bool" where
  push_begin:
    "sp_producer (pl_ring p) = P_idle \<Longrightarrow> pl_todo p = x # xs \<Longrightarrow>
     push_turn p (p\<lparr>pl_ring := (pl_ring p)\<lparr>sp_producer := P_tail x (ring_tail (sp_ring (pl_ring p)))\<rparr>\<rparr>)"
| push_go_on:
    "sp_producer (pl_ring p) \<noteq> P_idle \<Longrightarrow> producer_step (pl_ring p) s' \<Longrightarrow> sp_sent s' = sp_sent (pl_ring p) \<Longrightarrow>
     push_turn p (p\<lparr>pl_ring := s'\<rparr>)"
| push_succeeds:
    "sp_producer (pl_ring p) \<noteq> P_idle \<Longrightarrow> producer_step (pl_ring p) s' \<Longrightarrow> sp_sent s' \<noteq> sp_sent (pl_ring p) \<Longrightarrow>
     push_turn p (p\<lparr>pl_ring := s', pl_todo := tl (pl_todo p)\<rparr>)"

text \<open>The engine thread: read the clock, poll, submit what was popped, stop at the null pointer.\<close>

inductive engine_turn :: "pipeline \<Rightarrow> pipeline \<Rightarrow> bool" where
  engine_begin:
    "pl_thread p = T_start \<Longrightarrow> nowNs (bn_world (pl_run p)) = (t, w) \<Longrightarrow>
     engine_turn p (p\<lparr>pl_thread := T_poll t, pl_run := (pl_run p)\<lparr>bn_world := w\<rparr>\<rparr>)"
| engine_polls:
    "pl_thread p = T_poll t \<Longrightarrow> consumer_step (pl_ring p) s' \<Longrightarrow> sp_received s' = sp_received (pl_ring p) \<Longrightarrow>
     engine_turn p (p\<lparr>pl_ring := s'\<rparr>)"
| engine_pops:
    "pl_thread p = T_poll t \<Longrightarrow> consumer_step (pl_ring p) s' \<Longrightarrow> sp_received s' = sp_received (pl_ring p) @ [x] \<Longrightarrow>
     engine_turn p (p\<lparr>pl_ring := s', pl_thread := T_item t x\<rparr>)"
| engine_submits:
    "pl_thread p = T_item t (Some r) \<Longrightarrow> bench_submit r (pl_run p) = Some s \<Longrightarrow>
     engine_turn p (p\<lparr>pl_run := s, pl_thread := T_poll t\<rparr>)"
| engine_stops:
    "pl_thread p = T_item t None \<Longrightarrow> nowNs (bn_world (pl_run p)) = (t', w) \<Longrightarrow>
     engine_turn p (p\<lparr>pl_run := (pl_run p)\<lparr>bn_world := w\<rparr>, pl_thread := T_done (t' - t)\<rparr>)"

inductive pipeline_reachable :: "BenchmarkConfig \<Rightarrow> OrderRef list \<Rightarrow> world \<Rightarrow> pipeline \<Rightarrow> bool" for cfg ords w where
  pipeline_init: "pipeline_new cfg ords w = Some p \<Longrightarrow> pipeline_reachable cfg ords w p"
| pipeline_push: "pipeline_reachable cfg ords w p \<Longrightarrow> push_turn p p' \<Longrightarrow> pipeline_reachable cfg ords w p'"
| pipeline_engine: "pipeline_reachable cfg ords w p \<Longrightarrow> engine_turn p p' \<Longrightarrow> pipeline_reachable cfg ords w p'"
| pipeline_stale:
    "pipeline_reachable cfg ords w p \<Longrightarrow> stale_failure (pl_ring p) s' \<Longrightarrow> pipeline_reachable cfg ords w (p\<lparr>pl_ring := s'\<rparr>)"

text \<open>The engine thread has ended and the producer has nothing left to do; then the result is computed.\<close>

definition producer_done :: "pipeline \<Rightarrow> bool" where
  "producer_done p \<longleftrightarrow> sp_producer (pl_ring p) = P_idle \<and> pl_todo p = []"

fun pipeline_result :: "u64 \<Rightarrow> BenchmarkConfig \<Rightarrow> pipeline \<Rightarrow> (BenchmarkResult \<times> world) option" where
  "pipeline_result rss cfg p =
     (case pl_thread p of
        T_done wallNs \<Rightarrow> map_option (\<lambda>b. (b, bn_world (pl_run p))) (bench_result rss cfg wallNs (pl_run p))
      | _ \<Rightarrow> None)"

inductive_cases push_turnE: "push_turn p p'"
inductive_cases engine_turnE: "engine_turn p p'"

section \<open>The invariant\<close>

text \<open>What the engine thread has done with the items received so far.\<close>

definition thread_knows :: "BenchmarkConfig \<Rightarrow> nat \<Rightarrow> world \<Rightarrow> OrderRef option list \<Rightarrow> engine_thread \<Rightarrow> bench_run \<Rightarrow> bool" where
  "thread_knows cfg n w got th s \<longleftrightarrow>
     (case th of
        T_start \<Rightarrow> got = [] \<and> s = bench_init cfg n w
      | T_poll t \<Rightarrow> t = fst (nowNs w) \<and>
          (\<exists>rs. got = map Some rs \<and> bench_loop rs (bench_init cfg n (snd (nowNs w))) = Some s)
      | T_item t x \<Rightarrow> t = fst (nowNs w) \<and>
          (\<exists>rs. got = map Some rs @ [x] \<and> bench_loop rs (bench_init cfg n (snd (nowNs w))) = Some s)
      | T_done ns \<Rightarrow>
          (\<exists>rs s0. got = map Some rs @ [None] \<and> bench_loop rs (bench_init cfg n (snd (nowNs w))) = Some s0 \<and>
             ns = fst (nowNs (bn_world s0)) - fst (nowNs w) \<and> s = s0\<lparr>bn_world := snd (nowNs (bn_world s0))\<rparr>))"

fun producer_item :: "'a producer \<Rightarrow> 'a list" where
  "producer_item P_idle = []"
| "producer_item (P_tail x t) = [x]"
| "producer_item (P_free x t) = [x]"
| "producer_item (P_written x t) = [x]"

definition pipeline_around :: "BenchmarkConfig \<Rightarrow> OrderRef list \<Rightarrow> world \<Rightarrow> nat \<Rightarrow> OrderRef option list \<Rightarrow> pipeline \<Rightarrow> bool" where
  "pipeline_around cfg ords w n q p \<longleftrightarrow>
     spsc_around n q (pl_ring p) \<and> sp_sent (pl_ring p) @ pl_todo p = map Some ords @ [None] \<and>
     (\<exists>xs. pl_todo p = producer_item (sp_producer (pl_ring p)) @ xs) \<and>
     thread_knows cfg (length ords) w (sp_received (pl_ring p)) (pl_thread p) (pl_run p)"

lemma producer_step_trace:
  assumes "producer_step s s'"
  shows "sp_received s' = sp_received s" and "sp_consumer s' = sp_consumer s"
    and "sp_sent s' = sp_sent s \<and> (sp_producer s \<noteq> P_idle \<longrightarrow> producer_item (sp_producer s') \<in> {[], producer_item (sp_producer s)}) \<or>
         sp_producer s' = P_idle \<and> sp_sent s' = sp_sent s @ producer_item (sp_producer s) \<and> sp_producer s \<noteq> P_idle"
  using assms by (auto elim!: producer_stepE)

lemma consumer_step_trace:
  assumes "consumer_step s s'"
  shows "sp_sent s' = sp_sent s" and "sp_producer s' = sp_producer s"
    and "sp_received s' = sp_received s \<or> (\<exists>x. sp_received s' = sp_received s @ [x])"
  using assms by (auto elim!: consumer_stepE)

lemma producer_item_cases: "sp \<noteq> P_idle \<longleftrightarrow> (\<exists>x. producer_item sp = [x])"
  by (cases sp) simp_all

lemma push_turn_around:
  assumes "push_turn p p'" and a: "pipeline_around cfg ords w n q p"
  shows "\<exists>q'. pipeline_around cfg ords w n q' p'"
  using assms(1)
proof cases
  case (push_begin x xs)
  from producer_step_inv [OF push_load_tail [OF push_begin(2)]] a push_begin show ?thesis
    by (auto simp: pipeline_around_def)
next
  case (push_go_on s')
  from producer_step_inv [OF push_go_on(3)] a obtain q' where "spsc_around n q' s'" by (auto simp: pipeline_around_def)
  with producer_step_trace [OF push_go_on(3)] push_go_on a show ?thesis
    by (intro exI [of _ q']) (auto simp: pipeline_around_def)
next
  case (push_succeeds s')
  from producer_step_inv [OF push_succeeds(3)] a obtain q' where "spsc_around n q' s'" by (auto simp: pipeline_around_def)
  with producer_step_trace [OF push_succeeds(3)] push_succeeds a show ?thesis
    by (intro exI [of _ q']) (auto simp: pipeline_around_def producer_item_cases)
qed

lemma engine_turn_around:
  assumes "engine_turn p p'" and a: "pipeline_around cfg ords w n q p"
  shows "\<exists>q'. pipeline_around cfg ords w n q' p'"
  using assms(1)
proof cases
  case (engine_begin t w')
  with a show ?thesis
    by (intro exI [of _ q]) (auto simp: pipeline_around_def thread_knows_def bench_init_def intro!: exI [of _ "[]"])
next
  case (engine_polls t s')
  from consumer_step_inv [OF engine_polls(3)] a obtain q' where "spsc_around n q' s'" by (auto simp: pipeline_around_def)
  with consumer_step_trace [OF engine_polls(3)] engine_polls a show ?thesis
    by (intro exI [of _ q']) (auto simp: pipeline_around_def)
next
  case (engine_pops t s' x)
  from consumer_step_inv [OF engine_pops(3)] a obtain q' where "spsc_around n q' s'" by (auto simp: pipeline_around_def)
  with consumer_step_trace [OF engine_pops(3)] engine_pops a show ?thesis
    by (intro exI [of _ q']) (auto simp: pipeline_around_def thread_knows_def)
next
  case (engine_submits t r s)
  from a engine_submits obtain rs where
    "sp_received (pl_ring p) = map Some (rs @ [r])"
    "bench_loop rs (bench_init cfg (length ords) (snd (nowNs w))) = Some (pl_run p)"
    by (auto simp: pipeline_around_def thread_knows_def)
  with engine_submits have "bench_loop (rs @ [r]) (bench_init cfg (length ords) (snd (nowNs w))) = Some s"
    by (simp add: bench_loop_append)
  with a engine_submits \<open>sp_received (pl_ring p) = map Some (rs @ [r])\<close> show ?thesis
    by (intro exI [of _ q]) (auto simp: pipeline_around_def thread_knows_def intro!: exI [of _ "rs @ [r]"])
next
  case (engine_stops t t' w')
  with a show ?thesis
    by (intro exI [of _ q]) (fastforce simp: pipeline_around_def thread_knows_def)
qed

lemma pipeline_new_around:
  assumes "pipeline_new cfg ords w = Some p" and "unat (pipeline_capacity cfg) \<le> 2 ^ 63"
  shows "\<exists>n. pipeline_around cfg ords w n [] p"
proof -
  from ring_new_holds [OF assms(2), where ?'a = "OrderRef option"] assms(1) obtain r where
    r: "ring_holds r []" "pl_ring p = spsc_start r" "pl_todo p = map Some ords @ [None]" "pl_thread p = T_start"
      "pl_run p = bench_init cfg (length ords) w" by (auto simp: pipeline_new_def)
  then obtain n where "ring_shape n r 0" "ring_slots r = Map.empty" by (auto simp: ring_holds_def)
  with r show ?thesis
    by (intro exI [of _ n]) (simp add: pipeline_around_def spsc_around_def spsc_start_def thread_knows_def)
qed

lemma stale_around:
  assumes "stale_failure (pl_ring p) s'" and "pipeline_around cfg ords w n q p"
  shows "pipeline_around cfg ords w n q (p\<lparr>pl_ring := s'\<rparr>)"
  using assms by cases (auto simp: pipeline_around_def spsc_around_def)

lemma pipeline_reachable_around:
  assumes "pipeline_reachable cfg ords w p" and "unat (pipeline_capacity cfg) \<le> 2 ^ 63"
  shows "\<exists>n q. pipeline_around cfg ords w n q p"
  using assms
proof (induction rule: pipeline_reachable.induct)
  case (pipeline_init p)
  then show ?case using pipeline_new_around by blast
next
  case (pipeline_push p p')
  then show ?case using push_turn_around by blast
next
  case (pipeline_engine p p')
  then show ?case using engine_turn_around by blast
next
  case (pipeline_stale p s')
  then show ?case using stale_around by blast
qed

lemma sentinel_last:
  "map Some rs @ None # q = map Some ords @ [None] \<Longrightarrow> rs = ords \<and> q = []"
proof (induction rs arbitrary: ords)
  case Nil
  then show ?case by (cases ords) auto
next
  case (Cons r rs)
  then show ?case by (cases ords) auto
qed

lemma received_prefix:
  "map Some rs @ Some r # q = map Some ords @ [None] \<Longrightarrow> \<exists>ords'. ords = rs @ r # ords'"
proof (induction rs arbitrary: ords)
  case Nil
  then show ?case by (cases ords) auto
next
  case (Cons y rs)
  then show ?case by (cases ords) auto
qed

lemma done_around:
  assumes "pipeline_around cfg ords w n q p" and "pl_thread p = T_done ns"
  shows "producer_done p" and "q = []"
    and "\<exists>s. bench_loop ords (bench_init cfg (length ords) (snd (nowNs w))) = Some s \<and>
      ns = fst (nowNs (bn_world s)) - fst (nowNs w) \<and> pl_run p = s\<lparr>bn_world := snd (nowNs (bn_world s))\<rparr>"
proof -
  from assms obtain rs s0 where
    g: "sp_received (pl_ring p) = map Some rs @ [None]" "bench_loop rs (bench_init cfg (length ords) (snd (nowNs w))) = Some s0"
      "ns = fst (nowNs (bn_world s0)) - fst (nowNs w)" "pl_run p = s0\<lparr>bn_world := snd (nowNs (bn_world s0))\<rparr>"
    and a: "sp_sent (pl_ring p) = sp_received (pl_ring p) @ q" "sp_sent (pl_ring p) @ pl_todo p = map Some ords @ [None]"
      "\<exists>xs. pl_todo p = producer_item (sp_producer (pl_ring p)) @ xs"
    by (auto simp: pipeline_around_def spsc_around_def thread_knows_def)
  have "map Some rs @ None # (q @ pl_todo p) = map Some ords @ [None]" using a(1,2) g(1) by simp
  from sentinel_last [OF this] have e: "rs = ords" "q = []" "pl_todo p = []" by auto
  with a(3) show "producer_done p" by (cases "sp_producer (pl_ring p)") (simp_all add: producer_done_def)
  show "q = []" by (rule e)
  from g e(1) show "\<exists>s. bench_loop ords (bench_init cfg (length ords) (snd (nowNs w))) = Some s \<and>
      ns = fst (nowNs (bn_world s)) - fst (nowNs w) \<and> pl_run p = s\<lparr>bn_world := snd (nowNs (bn_world s))\<rparr>" by blast
qed

lemma pipeline_result_baseline:
  assumes "pipeline_around cfg ords w n q p" and "pl_thread p = T_done ns"
  shows "pipeline_result rss cfg p = runBaseline rss cfg ords w"
proof -
  from done_around(3) [OF assms] obtain s where
    "bench_loop ords (bench_init cfg (length ords) (snd (nowNs w))) = Some s"
    "ns = fst (nowNs (bn_world s)) - fst (nowNs w)" "pl_run p = s\<lparr>bn_world := snd (nowNs (bn_world s))\<rparr>" by blast
  with assms(2) show ?thesis by (simp add: runBaseline_def case_prod_beta Let_def)
qed


section \<open>Progress under fair scheduling\<close>

text \<open>
  At any time one of the threads is the one whose next step counts: the engine thread while it holds
  an item or the ring has one, the producer otherwise.  The measure never grows, and every step of that
  thread decreases it.
\<close>

fun thread_weight :: "engine_thread \<Rightarrow> nat" where
  "thread_weight T_start = 1"
| "thread_weight (T_poll t) = 0"
| "thread_weight (T_item t x) = 1"
| "thread_weight (T_done ns) = 0"

definition backlog :: "pipeline \<Rightarrow> nat" where
  "backlog p = length (sp_sent (pl_ring p)) - length (sp_received (pl_ring p))"

definition engine_helps :: "pipeline \<Rightarrow> bool" where
  "engine_helps p \<longleftrightarrow> thread_weight (pl_thread p) = 1 \<or> 0 < backlog p"

definition producer_rank :: "'a producer \<Rightarrow> nat" where
  "producer_rank sp = (if sp = P_idle then 4 else producer_left sp)"

definition consumer_rank :: "'a consumer \<Rightarrow> nat" where
  "consumer_rank sc = (if sc = C_idle then 4 else consumer_left sc)"

definition pipeline_measure :: "pipeline \<Rightarrow> nat" where
  "pipeline_measure p =
     5 * (3 * length (pl_todo p) + 2 * backlog p + thread_weight (pl_thread p)) +
     (if engine_helps p then consumer_rank (sp_consumer (pl_ring p)) else producer_rank (sp_producer (pl_ring p)))"

lemma producer_rank_bounds: "1 \<le> producer_rank sp \<and> producer_rank sp \<le> 4"
  by (cases sp) (simp_all add: producer_rank_def)

lemma consumer_rank_bounds: "1 \<le> consumer_rank sc \<and> consumer_rank sc \<le> 4"
  by (cases sc) (simp_all add: consumer_rank_def)

lemma measure_drops:
  assumes "3 * length (pl_todo p') + 2 * backlog p' + thread_weight (pl_thread p')
      < 3 * length (pl_todo p) + 2 * backlog p + thread_weight (pl_thread p)"
  shows "pipeline_measure p' < pipeline_measure p"
  using assms producer_rank_bounds [of "sp_producer (pl_ring p')"] producer_rank_bounds [of "sp_producer (pl_ring p)"]
    consumer_rank_bounds [of "sp_consumer (pl_ring p')"] consumer_rank_bounds [of "sp_consumer (pl_ring p)"]
  unfolding pipeline_measure_def by (simp split: if_splits)

lemma backlog_around: "pipeline_around cfg ords w n q p \<Longrightarrow> backlog p = length q"
  by (simp add: pipeline_around_def spsc_around_def backlog_def)

lemma push_turn_measure:
  assumes "push_turn p p'" and a: "pipeline_around cfg ords w n q p"
  shows "pipeline_measure p' < pipeline_measure p \<or>
    engine_helps p \<and> pipeline_measure p' = pipeline_measure p \<and> engine_helps p'"
  using assms(1)
proof cases
  case (push_begin x xs)
  then show ?thesis
    by (auto simp: pipeline_measure_def engine_helps_def backlog_def producer_rank_def)
next
  case (push_go_on s')
  note tr = producer_step_trace [OF push_go_on(3)]
  have same: "backlog p' = backlog p" "pl_thread p' = pl_thread p" "pl_todo p' = pl_todo p"
    using push_go_on tr by (simp_all add: backlog_def)
  have "producer_rank (sp_producer s') < producer_rank (sp_producer (pl_ring p))" if "\<not> engine_helps p"
  proof -
    have q: "q = []" using that backlog_around [OF a] by (simp add: engine_helps_def)
    have s: "ring_shape n (sp_ring (pl_ring p)) 0" and pk: "producer_knows n (sp_ring (pl_ring p)) [] (sp_producer (pl_ring p))"
      using a q by (simp_all add: pipeline_around_def spsc_around_def)
    have "ring_next (sp_ring (pl_ring p)) (ring_tail (sp_ring (pl_ring p))) \<noteq> ring_head (sp_ring (pl_ring p))"
      using ring_full_iff [OF s] ring_shape_bounds [OF s] by simp
    with push_go_on(2-4) pk show ?thesis by (auto simp: producer_rank_def elim!: producer_stepE)
  qed
  with same tr(2) push_go_on(1) show ?thesis by (auto simp: pipeline_measure_def engine_helps_def)
next
  case (push_succeeds s')
  note tr = producer_step_trace [OF push_succeeds(3)]
  have "sp_sent s' = sp_sent (pl_ring p) @ producer_item (sp_producer (pl_ring p))"
    using tr(3) push_succeeds(4) by blast
  moreover obtain x where x: "producer_item (sp_producer (pl_ring p)) = [x]"
    using push_succeeds(2) unfolding producer_item_cases by (rule exE)
  ultimately have "length (sp_sent s') = Suc (length (sp_sent (pl_ring p)))" by simp
  with tr(1) have "backlog p' \<le> Suc (backlog p)" unfolding push_succeeds(1) by (simp add: backlog_def)
  moreover have "pl_thread p' = pl_thread p" "pl_todo p' = tl (pl_todo p)" unfolding push_succeeds(1) by simp_all
  moreover obtain xs where "pl_todo p = x # xs" using a x by (auto simp: pipeline_around_def)
  ultimately have "pipeline_measure p' < pipeline_measure p" by (intro measure_drops) simp
  then show ?thesis by simp
qed

lemma engine_turn_measure:
  assumes "engine_turn p p'" and a: "pipeline_around cfg ords w n q p"
  shows "pipeline_measure p' < pipeline_measure p \<or>
    \<not> engine_helps p \<and> pipeline_measure p' = pipeline_measure p \<and> \<not> engine_helps p'"
  using assms(1)
proof cases
  case (engine_begin t w')
  then have "pipeline_measure p' < pipeline_measure p" by (intro measure_drops) (simp add: backlog_def)
  then show ?thesis by simp
next
  case (engine_polls t s')
  note tr = consumer_step_trace [OF engine_polls(3)]
  have same: "backlog p' = backlog p" "pl_thread p' = pl_thread p" "pl_todo p' = pl_todo p"
    using engine_polls tr by (simp_all add: backlog_def)
  have "consumer_rank (sp_consumer s') < consumer_rank (sp_consumer (pl_ring p))" if "engine_helps p"
  proof -
    have q: "q \<noteq> []" using that backlog_around [OF a] engine_polls(2) by (simp add: engine_helps_def)
    have s: "ring_shape n (sp_ring (pl_ring p)) (length q)" and ck: "consumer_knows (sp_ring (pl_ring p)) q (sp_consumer (pl_ring p))"
      using a by (simp_all add: pipeline_around_def spsc_around_def)
    have "ring_head (sp_ring (pl_ring p)) \<noteq> ring_tail (sp_ring (pl_ring p))"
      using ring_empty_iff [OF s] q by simp
    with engine_polls(3,4) ck show ?thesis by (auto simp: consumer_rank_def elim!: consumer_stepE)
  qed
  with same tr(2) engine_polls(1) show ?thesis by (auto simp: pipeline_measure_def engine_helps_def)
next
  case (engine_pops t s' x)
  note tr = consumer_step_trace [OF engine_pops(3)]
  obtain q' where "spsc_around n q' s'" using consumer_step_inv [OF engine_pops(3)] a by (auto simp: pipeline_around_def)
  then have "length (sp_received s') \<le> length (sp_sent s')" by (simp add: spsc_around_def)
  with tr(1) engine_pops have "pipeline_measure p' < pipeline_measure p"
    by (intro measure_drops) (simp add: backlog_def)
  then show ?thesis by simp
next
  case (engine_submits t r s)
  then have "pipeline_measure p' < pipeline_measure p" by (intro measure_drops) (simp add: backlog_def)
  then show ?thesis by simp
next
  case (engine_stops t t' w')
  then have "pipeline_measure p' < pipeline_measure p" by (intro measure_drops) (simp add: backlog_def)
  then show ?thesis by simp
qed


section \<open>Schedules\<close>

text \<open>
  The next step of each thread as a function of the state; a thread without a step leaves the
  state alone.
\<close>

definition producer_next :: "'a list \<Rightarrow> 'a spsc \<Rightarrow> 'a spsc" where
  "producer_next xs s =
     (case sp_producer s of
        P_idle \<Rightarrow> (case xs of [] \<Rightarrow> s | x # _ \<Rightarrow> s\<lparr>sp_producer := P_tail x (ring_tail (sp_ring s))\<rparr>)
      | P_tail x t \<Rightarrow>
          (if ring_next (sp_ring s) t = ring_head (sp_ring s) then s\<lparr>sp_producer := P_idle\<rparr>
           else s\<lparr>sp_producer := P_free x t\<rparr>)
      | P_free x t \<Rightarrow>
          s\<lparr>sp_ring := (sp_ring s)\<lparr>ring_slots := (ring_slots (sp_ring s))(unat t \<mapsto> x)\<rparr>, sp_producer := P_written x t\<rparr>
      | P_written x t \<Rightarrow>
          s\<lparr>sp_ring := (sp_ring s)\<lparr>ring_tail := ring_next (sp_ring s) t\<rparr>, sp_producer := P_idle,
            sp_sent := sp_sent s @ [x]\<rparr>)"

definition push_next :: "pipeline \<Rightarrow> pipeline" where
  "push_next p =
     (let s' = producer_next (pl_todo p) (pl_ring p)
      in if sp_sent s' = sp_sent (pl_ring p) then p\<lparr>pl_ring := s'\<rparr>
         else p\<lparr>pl_ring := s', pl_todo := tl (pl_todo p)\<rparr>)"

lemma push_next_turn:
  assumes "\<not> producer_done p" shows "push_turn p (push_next p)"
proof (cases "sp_producer (pl_ring p) = P_idle")
  case True
  with assms obtain x xs where "pl_todo p = x # xs" by (cases "pl_todo p") (auto simp: producer_done_def)
  with push_begin [OF True this] True show ?thesis by (simp add: push_next_def producer_next_def)
next
  case False
  then have "producer_step (pl_ring p) (producer_next (pl_todo p) (pl_ring p))"
    by (cases "sp_producer (pl_ring p)") (auto simp: producer_next_def intro: producer_step.intros)
  with False push_go_on [OF False this] push_succeeds [OF False this] show ?thesis
    by (auto simp: push_next_def Let_def)
qed

text \<open>The engine thread always has a step until it is done, if its submissions are defined.\<close>

lemma engine_turn_exists:
  assumes a: "pipeline_around cfg ords w n q p" and d: "runBaseline rss cfg ords w \<noteq> None"
    and "\<forall>ns. pl_thread p \<noteq> T_done ns"
  shows "\<exists>p'. engine_turn p p'"
proof (cases "pl_thread p")
  case T_start
  then show ?thesis using engine_begin [OF T_start] by (metis surj_pair)
next
  case (T_poll t)
  from a have "spsc_inv (pl_ring p)" by (auto simp: pipeline_around_def spsc_inv_def)
  from consumer_enabled [OF this] obtain s' where "consumer_step (pl_ring p) s'" by blast
  with consumer_step_trace(3) [OF this] engine_polls [OF T_poll this] engine_pops [OF T_poll this] show ?thesis by blast
next
  case (T_item t x)
  show ?thesis
  proof (cases x)
    case None
    with T_item show ?thesis using engine_stops [of p t] by (metis surj_pair)
  next
    case (Some r)
    from a T_item Some obtain rs where
      rs: "sp_received (pl_ring p) = map Some rs @ [Some r]" "bench_loop rs (bench_init cfg (length ords) (snd (nowNs w))) = Some (pl_run p)"
      and "sp_sent (pl_ring p) = sp_received (pl_ring p) @ q" "sp_sent (pl_ring p) @ pl_todo p = map Some ords @ [None]"
      by (auto simp: pipeline_around_def spsc_around_def thread_knows_def)
    then have "map Some rs @ Some r # (q @ pl_todo p) = map Some ords @ [None]" by simp
    from received_prefix [OF this] obtain ords' where "ords = rs @ r # ords'" by blast
    with d rs(2) obtain s where "bench_submit r (pl_run p) = Some s"
      by (auto simp: runBaseline_def case_prod_beta bench_loop_append Let_def split: option.splits)
    with T_item Some show ?thesis using engine_submits by blast
  qed
next
  case (T_done ns)
  with assms(3) show ?thesis by blast
qed


definition engine_next :: "pipeline \<Rightarrow> pipeline" where
  "engine_next p =
     (case pl_thread p of
        T_start \<Rightarrow> (let (t, w) = nowNs (bn_world (pl_run p)) in p\<lparr>pl_thread := T_poll t, pl_run := (pl_run p)\<lparr>bn_world := w\<rparr>\<rparr>)
      | T_poll t \<Rightarrow>
          (let s = pl_ring p
           in case sp_consumer s of
                C_idle \<Rightarrow> p\<lparr>pl_ring := s\<lparr>sp_consumer := C_head (ring_head (sp_ring s))\<rparr>\<rparr>
              | C_head h \<Rightarrow> p\<lparr>pl_ring := s\<lparr>sp_consumer := (if h = ring_tail (sp_ring s) then C_idle else C_avail h)\<rparr>\<rparr>
              | C_avail h \<Rightarrow>
                  (case ring_slots (sp_ring s) (unat h) of
                     None \<Rightarrow> p
                   | Some x \<Rightarrow> p\<lparr>pl_ring := s\<lparr>sp_ring := (sp_ring s)\<lparr>ring_slots := (ring_slots (sp_ring s))(unat h := None)\<rparr>,
                                             sp_consumer := C_taken x h\<rparr>\<rparr>)
              | C_taken x h \<Rightarrow>
                  p\<lparr>pl_ring := s\<lparr>sp_ring := (sp_ring s)\<lparr>ring_head := ring_next (sp_ring s) h\<rparr>, sp_consumer := C_idle,
                               sp_received := sp_received s @ [x]\<rparr>, pl_thread := T_item t x\<rparr>)
      | T_item t (Some r) \<Rightarrow>
          (case bench_submit r (pl_run p) of None \<Rightarrow> p | Some s \<Rightarrow> p\<lparr>pl_run := s, pl_thread := T_poll t\<rparr>)
      | T_item t None \<Rightarrow>
          (let (t', w) = nowNs (bn_world (pl_run p)) in p\<lparr>pl_run := (pl_run p)\<lparr>bn_world := w\<rparr>, pl_thread := T_done (t' - t)\<rparr>)
      | T_done ns \<Rightarrow> p)"

lemma engine_next_turn:
  assumes "engine_turn p p'" shows "engine_turn p (engine_next p)"
  using assms
proof cases
  case (engine_begin t w)
  with engine_turn.engine_begin [OF engine_begin(2,3)] show ?thesis by (simp add: engine_next_def)
next
  case (engine_submits t r s)
  with engine_turn.engine_submits [OF engine_submits(2,3)] show ?thesis by (simp add: engine_next_def)
next
  case (engine_stops t t' w)
  with engine_turn.engine_stops [OF engine_stops(2,3)] show ?thesis by (simp add: engine_next_def)
next
  case (engine_polls t s')
  then have "engine_next p = p\<lparr>pl_ring := s'\<rparr>"
    by (auto simp: engine_next_def Let_def elim!: consumer_stepE)
  with assms engine_polls(1) show ?thesis by simp
next
  case (engine_pops t s' x)
  then have "engine_next p = p\<lparr>pl_ring := s', pl_thread := T_item t x\<rparr>"
    by (auto simp: engine_next_def Let_def elim!: consumer_stepE)
  with assms engine_pops(1) show ?thesis by simp
qed

text \<open>A schedule says which thread takes the next step; a fair one forgets neither.\<close>

primrec pipeline_exec :: "(nat \<Rightarrow> thread) \<Rightarrow> pipeline \<Rightarrow> nat \<Rightarrow> pipeline" where
  "pipeline_exec sched p 0 = p"
| "pipeline_exec sched p (Suc i) =
     (case sched i of Producer \<Rightarrow> push_next | Consumer \<Rightarrow> engine_next) (pipeline_exec sched p i)"

definition fair_schedule :: "(nat \<Rightarrow> thread) \<Rightarrow> bool" where
  "fair_schedule sched \<longleftrightarrow> (\<forall>th i. \<exists>j\<ge>i. sched j = th)"

lemma push_next_done: "producer_done p \<Longrightarrow> push_next p = p"
  by (simp add: producer_done_def push_next_def producer_next_def)

lemma producer_needed:
  assumes "pipeline_around cfg ords w n q p" and "\<not> engine_helps p" and "\<forall>ns. pl_thread p \<noteq> T_done ns"
  shows "\<not> producer_done p"
proof
  assume "producer_done p"
  moreover have "q = []" using backlog_around [OF assms(1)] assms(2) by (simp add: engine_helps_def)
  ultimately have e: "sp_received (pl_ring p) = map Some ords @ [None]"
    using assms(1) by (auto simp: producer_done_def pipeline_around_def spsc_around_def)
  from assms(2,3) obtain t where "pl_thread p = T_poll t" by (cases "pl_thread p") (simp_all add: engine_helps_def)
  with assms(1) obtain rs where "sp_received (pl_ring p) = map Some rs"
    by (auto simp: pipeline_around_def thread_knows_def)
  with e have "None \<in> set (map Some rs :: OrderRef option list)" by (metis in_set_conv_decomp)
  then show False by auto
qed

lemma exec_around:
  assumes "pipeline_around cfg ords w n q p" and "runBaseline rss cfg ords w \<noteq> None"
  shows "\<exists>q. pipeline_around cfg ords w n q (pipeline_exec sched p i)"
proof (induction i)
  case 0
  then show ?case using assms(1) by auto
next
  case (Suc i)
  let ?p = "pipeline_exec sched p i"
  from Suc obtain q where a: "pipeline_around cfg ords w n q ?p" by blast
  show ?case
  proof (cases "sched i")
    case Producer
    then show ?thesis
      using push_turn_around [OF push_next_turn a] push_next_done [of ?p] a by (cases "producer_done ?p") auto
  next
    case Consumer
    show ?thesis
    proof (cases "\<exists>ns. pl_thread ?p = T_done ns")
      case True
      then have "engine_next ?p = ?p" by (auto simp: engine_next_def)
      with a Consumer show ?thesis by auto
    next
      case False
      with engine_turn_exists [OF a assms(2)] obtain p' where "engine_turn ?p p'" by blast
      from engine_turn_around [OF engine_next_turn [OF this] a] Consumer show ?thesis by simp
    qed
  qed
qed

lemma exec_progress:
  assumes a: "pipeline_around cfg ords w n q p" and d: "runBaseline rss cfg ords w \<noteq> None"
    and run: "\<forall>ns. pl_thread p \<noteq> T_done ns"
    and p': "p' = (case th of Producer \<Rightarrow> push_next | Consumer \<Rightarrow> engine_next) p"
  shows "pipeline_measure p' < pipeline_measure p \<or>
    th \<noteq> (if engine_helps p then Consumer else Producer) \<and> pipeline_measure p' = pipeline_measure p \<and>
    engine_helps p' = engine_helps p"
proof (cases th)
  case Producer
  show ?thesis
  proof (cases "producer_done p")
    case True
    with producer_needed [OF a _ run] Producer p' show ?thesis by (auto simp: push_next_done)
  next
    case False
    with push_turn_measure [OF push_next_turn a] Producer p' show ?thesis by auto
  qed
next
  case Consumer
  from engine_turn_exists [OF a d run] obtain p1 where "engine_turn p p1" by blast
  from engine_turn_measure [OF engine_next_turn [OF this] a] Consumer p' show ?thesis by auto
qed

definition engine_done :: "pipeline \<Rightarrow> bool" where
  "engine_done p \<longleftrightarrow> (\<exists>ns. pl_thread p = T_done ns)"

lemma exec_waits:
  assumes a: "pipeline_around cfg ords w n q p" and d: "runBaseline rss cfg ords w \<noteq> None" and "i \<le> j"
    and run: "\<forall>k. \<not> engine_done (pipeline_exec sched p k)"
  shows "pipeline_measure (pipeline_exec sched p j) < pipeline_measure (pipeline_exec sched p i) \<or>
    pipeline_measure (pipeline_exec sched p j) = pipeline_measure (pipeline_exec sched p i) \<and>
    engine_helps (pipeline_exec sched p j) = engine_helps (pipeline_exec sched p i)"
  using assms(3)
proof (induction j rule: dec_induct)
  case (step j)
  from exec_around [OF a d] obtain q' where "pipeline_around cfg ords w n q' (pipeline_exec sched p j)" by blast
  from exec_progress [OF this d _ refl, of "sched j"] run step.IH show ?case by (auto simp: engine_done_def)
qed simp

lemma exec_finishes:
  assumes a: "pipeline_around cfg ords w n q p" and d: "runBaseline rss cfg ords w \<noteq> None" and fair: "fair_schedule sched"
  shows "\<exists>i. engine_done (pipeline_exec sched p i)"
proof (rule ccontr)
  let ?x = "pipeline_exec sched p"
  assume "\<nexists>i. engine_done (?x i)"
  then have run: "\<forall>k. \<not> engine_done (?x k)" by blast
  have "\<exists>j. pipeline_measure (?x j) < pipeline_measure (?x i)" for i
  proof -
    from fair obtain j where j: "i \<le> j" "sched j = (if engine_helps (?x i) then Consumer else Producer)"
      unfolding fair_schedule_def by blast
    from exec_around [OF a d] obtain q' where a': "pipeline_around cfg ords w n q' (?x j)" by blast
    have "\<forall>ns. pl_thread (?x j) \<noteq> T_done ns" using run by (auto simp: engine_done_def)
    from exec_progress [OF a' d this refl, of "sched j"] exec_waits [OF a d j(1) run] j(2)
    show ?thesis by (auto intro: exI [of _ "Suc j"] exI [of _ j])
  qed
  then have "\<exists>j. pipeline_measure (?x j) < m" if "pipeline_measure (?x i) = m" for i m using that by blast
  then have "False" if "pipeline_measure (?x i) = m" for i m
    using that by (induction m arbitrary: i rule: less_induct) blast
  then show False by blast
qed


lemma exec_reachable:
  assumes "pipeline_reachable cfg ords w p" and "unat (pipeline_capacity cfg) \<le> 2 ^ 63"
    and "runBaseline rss cfg ords w \<noteq> None"
  shows "pipeline_reachable cfg ords w (pipeline_exec sched p i)"
proof (induction i)
  case (Suc i)
  let ?p = "pipeline_exec sched p i"
  from pipeline_reachable_around [OF Suc assms(2)] obtain n q where a: "pipeline_around cfg ords w n q ?p" by blast
  show ?case
  proof (cases "sched i")
    case Producer
    with Suc pipeline_push [OF Suc push_next_turn] show ?thesis
      by (cases "producer_done ?p") (simp_all add: push_next_done)
  next
    case Consumer
    show ?thesis
    proof (cases "engine_done ?p")
      case True
      with Suc Consumer show ?thesis by (auto simp: engine_done_def engine_next_def)
    next
      case False
      then have "\<exists>p'. engine_turn ?p p'"
        by (intro engine_turn_exists [OF a assms(3)]) (auto simp: engine_done_def)
      with Consumer pipeline_engine [OF Suc engine_next_turn] show ?thesis by auto
    qed
  qed
qed (simp add: assms(1))

end
