(* ===== verification/Benchmark_Report.thy ===== *)
theory Benchmark_Report
  imports Benchmark_Runner Double_Ops Csv_Parser
begin

text \<open>
  What \<^verbatim>\<open>src/benchmark/BenchmarkRunner.cpp\<close> makes of a result: the table on the standard output
  (\<^verbatim>\<open>printTable\<close>) and the line appended to a file (\<^verbatim>\<open>saveCsv\<close>); and the report of
  \<^verbatim>\<open>src/benchmark/LatencyTimer.cpp\<close>, which no program calls.  The file system is a map from the paths that can be read to
  their contents, with the set of paths that can be opened for writing.
\<close>

section \<open>Numbers\<close>

definition modeName :: "BenchmarkMode \<Rightarrow> string" where
  "modeName m = (case m of Pool \<Rightarrow> ''pool'' | Pipeline \<Rightarrow> ''pipeline'' | Baseline \<Rightarrow> ''baseline'')"

text \<open>The loop of the lambda \<^verbatim>\<open>fmt\<close>: a comma at every third place from the right.\<close>

function insert_commas :: "string \<Rightarrow> int \<Rightarrow> string" where
  "insert_commas s pos =
     (if 0 < pos then insert_commas (take (nat pos) s @ '','' @ drop (nat pos) s) (pos - 3) else s)"
  by pat_completeness auto
termination
  by (relation "measure (\<lambda>(s, pos). nat pos)") auto

declare insert_commas.simps [simp del]

definition fmt :: "u64 \<Rightarrow> string" where
  "fmt n = (let s = to_string_u64 n in insert_commas s (int (length s) - 3))"

definition u64_double :: "u64 \<Rightarrow> double" where
  "u64_double n = to_double (of_nat (unat n))"

text \<open>A microsecond sign is the two bytes of its UTF-8 encoding.\<close>

definition us_text :: "u64 \<Rightarrow> string" where
  "us_text ns = print_double True 2 (dbl_div (u64_double ns) (Finite 1000)) @ '' '' @ [CHR 0xCE, CHR 0xBC] @ ''s''"

section \<open>The table\<close>

definition table_row :: "string \<Rightarrow> string \<Rightarrow> string" where
  "table_row label val = ''  '' @ setw_left 28 label @ val @ newline"

definition table_rule :: "string" where
  "table_rule = ''  '' @ replicate 46 (CHR ''-'') @ newline"

definition violation_line :: "InvariantViolation \<Rightarrow> string" where
  "violation_line v = ''    ['' @ iv_symbol v @ ''] '' @ iv_rule v @ '': '' @ iv_detail v @ newline"

definition table_text :: "BenchmarkResult \<Rightarrow> BenchmarkConfig \<Rightarrow> string" where
  "table_text r cfg =
     newline @ replicate 50 (CHR ''='') @ newline @
     ''  AstraExchange Benchmark ['' @ modeName (br_mode r) @ '']'' @ newline @
     replicate 50 (CHR ''='') @ newline @
     table_row ''Orders submitted:'' (fmt (br_submitted r)) @
     table_row ''Orders accepted:'' (fmt (br_accepted r)) @
     table_row ''Orders rejected:'' (fmt (br_rejected r)) @
     table_row ''Cancels processed:'' (fmt (br_cancels r)) @
     table_row ''Trades generated:'' (fmt (br_trades r)) @
     table_row ''Symbols:'' (to_string_u64 (of_nat (length (bc_symbols cfg)))) @
     table_rule @
     table_row ''Throughput:''
       (print_double True 2 (dbl_div (u64_double (st_throughput (br_latency r))) (Finite 1000000)) @ '' M orders/sec'') @
     table_row ''p50 latency:'' (us_text (st_p50 (br_latency r))) @
     table_row ''p95 latency:'' (us_text (st_p95 (br_latency r))) @
     table_row ''p99 latency:'' (us_text (st_p99 (br_latency r))) @
     table_row ''Max latency:'' (us_text (st_max (br_latency r))) @
     (if 0 < br_memoryKB r
      then table_row ''Memory usage:'' (print_double True 1 (dbl_div (u64_double (br_memoryKB r)) (Finite 1024)) @ '' MB (RSS)'')
      else '''') @
     table_rule @
     (if rep_passed (br_invariants r)
      then ''  Invariants: PASS (all '' @ (if bc_verify cfg then ''checked'' else ''skipped'') @ '')'' @ newline
      else ''  Invariants: FAIL'' @ newline @ concat (map violation_line (rep_violations (br_invariants r)))) @
     replicate 50 (CHR ''='') @ newline @ newline"

definition printTable :: "BenchmarkResult \<Rightarrow> BenchmarkConfig \<Rightarrow> io \<Rightarrow> io" where
  "printTable r cfg = put (table_text r cfg)"

section \<open>The file\<close>

record filesys =
  fs_files :: "string \<Rightarrow> string option"
  fs_writable :: "string \<Rightarrow> bool"

definition csv_header :: string where
  "csv_header =
     ''mode,orders_submitted,orders_accepted,orders_rejected,'' @
     ''cancels_processed,trades_generated,symbols,'' @
     ''throughput_ops_per_sec,p50_ns,p95_ns,p99_ns,max_ns,'' @
     ''memory_kb,invariants_passed'' @ newline"

definition csv_row :: "BenchmarkResult \<Rightarrow> BenchmarkConfig \<Rightarrow> string" where
  "csv_row r cfg =
     modeName (br_mode r) @ '','' @ to_string_u64 (br_submitted r) @ '','' @ to_string_u64 (br_accepted r) @ '','' @
     to_string_u64 (br_rejected r) @ '','' @ to_string_u64 (br_cancels r) @ '','' @ to_string_u64 (br_trades r) @ '','' @
     to_string_u64 (of_nat (length (bc_symbols cfg))) @ '','' @ to_string_u64 (st_throughput (br_latency r)) @ '','' @
     to_string_u64 (st_p50 (br_latency r)) @ '','' @ to_string_u64 (st_p95 (br_latency r)) @ '','' @
     to_string_u64 (st_p99 (br_latency r)) @ '','' @ to_string_u64 (st_max (br_latency r)) @ '','' @
     to_string_u64 (br_memoryKB r) @ '','' @ (if rep_passed (br_invariants r) then ''true'' else ''false'') @ newline"

definition saveCsv :: "BenchmarkResult \<Rightarrow> BenchmarkConfig \<Rightarrow> string \<Rightarrow> filesys \<times> io \<Rightarrow> filesys \<times> io" where
  "saveCsv r cfg path = (\<lambda>(fs, i).
     let writeHeader = (fs_files fs path = None)
     in if \<not> fs_writable fs path then (fs, put_err (''Warning: cannot write CSV to '' @ path @ newline) i)
        else (let old = (case fs_files fs path of None \<Rightarrow> '''' | Some c \<Rightarrow> c);
                  txt = (if writeHeader then csv_header else '''') @ csv_row r cfg
              in (fs\<lparr>fs_files := (fs_files fs)(path \<mapsto> old @ txt)\<rparr>, i)))"

section \<open>The report of the timer\<close>

text \<open>On any stream; the fixed notation stays set on it.\<close>

definition printReport :: "string \<Rightarrow> u64 \<Rightarrow> LatencyTimer \<Rightarrow> io \<Rightarrow> io option" where
  "printReport label wallNs t i =
     map_option (\<lambda>st.
       set_fixed 2 (put
         (newline @ ''--- '' @ label @ '' ---'' @ newline @
          ''Orders processed : '' @ to_string_u64 (st_count st) @ newline @
          ''Mean latency     : '' @ us_text (st_mean st) @ newline @
          ''p50  latency     : '' @ us_text (st_p50 st) @ newline @
          ''p95  latency     : '' @ us_text (st_p95 st) @ newline @
          ''p99  latency     : '' @ us_text (st_p99 st) @ newline @
          ''Max  latency     : '' @ us_text (st_max st) @ newline @
          (if 0 < st_throughput st
           then ''Throughput       : '' @ to_string_u64 (st_throughput st div 1000) @ '' K orders/sec'' @ newline else '''')) i))
       (timer_compute wallNs t)"

section \<open>Separators\<close>

text \<open>Commas are all that is added, and what stands behind the first one comes in groups of three.\<close>

fun grouped :: "string \<Rightarrow> bool" where
  "grouped [] \<longleftrightarrow> True"
| "grouped (c # cs) \<longleftrightarrow> c = CHR '','' \<and> 3 \<le> length cs \<and> CHR '','' \<notin> set (take 3 cs) \<and> grouped (drop 3 cs)"

section \<open>Separators\<close>

text \<open>The loop on a number of which the places from some point on have been separated.\<close>

lemma insert_commas_groups:
  assumes "s \<noteq> []"
  shows "\<exists>h gs. insert_commas (s @ t) (int (length s) - 3) = h @ concat (map (Cons (CHR '','')) gs) @ t \<and>
    s = h @ concat gs \<and> h \<noteq> [] \<and> length h \<le> 3 \<and> (\<forall>g\<in>set gs. length g = 3)"
  using assms
proof (induction "length s" arbitrary: s t rule: less_induct)
  case less
  show ?case
  proof (cases "length s \<le> 3")
    case True
    then have "insert_commas (s @ t) (int (length s) - 3) = s @ t" by (subst insert_commas.simps) simp
    with True less.prems show ?thesis by (intro exI [of _ s] exI [of _ "[]"]) simp
  next
    case False
    let ?k = "length s - 3" and ?t = "'','' @ drop (length s - 3) s @ t"
    have n: "nat (int (length s) - 3) = ?k" by arith
    have "insert_commas (s @ t) (int (length s) - 3) = insert_commas (take ?k s @ ?t) (int (length (take ?k s)) - 3)"
      using False n by (subst insert_commas.simps) simp
    also have "length (take ?k s) < length s" "take ?k s \<noteq> []" using False by auto
    from less.hyps [OF this, of ?t] obtain h gs where
      h: "insert_commas (take ?k s @ ?t) (int (length (take ?k s)) - 3) = h @ concat (map (Cons (CHR '','')) gs) @ ?t"
        "take ?k s = h @ concat gs" "h \<noteq> []" "length h \<le> 3" "\<forall>g\<in>set gs. length g = 3" by blast
    note h(1)
    finally have c: "insert_commas (s @ t) (int (length s) - 3) = h @ concat (map (Cons (CHR '','')) gs) @ ?t" .
    have "s = (h @ concat gs) @ drop ?k s" unfolding h(2) [symmetric] by simp
    moreover have "length (drop ?k s) = 3" using False by simp
    ultimately show ?thesis using c h(3-5)
      by (intro exI [of _ h] exI [of _ "gs @ [drop ?k s]"]) auto
  qed
qed

lemma fmt_groups:
  "\<exists>h gs. fmt n = h @ concat (map (Cons (CHR '','')) gs) \<and> to_string_u64 n = h @ concat gs \<and> h \<noteq> [] \<and> length h \<le> 3 \<and>
    (\<forall>g\<in>set gs. length g = 3)"
  using insert_commas_groups [OF to_string_not_Nil, of n "[]"] by (simp add: fmt_def Let_def)

section \<open>Reading the file back\<close>

definition csv_columns :: "string list" where
  "csv_columns =
     [''mode'', ''orders_submitted'', ''orders_accepted'', ''orders_rejected'', ''cancels_processed'', ''trades_generated'',
      ''symbols'', ''throughput_ops_per_sec'', ''p50_ns'', ''p95_ns'', ''p99_ns'', ''max_ns'', ''memory_kb'', ''invariants_passed'']"

definition csv_numbers :: "BenchmarkResult \<Rightarrow> BenchmarkConfig \<Rightarrow> u64 list" where
  "csv_numbers r cfg =
     [br_submitted r, br_accepted r, br_rejected r, br_cancels r, br_trades r, of_nat (length (bc_symbols cfg)),
      st_throughput (br_latency r), st_p50 (br_latency r), st_p95 (br_latency r), st_p99 (br_latency r), st_max (br_latency r),
      br_memoryKB r]"

lemma mode_no_separator: "CHR '','' \<notin> set (modeName m)" "CHR 0x0A \<notin> set (modeName m)"
  by (cases m; simp add: modeName_def)+

lemma modeName_inject: "modeName m = modeName m' \<longleftrightarrow> m = m'"
  by (cases m; cases m'; simp add: modeName_def)

lemma csv_header_line: "csv_header = butlast csv_header @ newline" "CHR 0x0A \<notin> set (butlast csv_header)"
  "csv_split (butlast csv_header) (CHR '','') = csv_columns"
  by (simp_all add: csv_header_def csv_split_def csv_columns_def getlines.simps)

lemma csv_row_line:
  "csv_row r cfg = butlast (csv_row r cfg) @ newline" "CHR 0x0A \<notin> set (butlast (csv_row r cfg))"
  "csv_split (butlast (csv_row r cfg)) (CHR '','') =
    modeName (br_mode r) # map to_string_u64 (csv_numbers r cfg) @ [if rep_passed (br_invariants r) then ''true'' else ''false'']"
proof -
  obtain l where l: "csv_row r cfg = l @ newline"
    "l = modeName (br_mode r) @ '','' @ to_string_u64 (br_submitted r) @ '','' @ to_string_u64 (br_accepted r) @ '','' @
     to_string_u64 (br_rejected r) @ '','' @ to_string_u64 (br_cancels r) @ '','' @ to_string_u64 (br_trades r) @ '','' @
     to_string_u64 (of_nat (length (bc_symbols cfg))) @ '','' @ to_string_u64 (st_throughput (br_latency r)) @ '','' @
     to_string_u64 (st_p50 (br_latency r)) @ '','' @ to_string_u64 (st_p95 (br_latency r)) @ '','' @
     to_string_u64 (st_p99 (br_latency r)) @ '','' @ to_string_u64 (st_max (br_latency r)) @ '','' @
     to_string_u64 (br_memoryKB r) @ '','' @ (if rep_passed (br_invariants r) then ''true'' else ''false'')"
    unfolding csv_row_def by simp
  have b: "butlast (csv_row r cfg) = l" unfolding l(1) by (rule butlast_snoc)
  show "csv_row r cfg = butlast (csv_row r cfg) @ newline" unfolding b by (rule l(1))
  show "CHR 0x0A \<notin> set (butlast (csv_row r cfg))"
    unfolding b l(2) by (simp add: digits_no_comma mode_no_separator)
  show "csv_split (butlast (csv_row r cfg)) (CHR '','') =
    modeName (br_mode r) # map to_string_u64 (csv_numbers r cfg) @ [if rep_passed (br_invariants r) then ''true'' else ''false'']"
    unfolding b l(2) csv_split_def csv_numbers_def
    by (simp add: getlines_token getlines_last digits_no_comma mode_no_separator to_string_not_Nil)
qed

fun save_all :: "(BenchmarkResult \<times> BenchmarkConfig) list \<Rightarrow> string \<Rightarrow> filesys \<times> io \<Rightarrow> filesys \<times> io" where
  "save_all [] path s = s"
| "save_all ((r, cfg) # rs) path s = save_all rs path (saveCsv r cfg path s)"

lemma save_all_appends:
  "fs_files fs path = Some c \<Longrightarrow> fs_writable fs path \<Longrightarrow>
   save_all rs path (fs, i) =
     (fs\<lparr>fs_files := (fs_files fs)(path \<mapsto> c @ concat (map (\<lambda>(r, cfg). csv_row r cfg) rs))\<rparr>, i)"
  by (induction rs arbitrary: fs c) (auto simp: saveCsv_def fun_upd_idem)

lemma save_all_file:
  assumes "fs_files fs path = None" and "fs_writable fs path" and "rs \<noteq> []"
  shows "save_all rs path (fs, i) =
    (fs\<lparr>fs_files := (fs_files fs)(path \<mapsto> csv_header @ concat (map (\<lambda>(r, cfg). csv_row r cfg) rs))\<rparr>, i)"
proof -
  from assms(3) obtain r cfg rest where rs: "rs = (r, cfg) # rest" by (cases rs) auto
  let ?fs = "fs\<lparr>fs_files := (fs_files fs)(path \<mapsto> csv_header @ csv_row r cfg)\<rparr>"
  have "saveCsv r cfg path (fs, i) = (?fs, i)" using assms(1,2) by (simp add: saveCsv_def)
  then show ?thesis
    using save_all_appends [of ?fs path "csv_header @ csv_row r cfg" rest i] assms(2) rs by simp
qed

lemma saved_file_lines:
  "map (\<lambda>l. csv_split l (CHR '','')) (getlines (CHR 0x0A) (csv_header @ concat (map (\<lambda>(r, cfg). csv_row r cfg) rs))) =
   csv_columns # map (\<lambda>(r, cfg). modeName (br_mode r) # map to_string_u64 (csv_numbers r cfg) @
     [if rep_passed (br_invariants r) then ''true'' else ''false'']) rs"
proof -
  let ?ls = "butlast csv_header # map (\<lambda>(r, cfg). butlast (csv_row r cfg)) rs"
  have "concat (map (\<lambda>(r, cfg). csv_row r cfg) rs) = concat (map (\<lambda>l. l @ newline) (map (\<lambda>(r, cfg). butlast (csv_row r cfg)) rs))"
    by (induction rs) (auto simp flip: csv_row_line(1))
  then have "csv_header @ concat (map (\<lambda>(r, cfg). csv_row r cfg) rs) = concat (map (\<lambda>l. l @ newline) ?ls)"
    using csv_header_line(1) by simp
  moreover have "getlines (CHR 0x0A) (concat (map (\<lambda>l. l @ newline) ?ls)) = ?ls"
    by (rule getlines_unlines) (auto simp: csv_header_line(2) csv_row_line(2))
  ultimately show ?thesis by (simp add: csv_header_line(3) csv_row_line(3) case_prod_beta)
qed

end
