(* ===== verification/Exchange_Bench.thy ===== *)
theory Exchange_Bench
  imports Command_Line Std_Stream
begin

text \<open>
  \<^verbatim>\<open>main\<close> of \<^verbatim>\<open>src/exchange_bench.cpp\<close> up to the call of the runner: the usage text, the reaction to the
  command line, and the line that announces the run.
\<close>

definition bench_usage :: "string \<Rightarrow> string" where
  "bench_usage argv0 =
     ''Usage: '' @ argv0 @ '' [options]'' @ newline @
     newline @ ''Options:'' @ newline @
     ''  --orders N          Number of orders (default: 1000000)'' @ newline @
     ''  --symbols SYM,...   Comma-separated symbols (default: AAPL,MSFT,NVDA,TSLA)'' @ newline @
     ''  --symbols N         Number of symbols from default list'' @ newline @
     ''  --seed N            RNG seed (default: 42)'' @ newline @
     ''  --csv PATH          Append results to CSV (default: benchmark-results.csv)'' @ newline @
     ''  --no-verify         Skip invariant checking'' @ newline @
     ''  --no-csv            Disable CSV output'' @ newline @
     ''  --pool              Use MemoryPool allocator (single-threaded)'' @ newline @
     ''  --pipeline          Use SPSC ring-buffer pipeline (2 threads)'' @ newline @
     ''  --ring-size N       Pipeline ring buffer capacity (default: 16384)'' @ newline @
     newline @ ''Examples:'' @ newline @
     ''  '' @ argv0 @ '' --orders 1000000'' @ newline @
     ''  '' @ argv0 @ '' --orders 1000000 --pool'' @ newline @
     ''  '' @ argv0 @ '' --orders 1000000 --pipeline'' @ newline @
     ''  '' @ argv0 @ '' --orders 10000000 --no-verify --no-csv'' @ newline"

definition bench_mode_text :: "BenchmarkMode \<Rightarrow> string" where
  "bench_mode_text m = (if m = Pool then '' [pool]'' else if m = Pipeline then '' [pipeline]'' else '''')"

definition bench_announce :: "BenchmarkConfig \<Rightarrow> string" where
  "bench_announce cfg =
     ''Running benchmark'' @ bench_mode_text (bc_mode cfg) @ '': '' @ to_string_u64 (bc_orderCount cfg) @
     '' orders, '' @ to_string_u64 (of_nat (length (bc_symbols cfg))) @ '' symbol(s)...'' @ newline"

text \<open>The exit status, or the configuration to run; \<open>None\<close> is the exception nobody catches.\<close>

definition bench_start :: "string \<Rightarrow> string list \<Rightarrow> io \<Rightarrow> (int + BenchmarkConfig) option \<times> io" where
  "bench_start argv0 args i =
     (case bench_parse args BenchmarkConfig_default of
        Bench_uncaught \<Rightarrow> (None, i)
      | Bench_help \<Rightarrow> (Some (Inl 0), put_err (bench_usage argv0) i)
      | Bench_unknown a \<Rightarrow> (Some (Inl 1), put_err (''Unknown option: '' @ a @ newline @ bench_usage argv0) i)
      | Bench_run cfg \<Rightarrow> (Some (Inr cfg), put (bench_announce cfg) i))"

end
