(* ===== verification/Benchmark_Program.thy ===== *)
theory Benchmark_Program
  imports Generator_Stream Replay_Engine Pool_Run Pipeline_Run Benchmark_Report Exchange_Bench
begin

text \<open>
  \<^verbatim>\<open>BenchmarkRunner::run\<close> and \<^verbatim>\<open>main\<close> of \<^verbatim>\<open>src/exchange_bench.cpp\<close>: generate the orders, run them in
  the configured mode, append the result to the file, print the table.  What the random
  distributions draw, the resident set size and the scheduling of the two threads come from the
  environment.
\<close>

section \<open>Waiting for the engine thread\<close>

fun thread_ended :: "engine_thread \<Rightarrow> bool" where
  "thread_ended (T_done ns) = True"
| "thread_ended _ = False"

text \<open>
  The calling thread pushes, then joins: it goes on once everything is pushed and the engine thread
  has ended.  A schedule under which that never happens, or a submission that is undefined, has no result.
\<close>

partial_function (option) pipeline_join :: "(nat \<Rightarrow> thread) \<Rightarrow> nat \<Rightarrow> pipeline \<Rightarrow> pipeline option" where
  "pipeline_join sched i p =
     (if producer_done p \<and> thread_ended (pl_thread p) then Some p
      else pipeline_join sched (Suc i) ((case sched i of Producer \<Rightarrow> push_next | Consumer \<Rightarrow> engine_next) p))"

definition runPipeline ::
  "u64 \<Rightarrow> BenchmarkConfig \<Rightarrow> (nat \<Rightarrow> thread) \<Rightarrow> OrderRef list \<Rightarrow> world \<Rightarrow> (BenchmarkResult \<times> world) option" where
  "runPipeline rss cfg sched ords w = do {
     p \<leftarrow> pipeline_new cfg ords w;
     p' \<leftarrow> pipeline_join sched 0 p;
     pipeline_result rss cfg p' }"

section \<open>The runner\<close>

record 'g bench_env =
  be_draws :: "'g draws"
  be_apple :: bool
  be_usage :: "i64 option"
  be_sched :: "nat \<Rightarrow> thread"

definition be_rss :: "'g bench_env \<Rightarrow> u64" where
  "be_rss env = currentRssKB (be_apple env) (be_usage env)"

definition generator_config :: "BenchmarkConfig \<Rightarrow> GeneratorConfig" where
  "generator_config cfg =
     GeneratorConfig_default\<lparr>gc_count := bc_orderCount cfg, gc_symbols := bc_symbols cfg, gc_seed := bc_seed cfg\<rparr>"

text \<open>The mode's run over the orders at the addresses below \<open>n\<close>; copies go above them.\<close>

definition run_mode :: "'g bench_env \<Rightarrow> BenchmarkConfig \<Rightarrow> nat \<Rightarrow> world \<Rightarrow> (pool_error + (BenchmarkResult \<times> world)) option" where
  "run_mode env cfg n w =
     (case bc_mode cfg of
        Pool \<Rightarrow> runPool (be_rss env) cfg [0..<n] n w
      | Pipeline \<Rightarrow> map_option Inr (runPipeline (be_rss env) cfg (be_sched env) [0..<n] w)
      | Baseline \<Rightarrow> map_option Inr (runBaseline (be_rss env) cfg [0..<n] w))"

definition runner_run ::
  "'g bench_env \<Rightarrow> BenchmarkConfig \<Rightarrow> filesys \<times> io \<Rightarrow> world \<Rightarrow> (pool_error + (BenchmarkResult \<times> (filesys \<times> io) \<times> world)) option" where
  "runner_run env cfg s w = do {
     (os, g) \<leftarrow> generate (be_draws env) (generator_config cfg) (OrderGenerator_new (be_draws env) (generator_config cfg));
     out \<leftarrow> run_mode env cfg (length os) (alloc_orders 0 os w);
     Some (case out of
         Inl err \<Rightarrow> Inl err
       | Inr (res, w') \<Rightarrow>
           (let res' = res\<lparr>br_mode := bc_mode cfg\<rparr>
            in Inr (res', if bc_csvOutput cfg \<noteq> '''' then saveCsv res' cfg (bc_csvOutput cfg) s else s, w'))) }"

section \<open>The program\<close>

text \<open>The exit status with the files and the output; an uncaught exception has none.\<close>

definition bench_main ::
  "'g bench_env \<Rightarrow> string \<Rightarrow> string list \<Rightarrow> filesys \<Rightarrow> world \<Rightarrow> (int option \<times> filesys \<times> io) option" where
  "bench_main env argv0 args fs w =
     (case bench_start argv0 args io_start of
        (None, i) \<Rightarrow> Some (None, fs, i)
      | (Some (Inl st), i) \<Rightarrow> Some (Some st, fs, i)
      | (Some (Inr cfg), i) \<Rightarrow>
          (case runner_run env cfg (fs, i) w of
             None \<Rightarrow> None
           | Some (Inl err) \<Rightarrow> Some (None, fs, i)
           | Some (Inr (res, (fs', i'), w')) \<Rightarrow>
               (let i1 = printTable res cfg i';
                    i2 = (if bc_csvOutput cfg \<noteq> '''' then put (''Results appended to: '' @ bc_csvOutput cfg @ newline) i1 else i1)
                in Some (Some (if rep_passed (br_invariants res) then 0 else 1), fs', i2))))"

section \<open>The two-threaded run ends with the result of the single-threaded one\<close>

lemma thread_ended_iff: "thread_ended (pl_thread p) \<longleftrightarrow> engine_done p"
  by (cases "pl_thread p") (simp_all add: engine_done_def)

lemma join_reaches:
  assumes "producer_done (pipeline_exec sched p (k + n))" and "engine_done (pipeline_exec sched p (k + n))"
  shows "\<exists>j. pipeline_join sched k (pipeline_exec sched p k) = Some (pipeline_exec sched p j) \<and>
    engine_done (pipeline_exec sched p j)"
  using assms
proof (induction n arbitrary: k)
  case 0
  then show ?case by (subst pipeline_join.simps) (auto simp: thread_ended_iff)
next
  case (Suc n)
  let ?p = "pipeline_exec sched p k"
  show ?case
  proof (cases "producer_done ?p \<and> engine_done ?p")
    case True
    then show ?thesis by (subst pipeline_join.simps) (auto simp: thread_ended_iff)
  next
    case False
    then have "pipeline_join sched k ?p = pipeline_join sched (Suc k) (pipeline_exec sched p (Suc k))"
      by (subst pipeline_join.simps) (auto simp: thread_ended_iff)
    with Suc.IH [of "Suc k"] Suc.prems show ?thesis by simp
  qed
qed

lemma runPipeline_baseline:
  assumes cap: "unat (pipeline_capacity cfg) \<le> 2 ^ 63" and d: "runBaseline rss cfg ords w \<noteq> None"
    and fair: "fair_schedule sched"
  shows "runPipeline rss cfg sched ords w = runBaseline rss cfg ords w"
proof -
  from ring_new_holds [OF cap] obtain p where p: "pipeline_new cfg ords w = Some p"
    by (auto simp: pipeline_new_def)
  from pipeline_new_around [OF p cap] obtain n where a: "pipeline_around cfg ords w n [] p" by blast
  have fin: "producer_done (pipeline_exec sched p i) \<and> pipeline_result rss cfg (pipeline_exec sched p i) = runBaseline rss cfg ords w"
    if e: "engine_done (pipeline_exec sched p i)" for i
  proof -
    from exec_around [OF a d] obtain q where q: "pipeline_around cfg ords w n q (pipeline_exec sched p i)" by blast
    from e obtain ns where "pl_thread (pipeline_exec sched p i) = T_done ns" by (auto simp: engine_done_def)
    with done_around(1) [OF q] pipeline_result_baseline [OF q] show ?thesis by simp
  qed
  from exec_finishes [OF a d fair] obtain i where i: "engine_done (pipeline_exec sched p i)" by blast
  from join_reaches [of sched p 0 i] fin [OF i] i obtain j where
    j: "pipeline_join sched 0 p = Some (pipeline_exec sched p j)" "engine_done (pipeline_exec sched p j)" by auto
  show ?thesis using p j(1) fin [OF j(2)] by (simp add: runPipeline_def)
qed

section \<open>The generated orders as the world of a run\<close>

lemma generated_quantity:
  assumes "generated_stream syms os" and "x \<in> set os" shows "unat (oquantity x) \<le> 500" and "ofilledQty x = 0"
proof -
  have "if otype x = CANCEL then x = Order_new (oid x) (osymbol x) BUY CANCEL 0 1 (otimestamp x) else generated_order syms x"
    using assms by (simp add: generated_stream_def)
  moreover have "unat (oquantity (Order_new i sy sd ty p 1 ts)) \<le> 500" "ofilledQty (Order_new i sy sd ty p 1 ts) = 0"
    for i sy sd ty p ts by (simp_all add: Order_new_def)
  ultimately show "unat (oquantity x) \<le> 500" "ofilledQty x = 0"
    by (cases "otype x = CANCEL"; simp add: generated_order_def; metis)+
qed


lemma generated_world:
  assumes s: "generated_stream syms os" and n: "length os \<le> 2 ^ 31" and w: "fresh_world w"
  shows "fresh_world (alloc_orders 0 os w)" and "quantity_upto (length os) (alloc_orders 0 os w) < 2 ^ 64"
proof -
  let ?w = "alloc_orders 0 os w"
  note h = alloc_orders_heap [of 0 os w]
  show "fresh_world ?w"
    using w generated_quantity(2) [OF s] by (simp add: fresh_world_def h)
  have "unat (oquantity (heap ?w r)) \<le> 500" if "r < length os" for r
    using that generated_quantity(1) [OF s, of "os ! r"] by (simp add: h)
  then have "quantity_upto (length os) ?w \<le> (\<Sum>r\<in>{..<length os}. 500)"
    unfolding quantity_upto_def by (intro sum_mono) simp
  also have "\<dots> = 500 * length os" by simp
  also have "\<dots> < 2 ^ 64" using n by simp
  finally show "quantity_upto (length os) ?w < 2 ^ 64" .
qed

section \<open>The whole run\<close>

text \<open>What the environment and the configuration must satisfy; for a pipeline also the ring and the schedule.\<close>

definition runnable :: "'g bench_env \<Rightarrow> BenchmarkConfig \<Rightarrow> bool" where
  "runnable env cfg \<longleftrightarrow>
     lawful_draws (be_draws env) \<and> bc_symbols cfg \<noteq> [] \<and> length (bc_symbols cfg) < 2 ^ 64 \<and>
     unat (bc_orderCount cfg) \<le> 2 ^ 31 \<and>
     (bc_mode cfg = Pipeline \<longrightarrow> unat (pipeline_capacity cfg) \<le> 2 ^ 63 \<and> fair_schedule (be_sched env))"

lemma generator_config_simps [simp]:
  "gc_symbols (generator_config cfg) = bc_symbols cfg" "gc_count (generator_config cfg) = bc_orderCount cfg"
  by (simp_all add: generator_config_def)

lemma generated_baseline:
  assumes r: "runnable env cfg" and w: "fresh_world w"
  shows "\<exists>os g res w' tr s.
    generate (be_draws env) (generator_config cfg) (OrderGenerator_new (be_draws env) (generator_config cfg)) = Some (os, g) \<and>
    generated_stream (bc_symbols cfg) os \<and> length os = unat (bc_orderCount cfg) \<and>
    runBaseline (be_rss env) cfg [0..<length os] (alloc_orders 0 os w) = Some (res, w') \<and>
    bench_loop [0..<length os] (bench_init cfg (length os) (snd (nowNs (alloc_orders 0 os w)))) = Some s \<and>
    engine_run (MatchingEngine_new, alloc_orders 0 os w) tr (bn_engine s, bn_world s) \<and> submits tr = [0..<length os] \<and>
    br_submitted res = bc_orderCount cfg \<and> br_accepted res + br_rejected res = br_submitted res \<and>
    br_trades res = of_nat (length (run_trades tr)) \<and> br_invariants res = Report_ok"
proof -
  have d: "lawful_draws (be_draws env)" "gc_symbols (generator_config cfg) \<noteq> []" "length (gc_symbols (generator_config cfg)) < 2 ^ 64"
    using r by (simp_all add: runnable_def)
  from generate_stream [OF d] obtain os g where
    g: "generate (be_draws env) (generator_config cfg) (OrderGenerator_new (be_draws env) (generator_config cfg)) = Some (os, g)"
      "length os = unat (bc_orderCount cfg)" "generated_stream (bc_symbols cfg) os" by auto
  have n: "length os \<le> 2 ^ 31" using r g(2) by (simp add: runnable_def)
  from baseline_runs [OF generated_world [OF g(3) n w] n, of "be_rss env" cfg] obtain res w' tr s where
    b: "runBaseline (be_rss env) cfg [0..<length os] (alloc_orders 0 os w) = Some (res, w')"
      "bench_loop [0..<length os] (bench_init cfg (length os) (snd (nowNs (alloc_orders 0 os w)))) = Some s"
      "engine_run (MatchingEngine_new, alloc_orders 0 os w) tr (bn_engine s, bn_world s)" "submits tr = [0..<length os]"
      "br_submitted res = of_nat (length os)" "br_accepted res + br_rejected res = br_submitted res"
      "br_trades res = of_nat (length (run_trades tr))" "br_invariants res = Report_ok"
    by (elim exE conjE) (rule that)
  have "br_submitted res = bc_orderCount cfg" unfolding b(5) g(2) by simp
  with g b show ?thesis by blast
qed

lemma run_mode_baseline:
  assumes r: "runnable env cfg" and m: "bc_mode cfg \<noteq> Pool"
    and b: "runBaseline (be_rss env) cfg [0..<n] w = Some out"
  shows "run_mode env cfg n w = Some (Inr out)"
proof (cases "bc_mode cfg")
  case Pipeline
  have "runPipeline (be_rss env) cfg (be_sched env) [0..<n] w = runBaseline (be_rss env) cfg [0..<n] w"
    using r Pipeline b by (intro runPipeline_baseline) (simp_all add: runnable_def)
  with Pipeline b show ?thesis by (simp add: run_mode_def)
qed (use m b in \<open>simp_all add: run_mode_def\<close>)

text \<open>The pool mode is defined when nothing rests at the end, and then has the same result.\<close>

definition rests_at_end :: "BenchmarkConfig \<Rightarrow> MatchingEngine \<Rightarrow> bool" where
  "rests_at_end cfg e \<longleftrightarrow> (\<exists>s\<in>set (bc_symbols cfg). refs_of e s \<noteq> [])"

lemma run_mode_pool:
  assumes m: "bc_mode cfg = Pool" and w: "fresh_world w" and total: "quantity_upto n w < 2 ^ 64" and n: "n \<le> 2 ^ 31"
    and b: "runBaseline (be_rss env) cfg [0..<n] w = Some (res, w')"
    and s: "bench_loop [0..<n] (bench_init cfg n (snd (nowNs w))) = Some s"
  shows "\<exists>w'. run_mode env cfg n w = (if rests_at_end cfg (bn_engine s) then None else Some (Inr (res, w')))"
proof -
  from pool_runs [OF w total n, of "be_rss env" cfg] b s obtain p where
    p: "runPool_result (be_rss env) cfg [0..<n] n w = Some (Inr (res, p))"
      "\<forall>sy. refs_of (bn_engine (pr_run p)) sy = [] \<longleftrightarrow> refs_of (bn_engine s) sy = []" by auto
  then have "run_mode env cfg n w =
      (if rests_at_end cfg (bn_engine s) then None else Some (Inr (res, bn_world (pr_run p))))"
    using m by (auto simp: run_mode_def runPool_def rests_at_end_def)
  then show ?thesis by blast
qed

lemma runner_runs:
  assumes r: "runnable env cfg" and w: "fresh_world w"
  shows "\<exists>os g res w' tr st.
    generate (be_draws env) (generator_config cfg) (OrderGenerator_new (be_draws env) (generator_config cfg)) = Some (os, g) \<and>
    engine_run (MatchingEngine_new, alloc_orders 0 os w) tr st \<and> submits tr = [0..<unat (bc_orderCount cfg)] \<and>
    runner_run env cfg s w =
      (if bc_mode cfg = Pool \<and> rests_at_end cfg (fst st) then None
       else Some (Inr (res, if bc_csvOutput cfg \<noteq> '''' then saveCsv res cfg (bc_csvOutput cfg) s else s, w'))) \<and>
    br_mode res = bc_mode cfg \<and> br_submitted res = bc_orderCount cfg \<and> br_accepted res + br_rejected res = br_submitted res \<and>
    br_trades res = of_nat (length (run_trades tr)) \<and> br_invariants res = Report_ok"
proof -
  from generated_baseline [OF r w] obtain os g res w' tr q where
    g: "generate (be_draws env) (generator_config cfg) (OrderGenerator_new (be_draws env) (generator_config cfg)) = Some (os, g)"
      "generated_stream (bc_symbols cfg) os" "length os = unat (bc_orderCount cfg)"
    and b: "runBaseline (be_rss env) cfg [0..<length os] (alloc_orders 0 os w) = Some (res, w')"
    and l: "bench_loop [0..<length os] (bench_init cfg (length os) (snd (nowNs (alloc_orders 0 os w)))) = Some q"
    and e: "engine_run (MatchingEngine_new, alloc_orders 0 os w) tr (bn_engine q, bn_world q)" "submits tr = [0..<length os]"
    and c: "br_submitted res = bc_orderCount cfg" "br_accepted res + br_rejected res = br_submitted res"
      "br_trades res = of_nat (length (run_trades tr))" "br_invariants res = Report_ok"
    by (elim exE conjE) (rule that)
  let ?res = "res\<lparr>br_mode := bc_mode cfg\<rparr>"
  have n: "length os \<le> 2 ^ 31" using r g(3) by (simp add: runnable_def)
  obtain w2 where "run_mode env cfg (length os) (alloc_orders 0 os w) =
      (if bc_mode cfg = Pool \<and> rests_at_end cfg (bn_engine q) then None else Some (Inr (res, w2)))"
  proof (cases "bc_mode cfg = Pool")
    case True
    from run_mode_pool [OF True generated_world [OF g(2) n w] n b l] True show ?thesis by (auto intro: that)
  next
    case False
    with run_mode_baseline [OF r False b] show ?thesis by (auto intro: that)
  qed
  then have "runner_run env cfg s w =
      (if bc_mode cfg = Pool \<and> rests_at_end cfg (bn_engine q) then None
       else Some (Inr (?res, if bc_csvOutput cfg \<noteq> '''' then saveCsv ?res cfg (bc_csvOutput cfg) s else s, w2)))"
    unfolding runner_run_def g(1) by (simp add: Let_def)
  with g e c show ?thesis
    by (intro exI [of _ os] exI [of _ g] exI [of _ ?res] exI [of _ w2] exI [of _ tr] exI [of _ "(bn_engine q, bn_world q)"]) simp
qed

end
