(* ===== verification/Benchmark_Spec.thy ===== *)
theory Benchmark_Spec
  imports Benchmark_Program
begin

text \<open>
  A benchmark run as a function of values: the results of a session of the value-based engine over the
  list of orders, with one reading of the clock before and one after each.  The loop of the
  runner computes this session; from it follows what becomes of the generated orders.
\<close>

section \<open>Sessions\<close>

fun spec_session ::
  "Order list \<Rightarrow> (nat \<Rightarrow> Timestamp) \<Rightarrow> nat \<Rightarrow> aengine \<Rightarrow> EngineResult list \<times> aengine \<times> nat" where
  "spec_session [] clk t a = ([], a, t)"
| "spec_session (x # xs) clk t a =
     (let (res, a1, t1) = spec_submit x clk (Suc t) a;
          (rs, a2, t2) = spec_session xs clk (Suc t1) a1
      in (res # rs, a2, t2))"

lemma spec_session_same:
  "list_all2 same_order xs ys \<Longrightarrow> spec_session xs clk t a = spec_session ys clk t a"
  by (induction xs ys arbitrary: t a rule: list_all2_induct) (simp_all add: spec_submit_same)

lemma spec_session_length: "length (fst (spec_session xs clk t a)) = length xs"
  by (induction xs arbitrary: t a) (simp_all add: Let_def case_prod_beta)

section \<open>The loop of the runner computes the session\<close>

lemma bench_submit_session:
  assumes inv: "engine_inv (bn_engine s) (bn_world s)" and refs: "engine_refs (bn_engine s) \<subseteq> {..<k}"
    and total: "quantity_upto (Suc k) (bn_world s) < 2 ^ 64"
  shows "\<exists>s' res t. bench_submit k s = Some s' \<and>
    spec_submit (heap (bn_world s) k) (clock (bn_world s)) (Suc (ticks (bn_world s))) (abs_engine (heap (bn_world s)) (bn_engine s))
      = (res, abs_engine (heap (bn_world s')) (bn_engine s'), t) \<and>
    ticks (bn_world s') = Suc t \<and> clock (bn_world s') = clock (bn_world s) \<and>
    bn_result s' = bench_account res (bn_result s) \<and> bn_trades s' = bn_trades s @ rtrades res \<and>
    engine_inv (bn_engine s') (bn_world s') \<and> engine_refs (bn_engine s') \<subseteq> {..<Suc k} \<and>
    (\<forall>x. same_order (heap (bn_world s') x) (heap (bn_world s) x))"
proof -
  let ?e = "bn_engine s" and ?w = "snd (nowNs (bn_world s))"
  have inv1: "engine_inv ?e ?w" using inv by (simp add: engine_inv_clock)
  have total1: "(\<Sum>r<Suc k. unat (oquantity (heap ?w r))) < 2 ^ 64" using total by (simp add: quantity_upto_def world_simps)
  note fits = created_fits [OF inv1 refs total1]
  from submit_refines [OF inv1 fits] obtain res e' w2 where
    sub: "submitOrder k ?e ?w = Some (res, e', w2)"
    and spec: "spec_submit (heap ?w k) (clock ?w) (ticks ?w) (abs_engine (heap ?w) ?e) = (res, abs_engine (heap w2) e', ticks w2)"
    and c: "clock w2 = clock ?w" by metis
  have inv': "engine_inv e' (snd (nowNs w2))" using submit_inv [OF inv1 fits] sub by (auto simp: engine_inv_clock)
  have refs': "engine_refs e' \<subseteq> {..<Suc k}" using submit_static(1) [OF inv1 fits sub] refs by auto
  have same: "same_order (heap w2 x) (heap (bn_world s) x)" for x
    using submit_same_order [OF inv1 fits sub, of x] by (simp add: world_simps)
  obtain s' where s': "bench_submit k s = Some s'" "bn_engine s' = e'" "bn_world s' = snd (nowNs w2)"
    "bn_result s' = bench_account res (bn_result s)" "bn_trades s' = bn_trades s @ rtrades res"
    by (rule that [OF bench_submit_eq [OF sub]]) simp_all
  then show ?thesis using spec c inv' refs' same
    by (intro exI [of _ s'] exI [of _ res] exI [of _ "ticks w2"]) (simp add: world_simps)
qed

lemma bench_loop_session:
  assumes "engine_inv (bn_engine s) (bn_world s)" and "engine_refs (bn_engine s) \<subseteq> {..<k}"
    and "quantity_upto (k + n) (bn_world s) < 2 ^ 64"
  shows "\<exists>s' rs t. bench_loop [k..<k + n] s = Some s' \<and>
    spec_session (map (heap (bn_world s)) [k..<k + n]) (clock (bn_world s)) (ticks (bn_world s))
        (abs_engine (heap (bn_world s)) (bn_engine s))
      = (rs, abs_engine (heap (bn_world s')) (bn_engine s'), t) \<and>
    bn_result s' = fold bench_account rs (bn_result s) \<and> bn_trades s' = bn_trades s @ concat (map rtrades rs)"
  using assms
proof (induction n arbitrary: k s)
  case (Suc n)
  have "quantity_upto (Suc k) (bn_world s) < 2 ^ 64"
    using quantity_upto_mono [of "Suc k" "k + Suc n" "bn_world s"] Suc.prems(3) by simp
  from bench_submit_session [OF Suc.prems(1,2) this] obtain s1 res t1 where
    s1: "bench_submit k s = Some s1"
      "spec_submit (heap (bn_world s) k) (clock (bn_world s)) (Suc (ticks (bn_world s))) (abs_engine (heap (bn_world s)) (bn_engine s))
        = (res, abs_engine (heap (bn_world s1)) (bn_engine s1), t1)"
      "ticks (bn_world s1) = Suc t1" "clock (bn_world s1) = clock (bn_world s)"
      "bn_result s1 = bench_account res (bn_result s)" "bn_trades s1 = bn_trades s @ rtrades res"
      "engine_inv (bn_engine s1) (bn_world s1)" "engine_refs (bn_engine s1) \<subseteq> {..<Suc k}"
      "\<forall>x. same_order (heap (bn_world s1) x) (heap (bn_world s) x)"
    by (elim exE conjE) (rule that)
  have "\<forall>x. oquantity (heap (bn_world s1) x) = oquantity (heap (bn_world s) x)" using s1(9) by (simp add: same_order_def)
  then have "quantity_upto (Suc k + n) (bn_world s1) < 2 ^ 64"
    using Suc.prems(3) by (subst quantity_upto_cong) simp_all
  from Suc.IH [OF s1(7,8) this] obtain s' rs t where
    r: "bench_loop [Suc k..<Suc k + n] s1 = Some s'"
      "spec_session (map (heap (bn_world s1)) [Suc k..<Suc k + n]) (clock (bn_world s1)) (ticks (bn_world s1))
          (abs_engine (heap (bn_world s1)) (bn_engine s1))
        = (rs, abs_engine (heap (bn_world s')) (bn_engine s'), t)"
      "bn_result s' = fold bench_account rs (bn_result s1)" "bn_trades s' = bn_trades s1 @ concat (map rtrades rs)"
    by (elim exE conjE) (rule that)
  have same: "list_all2 same_order (map (heap (bn_world s1)) [Suc k..<Suc k + n]) (map (heap (bn_world s)) [Suc k..<Suc k + n])"
    using s1(9) by (simp add: list_all2_conv_all_nth)
  have u: "[k..<k + Suc n] = k # [Suc k..<Suc k + n]" by (subst upt_conv_Cons) simp_all
  have "spec_session (map (heap (bn_world s)) [k..<k + Suc n]) (clock (bn_world s)) (ticks (bn_world s))
        (abs_engine (heap (bn_world s)) (bn_engine s))
      = (res # rs, abs_engine (heap (bn_world s')) (bn_engine s'), t)"
    unfolding u list.map spec_session.simps s1(2) Let_def prod.case
    using r(2) unfolding spec_session_same [OF same] s1(3,4) by simp
  then show ?case unfolding u using s1(1,5,6) r(1,3,4)
    by (intro exI [of _ s'] exI [of _ "res # rs"] exI [of _ t]) simp
qed simp

section \<open>What becomes of the orders of a session\<close>

definition valid_for :: "Symbol set \<Rightarrow> Order \<Rightarrow> bool" where
  "valid_for S x \<longleftrightarrow> 0 < oquantity x \<and> (otype x = LIMIT \<longrightarrow> 0 < oprice x) \<and> osymbol x \<in> S"

text \<open>The books are those of the registered symbols.\<close>

definition books_of :: "Symbol set \<Rightarrow> aengine \<Rightarrow> bool" where
  "books_of S a \<longleftrightarrow> symbols (ae_validator a) = S \<and> (\<forall>s. ae_books a s \<noteq> None \<longleftrightarrow> s \<in> S)"

lemma status_after_accepted: "status_after ty q f \<noteq> REJECTED"
  by (cases ty) simp_all

lemma spec_submit_outcome:
  assumes S: "books_of S a" and s: "spec_submit x clk t a = (res, a', t')"
  shows "books_of S a'"
    and "usedIds (ae_validator a') \<subseteq> usedIds (ae_validator a) \<union> (if otype x = CANCEL then {} else {oid x})"
    and "otype x \<noteq> CANCEL \<Longrightarrow> oid x \<notin> usedIds (ae_validator a) \<Longrightarrow> rstatus res = REJECTED \<longleftrightarrow> \<not> valid_for S x"
proof -
  have b: "s \<in> S \<longleftrightarrow> ae_books a s \<noteq> None" and v: "symbols (ae_validator a) = S" for s
    using S by (simp_all add: books_of_def)
  have acc: "acceptable_order x (ae_validator a) \<longleftrightarrow> valid_for S x \<and> oid x \<notin> usedIds (ae_validator a)"
    by (auto simp: acceptable_order_def valid_for_def v)
  note defs = spec_submit_def spec_engine_cancel_def spec_execution_def answer_def recordId_def Let_def
  show "books_of S a'"
    using s S by (auto simp: defs books_of_def split: if_splits option.splits prod.splits)
  show "usedIds (ae_validator a') \<subseteq> usedIds (ae_validator a) \<union> (if otype x = CANCEL then {} else {oid x})"
    using s by (auto simp: defs split: if_splits option.splits prod.splits)
  assume ty: "otype x \<noteq> CANCEL" and i: "oid x \<notin> usedIds (ae_validator a)"
  show "rstatus res = REJECTED \<longleftrightarrow> \<not> valid_for S x"
  proof (cases "valid_for S x")
    case True
    then have "osymbol x \<in> S" by (simp add: valid_for_def)
    with b obtain ab where "ae_books a (osymbol x) = Some ab" by blast
    with s ty acc True i show ?thesis
      by (auto simp: spec_submit_def spec_execution_def Let_def status_after_accepted split: prod.splits)
  next
    case False
    with s ty acc show ?thesis by (auto simp: spec_submit_def answer_def Let_def)
  qed
qed

lemma with_id_Cons: "with_id (x # xs) = (if otype x = CANCEL then with_id xs else x # with_id xs)"
  by (simp add: with_id_def)

lemma session_outcomes:
  assumes "books_of S a" and "distinct (map oid (with_id xs))"
    and "set (map oid (with_id xs)) \<inter> usedIds (ae_validator a) = {}" and "i < length xs" and "otype (xs ! i) \<noteq> CANCEL"
  shows "rstatus (fst (spec_session xs clk t a) ! i) = REJECTED \<longleftrightarrow> \<not> valid_for S (xs ! i)"
  using assms
proof (induction xs arbitrary: t a i)
  case (Cons x xs)
  obtain res a1 t1 where s: "spec_submit x clk (Suc t) a = (res, a1, t1)" by (metis prod_cases3)
  note o = spec_submit_outcome [OF Cons.prems(1) s]
  have e: "fst (spec_session (x # xs) clk t a) = res # fst (spec_session xs clk (Suc t1) a1)"
    by (simp add: s Let_def case_prod_beta)
  show ?case
  proof (cases i)
    case 0
    with Cons.prems(3,5) have "oid x \<notin> usedIds (ae_validator a)" "otype x \<noteq> CANCEL" by (auto simp: with_id_Cons)
    with o(3) 0 show ?thesis unfolding e by simp
  next
    case (Suc j)
    have "distinct (map oid (with_id xs))" using Cons.prems(2) by (auto simp: with_id_Cons split: if_splits)
    moreover have "set (map oid (with_id xs)) \<inter> usedIds (ae_validator a1) = {}"
    proof (cases "otype x = CANCEL")
      case True
      with Cons.prems(3) o(2) show ?thesis by (auto simp: with_id_Cons)
    next
      case False
      then have "set (map oid (with_id xs)) \<inter> insert (oid x) (usedIds (ae_validator a)) = {}"
        using Cons.prems(2,3) by (auto simp: with_id_Cons)
      moreover have "usedIds (ae_validator a1) \<subseteq> insert (oid x) (usedIds (ae_validator a))" using o(2) False by simp
      ultimately show ?thesis by blast
    qed
    ultimately show ?thesis
      unfolding e Suc using Cons.IH [OF o(1), of j "Suc t1"] Cons.prems(4,5) Suc by simp
  qed
qed simp

section \<open>The counters\<close>

definition having :: "OrderStatus \<Rightarrow> EngineResult list \<Rightarrow> nat" where
  "having st rs = length (filter (\<lambda>r. rstatus r = st) rs)"

lemma account_counts:
  "br_rejected (fold bench_account rs b) = br_rejected b + of_nat (having REJECTED rs)"
  "br_cancels (fold bench_account rs b) = br_cancels b + of_nat (having CANCELLED rs)"
  "br_trades (fold bench_account rs b) = br_trades b + of_nat (length (concat (map rtrades rs)))"
  by (induction rs arbitrary: b) (simp_all add: bench_account_def having_def)

section \<open>The single-threaded run over new orders, and over generated ones\<close>

lemma baseline_session:
  assumes w: "fresh_world w" and total: "quantity_upto n w < 2 ^ 64" and n: "n \<le> 2 ^ 31"
  shows "\<exists>res w' rs a t. runBaseline rss cfg [0..<n] w = Some (res, w') \<and>
    spec_session (map (heap w) [0..<n]) (clock w) (Suc (ticks w)) (spec_start (bc_symbols cfg)) = (rs, a, t) \<and>
    br_rejected res = of_nat (having REJECTED rs) \<and> br_cancels res = of_nat (having CANCELLED rs) \<and>
    br_trades res = of_nat (length (concat (map rtrades rs)))"
proof -
  let ?w1 = "snd (nowNs w)"
  let ?s0 = "bench_init cfg n ?w1"
  have w1: "fresh_world ?w1" using w by (simp add: fresh_world_def world_simps)
  note start = registered_start(2,3) [OF w1, of "bc_symbols cfg"]
  have s0: "engine_inv (bn_engine ?s0) (bn_world ?s0)" "engine_refs (bn_engine ?s0) \<subseteq> {..<0}"
    "quantity_upto (0 + n) (bn_world ?s0) < 2 ^ 64"
    using start total by (simp_all add: bench_init_def quantity_upto_def world_simps)
  from bench_loop_session [OF s0] obtain s rs t where
    l: "bench_loop [0..<n] ?s0 = Some s" "bn_result s = fold bench_account rs (bn_result ?s0)"
    and sp: "spec_session (map (heap (bn_world ?s0)) [0..<n]) (clock (bn_world ?s0)) (ticks (bn_world ?s0))
        (abs_engine (heap (bn_world ?s0)) (bn_engine ?s0)) = (rs, abs_engine (heap (bn_world s)) (bn_engine s), t)"
    unfolding add_0 by blast
  from baseline_runs [OF w total n, of rss cfg] obtain res w' where r: "runBaseline rss cfg [0..<n] w = Some (res, w')" by blast
  with l(1) obtain lat where "res = finalise rss cfg (s\<lparr>bn_world := w', bn_result := (bn_result s)\<lparr>br_latency := lat\<rparr>\<rparr>)"
    by (auto simp: runBaseline_def bench_result_def case_prod_beta Let_def split: option.splits)
  then have "br_rejected res = br_rejected (bn_result s)" "br_cancels res = br_cancels (bn_result s)" "br_trades res = br_trades (bn_result s)"
    by (simp_all add: finalise_def)
  with l(2) have c: "br_rejected res = of_nat (having REJECTED rs)" "br_cancels res = of_nat (having CANCELLED rs)"
    "br_trades res = of_nat (length (concat (map rtrades rs)))"
    by (simp_all del: length_concat add: account_counts bench_init_def BenchmarkResult_new_def)
  have "bn_engine ?s0 = fold registerSymbol (bc_symbols cfg) MatchingEngine_new" "bn_world ?s0 = ?w1"
    by (simp_all add: bench_init_def)
  with sp have "spec_session (map (heap w) [0..<n]) (clock w) (Suc (ticks w)) (spec_start (bc_symbols cfg))
      = (rs, abs_engine (heap (bn_world s)) (bn_engine s), t)"
    by (simp add: registered_spec world_simps)
  with r c show ?thesis by blast
qed

lemma generated_valid:
  "generated_order syms x \<Longrightarrow> ''INVALID'' \<notin> set syms \<Longrightarrow> valid_for (set syms) x \<longleftrightarrow> \<not> reject_order x"
  by (auto simp: generated_order_def proper_order_def reject_order_def valid_for_def)

lemma generated_ids:
  assumes "generated_stream syms os" and "length os < 2 ^ 64" shows "distinct (map oid (with_id os))"
proof -
  let ?m = "length (with_id os)"
  have m: "?m < 2 ^ 64" using assms(2) with_id_length [of os] by simp
  have "inj_on (of_nat :: nat \<Rightarrow> u64) (set [1..<Suc ?m])"
  proof (rule inj_onI)
    fix i j assume ij: "i \<in> set [1..<Suc ?m]" "j \<in> set [1..<Suc ?m]" "(of_nat i :: u64) = of_nat j"
    then have "i < 2 ^ 64" "j < 2 ^ 64" using m by (auto simp del: upt_Suc)
    then have "unat (of_nat i :: u64) = i" "unat (of_nat j :: u64) = j" by (simp_all only: unat_of_nat_u64)
    with ij(3) show "i = j" by metis
  qed
  then have "distinct (map of_nat [1..<Suc ?m] :: u64 list)" by (simp add: distinct_map del: upt_Suc)
  moreover have "map oid (with_id os) = map of_nat [1..<Suc ?m]" using assms(1) unfolding generated_stream_def by (elim conjE)
  ultimately show ?thesis by (simp only:)
qed

lemma spec_start_books: "books_of (set syms) (spec_start syms)"
  by (simp add: books_of_def spec_start_def)

lemma generated_session:
  assumes g: "generated_stream syms os" and l: "length os < 2 ^ 64" and inv: "''INVALID'' \<notin> set syms"
    and s: "spec_session os clk t (spec_start syms) = (rs, a, t')" and i: "i < length os" "otype (os ! i) \<noteq> CANCEL"
  shows "rstatus (rs ! i) = REJECTED \<longleftrightarrow> reject_order (os ! i)"
proof -
  have "usedIds (ae_validator (spec_start syms)) = {}" by (simp add: spec_start_def)
  with session_outcomes [OF spec_start_books generated_ids [OF g l] _ i, of syms clk t] s
  have "rstatus (rs ! i) = REJECTED \<longleftrightarrow> \<not> valid_for (set syms) (os ! i)" by simp
  moreover have "os ! i \<in> set os" using i(1) by simp
  with g i(2) have "generated_order syms (os ! i)" unfolding generated_stream_def by metis
  ultimately show ?thesis using generated_valid inv by blast
qed

end
