(* ===== verification/Benchmark_Properties.thy ===== *)
theory Benchmark_Properties
  imports Benchmark_Spec
begin

text \<open>
  The properties of the benchmark: what the generator emits, that the three modes compute the
  same, and that the program ends well.
\<close>

text \<open>A world with a resting sale of 5 and a purchase of 3 that meets it.\<close>

definition two_orders :: world where
  "two_orders =
     \<lparr>heap = (\<lambda>r. if r = 0 then Order_new 1 ''AAPL'' SELL LIMIT (I64 1000000) 5 0
                  else Order_new 2 ''AAPL'' BUY LIMIT (I64 1000000) 3 1),
      clock = of_nat, ticks = 0\<rparr>"

lemma two_orders_world: "fresh_world two_orders" "quantity_upto 2 two_orders < 2 ^ 64" "(2::nat) \<le> 2 ^ 31"
proof -
  have "{..<2} = {0, 1 :: nat}" by auto
  then show "quantity_upto 2 two_orders < 2 ^ 64" by (simp add: quantity_upto_def two_orders_def Order_new_def)
qed (simp_all add: fresh_world_def two_orders_def Order_new_def)

text \<open>
  C25: With a ring capacity of at most 2^63 and submissions that are all defined, every fair
  scheduling of the two threads brings the engine thread to its end, and whenever it has ended, after
  whatever interleaving and whatever old values of the ring's indices the threads have seen, the producer
  has pushed everything and the result is that of the single-threaded run over the same orders and clock.
\<close>

theorem pipeline_equals_baseline:
  assumes "pipeline_new cfg ords w = Some p" and "unat (pipeline_capacity cfg) \<le> 2 ^ 63"
    and "runBaseline rss cfg ords w \<noteq> None" and "fair_schedule sched"
  shows "(\<exists>i. engine_done (pipeline_exec sched p i) \<and> pipeline_reachable cfg ords w (pipeline_exec sched p i)) \<and>
    (\<forall>p'. pipeline_reachable cfg ords w p' \<and> engine_done p' \<longrightarrow>
       producer_done p' \<and> pipeline_result rss cfg p' = runBaseline rss cfg ords w)"
proof (intro conjI allI impI)
  from pipeline_new_around [OF assms(1,2)] obtain n where "pipeline_around cfg ords w n [] p" by blast
  from exec_finishes [OF this assms(3,4)] exec_reachable [OF pipeline_init [OF assms(1)] assms(2,3)]
  show "\<exists>i. engine_done (pipeline_exec sched p i) \<and> pipeline_reachable cfg ords w (pipeline_exec sched p i)" by blast
next
  fix p' assume r: "pipeline_reachable cfg ords w p' \<and> engine_done p'"
  then obtain ns where "pl_thread p' = T_done ns" by (auto simp: engine_done_def)
  moreover from r pipeline_reachable_around [OF _ assms(2)] obtain n q where "pipeline_around cfg ords w n q p'" by blast
  ultimately have "pipeline_around cfg ords w n q p'" "pl_thread p' = T_done ns" by simp_all
  from done_around(1) [OF this] pipeline_result_baseline [OF this]
  show "producer_done p'" "pipeline_result rss cfg p' = runBaseline rss cfg ords w" by simp_all
qed

text \<open>A ring of two slots under strict alternation of the threads.\<close>

definition alternate :: "nat \<Rightarrow> thread" where
  "alternate i = (if even i then Producer else Consumer)"

lemma alternate_fair: "fair_schedule alternate"
  unfolding fair_schedule_def
proof (intro allI)
  fix th :: thread and i :: nat
  show "\<exists>j\<ge>i. alternate j = th"
    by (cases th; intro exI [of _ "if even i = (th = Producer) then i else Suc i"]) (auto simp: alternate_def)
qed

definition pipeline_config :: BenchmarkConfig where
  "pipeline_config = BenchmarkConfig_default\<lparr>bc_mode := Pipeline, bc_pipelineCapacity := 2\<rparr>"

lemma pipeline_equals_baseline_witness:
  "\<exists>p i. pipeline_new pipeline_config [0, 1] two_orders = Some p \<and>
     pipeline_result 4096 pipeline_config (pipeline_exec alternate p i) = runBaseline 4096 pipeline_config [0, 1] two_orders \<and>
     runBaseline 4096 pipeline_config [0, 1] two_orders \<noteq> None"
proof -
  have cap: "pipeline_capacity pipeline_config = 2"
    by (simp add: pipeline_capacity_def pipeline_config_def)
  then have c: "unat (pipeline_capacity pipeline_config) \<le> 2 ^ 63" by simp
  from cap obtain p where p: "pipeline_new pipeline_config [0, 1] two_orders = Some p"
    by (simp add: pipeline_new_def ring_new_def nextPow2_def pow2_loop.simps)
  have "[0..<2] = [0, 1 :: nat]" by (simp add: upt_rec)
  with baseline_runs [OF two_orders_world, of 4096 pipeline_config]
  have b: "runBaseline 4096 pipeline_config [0, 1] two_orders \<noteq> None" by auto
  from pipeline_equals_baseline [OF p c b alternate_fair] p b show ?thesis by blast
qed

text \<open>
  C26: Over up to 2^31 new orders, with quantities that add up to less than 2^64, the pool mode never runs out
  of slots and never frees a slot twice; its result is the one of the single-threaded mode, and in
  the end the slots hold exactly the copies that still rest.  But the pool is destroyed before the
  engine: the call returns only if no order rests, and is undefined otherwise.
\<close>

theorem pool_equals_baseline:
  assumes "fresh_world w" and "quantity_upto n w < 2 ^ 64" and "n \<le> 2 ^ 31"
  shows "\<exists>res s w'. runPool_result rss cfg [0..<n] n w = Some (Inr (res, s)) \<and>
    runBaseline rss cfg [0..<n] w = Some (res, w') \<and>
    (\<forall>p x. slots (pr_pool s) p = Some x \<longleftrightarrow> x \<in> engine_refs (bn_engine (pr_run s)) \<and> p = pr_slot s x) \<and>
    runPool rss cfg [0..<n] n w =
      (if concat (map (refs_of (bn_engine (pr_run s))) (bc_symbols cfg)) = []
       then Some (Inr (res, bn_world (pr_run s))) else None)"
proof -
  from pool_runs [OF assms] obtain res s w' where
    "runPool_result rss cfg [0..<n] n w = Some (Inr (res, s))" "runBaseline rss cfg [0..<n] w = Some (res, w')"
    "slots_ok (bn_engine (pr_run s)) (Suc n) (pr_slot s) (pr_pool s)" by blast
  then show ?thesis by (intro exI [of _ res] exI [of _ s] exI [of _ w']) (simp add: slots_ok_def runPool_def)
qed

text \<open>A single purchase, which rests: the single-threaded mode returns, the pool mode is undefined.\<close>

definition resting_world :: world where
  "resting_world = \<lparr>heap = (\<lambda>r. Order_new 1 ''AAPL'' BUY LIMIT (I64 1000000) 5 0), clock = of_nat, ticks = 0\<rparr>"

definition one_symbol :: BenchmarkConfig where
  "one_symbol = BenchmarkConfig_default\<lparr>bc_symbols := [''AAPL'']\<rparr>"

lemma submit_rests:
  "\<exists>res e' w'. submitOrder 1 (registerSymbol ''AAPL'' MatchingEngine_new) (snd (nowNs (upd_order 1 (\<lambda>_. Order_new 1 ''AAPL'' BUY LIMIT (I64 1000000) 5 0) (snd (nowNs resting_world)))))
   = Some (res, e', w') \<and> refs_of e' ''AAPL'' = [1]"
  by (simp add: submitOrder_def registerSymbol_def
  MatchingEngine_new_def RiskValidator_new_def OrderBook_new_def validator_registerSymbol_def resting_world_def validate_def
      recordId_def submit_reason_def book_addOrder_def matchLimit_def drain_at_limit_def drain_asks_def
      drainSide.simps drain_continues_def restOrder_def index_order_def isFilled_def remainingQty_def Order_new_def
      level_addOrder_def PriceLevel_new_def Let_def world_simps less_eq_i64_def refs_of_def book_refs_def)

lemma pool_rests:
  "\<exists>S. pool_loop [0] (pool_start one_symbol 1 1 (snd (nowNs resting_world))) = Some (Inr S) \<and> refs_of (bn_engine (pr_run S)) ''AAPL'' = [1]"
proof -
  let ?s = "pool_start one_symbol 1 1 (snd (nowNs resting_world))"
  have "\<exists>raw P. pool_alloc (Some 1) (pr_pool ?s) = (Inr raw, P)"
  proof -
    have "freelist (pr_pool ?s) \<noteq> []"
      by (simp add: pool_start_def pool_new_def) (simp add: numeral_2_eq_2)
    then show ?thesis by (simp add: pool_alloc_def Let_def)
  qed
  then obtain raw P where a: "pool_alloc (Some 1) (pr_pool ?s) = (Inr raw, P)" by blast
  let ?w1 = "upd_order 1 (\<lambda>_. Order_new 1 ''AAPL'' BUY LIMIT (I64 1000000) 5 0) (snd (nowNs resting_world))"
  let ?p = "(pr_run ?s)\<lparr>bn_world := ?w1\<rparr>"
  have e: "bn_engine ?p = registerSymbol ''AAPL'' MatchingEngine_new" by (simp add: pool_start_def bench_init_def one_symbol_def)
  from submit_rests obtain res e' w' where sub: "submitOrder 1 (bn_engine ?p) (snd (nowNs (bn_world ?p))) = Some (res, e', w')"
    and rf: "refs_of e' ''AAPL'' = [1]" unfolding e by auto
  obtain run where r: "bench_submit 1 ?p = Some run" "bn_engine run = e'"
    by (rule that [OF bench_submit_eq [OF sub]]) simp
  have x: "heap (bn_world (pr_run ?s)) 0 = Order_new 1 ''AAPL'' BUY LIMIT (I64 1000000) 5 0" "pr_next ?s = 1" "bn_world (pr_run ?s) = snd (nowNs resting_world)"
    by (simp_all add: pool_start_def bench_init_def resting_world_def world_simps)
  have hx: "heap (snd (nowNs resting_world)) 0 = Order_new 1 ''AAPL'' BUY LIMIT (I64 1000000) 5 0"
    by (simp add: resting_world_def world_simps)
  have sel: "oid (Order_new i sy sd ty p q t) = i" "osymbol (Order_new i sy sd ty p q t) = sy"
    "oside (Order_new i sy sd ty p q t) = sd" "otype (Order_new i sy sd ty p q t) = ty" "oprice (Order_new i sy sd ty p q t) = p"
    "oquantity (Order_new i sy sd ty p q t) = q" "otimestamp (Order_new i sy sd ty p q t) = t" for i sy sd ty p q t
    by (simp_all add: Order_new_def)
  have e0: "refs_of (bn_engine (pr_run ?s)) ''AAPL'' = []"
    by (simp add: pool_start_def bench_init_def one_symbol_def registerSymbol_def MatchingEngine_new_def refs_of_def OrderBook_new_def book_refs_def)
  have "dropped 1 ''AAPL'' (bn_engine (pr_run ?s)) (bn_engine run) = []" using rf e0 r(2) by (simp add: dropped_def)
  moreover have "osymbol (heap (bn_world (pr_run ?s)) 0) = ''AAPL''" unfolding x(3) by (simp add: resting_world_def Order_new_def world_simps)
  moreover have "pool_body 0 ?s = (case dealloc_all pool_delete (map ((pr_slot ?s)(1 := raw)) (dropped 1 ''AAPL'' (bn_engine (pr_run ?s)) (bn_engine run))) P of
                        None \<Rightarrow> None
                      | Some P' \<Rightarrow> Some (Inr \<lparr>pr_run = run, pr_pool = P', pr_slot = (pr_slot ?s)(1 := raw), pr_next = Suc 1\<rparr>))"
    unfolding pool_body_def Let_def x(2,3) hx sel a prod.case sum.case using r(1) unfolding x(3) by simp
  ultimately show ?thesis using rf r(2) by simp
qed

lemma resting_fits: "fresh_world resting_world" "quantity_upto 1 resting_world < 2 ^ 64" "(1::nat) \<le> 2 ^ 31"
proof -
  have "{..<1} = {0 :: nat}" by auto
  then show "quantity_upto 1 resting_world < 2 ^ 64" by (simp add: quantity_upto_def resting_world_def Order_new_def)
qed (simp_all add: fresh_world_def resting_world_def Order_new_def)

lemma pool_equals_baseline_witness:
  "runPool 4096 one_symbol [0..<1] 1 resting_world = None \<and> (\<exists>res w'. runBaseline 4096 one_symbol [0..<1] resting_world = Some (res, w'))"
proof -
  from pool_equals_baseline [OF resting_fits, of 4096 one_symbol] obtain res s w' where
    r: "runPool_result 4096 one_symbol [0..<1] 1 resting_world = Some (Inr (res, s))"
      "runBaseline 4096 one_symbol [0..<1] resting_world = Some (res, w')"
      "runPool 4096 one_symbol [0..<1] 1 resting_world =
        (if concat (map (refs_of (bn_engine (pr_run s))) (bc_symbols one_symbol)) = []
         then Some (Inr (res, bn_world (pr_run s))) else None)" by blast
  have u: "[0..<1] = [0 :: nat]" by simp
  from pool_rests r(1) have "refs_of (bn_engine (pr_run s)) ''AAPL'' = [1]"
    unfolding u runPool_result_def by (auto simp: case_prod_beta Let_def split: option.splits)
  then have "runPool 4096 one_symbol [0..<1] 1 resting_world = None" unfolding r(3) by (simp add: one_symbol_def)
  with r(2) show ?thesis by blast
qed

text \<open>
  C29: Whatever the distributions draw within their ranges, the generator returns as many orders as
  configured, one per time stamp, with ids from 1 upwards; every order is well formed or one of the three
  intended rejects, quantities are at most 500, and every cancellation repeats symbol and id of a limit order
  emitted before, none of them twice.
\<close>

theorem generated_orders_wellformed:
  assumes "lawful_draws d" and "gc_symbols cfg \<noteq> []" and "length (gc_symbols cfg) < 2 ^ 64"
  shows "\<exists>os g. generate d cfg (OrderGenerator_new d cfg) = Some (os, g) \<and> length os = unat (gc_count cfg) \<and>
    map otimestamp os = map of_nat [0..<length os] \<and>
    map oid (with_id os) = map of_nat [1..<Suc (length (with_id os))] \<and>
    distinct (map snd (cancel_refs os)) \<and>
    (\<forall>j<length os. otype (os ! j) = CANCEL \<longrightarrow> (osymbol (os ! j), oid (os ! j)) \<in> set (limit_refs (take j os))) \<and>
    (\<forall>x\<in>set os. if otype x = CANCEL then x = Order_new (oid x) (osymbol x) BUY CANCEL 0 1 (otimestamp x)
       else generated_order (gc_symbols cfg) x)"
  using generate_stream [OF assms] unfolding generated_stream_def .

text \<open>Draws from the ends of the ranges, in turn.\<close>

definition end_draws :: "nat draws" where
  "end_draws =
     \<lparr>seed_engine = unat, draw_u64 = (\<lambda>a b g. (if even g then a else b, Suc g)),
      draw_int = (\<lambda>a b g. (if even g then a else b, Suc g)), draw_real = (\<lambda>a b g. (if even g then a else b, Suc g)),
      draw_bool = (\<lambda>p g. (even g, Suc g))\<rparr>"

lemma end_draws_lawful: "lawful_draws end_draws"
  by (simp add: lawful_draws_def end_draws_def dbl_in_def)

lemma generated_orders_wellformed_witness:
  "\<exists>os g. generate end_draws (GeneratorConfig_default\<lparr>gc_count := 25\<rparr>)
      (OrderGenerator_new end_draws (GeneratorConfig_default\<lparr>gc_count := 25\<rparr>)) = Some (os, g) \<and>
     length os = 25 \<and> distinct (map snd (cancel_refs os)) \<and> map otimestamp os = map of_nat [0..<25]"
  using generated_orders_wellformed [OF end_draws_lawful, of "GeneratorConfig_default\<lparr>gc_count := 25\<rparr>"]
  by (auto simp: GeneratorConfig_default_def simp del: upt_rec_numeral)



text \<open>
  C27: The result of a benchmark run over generated orders, in one or two threads, is that of a session of the
  value-based engine over the list of orders; its counters count the rejected and the cancelled results
  and the trades of that session, where an IOC or FOK order that is killed counts as a cancellation;
  and of the orders that are not cancellations exactly the intended rejects are rejected.
\<close>

theorem benchmark_outcomes:
  assumes "runnable env cfg" and "bc_mode cfg \<noteq> Pool" and "fresh_world w" and "''INVALID'' \<notin> set (bc_symbols cfg)"
  shows "\<exists>os g res w' rs a t.
    generate (be_draws env) (generator_config cfg) (OrderGenerator_new (be_draws env) (generator_config cfg)) = Some (os, g) \<and>
    run_mode env cfg (length os) (alloc_orders 0 os w) = Some (Inr (res, w')) \<and>
    spec_session os (clock w) (Suc (ticks w)) (spec_start (bc_symbols cfg)) = (rs, a, t) \<and> length rs = length os \<and>
    br_rejected res = of_nat (having REJECTED rs) \<and> br_cancels res = of_nat (having CANCELLED rs) \<and>
    br_trades res = of_nat (length (concat (map rtrades rs))) \<and>
    (\<forall>i<length os. otype (os ! i) \<noteq> CANCEL \<longrightarrow> (rstatus (rs ! i) = REJECTED \<longleftrightarrow> reject_order (os ! i)))"
proof -
  from generated_baseline [OF assms(1,3)] obtain os g where
    g: "generate (be_draws env) (generator_config cfg) (OrderGenerator_new (be_draws env) (generator_config cfg)) = Some (os, g)"
      "generated_stream (bc_symbols cfg) os" "length os = unat (bc_orderCount cfg)" by blast
  have n: "length os \<le> 2 ^ 31" using assms(1) g(3) by (simp add: runnable_def)
  from baseline_session [OF generated_world [OF g(2) n assms(3)] n, of "be_rss env" cfg] obtain res w' rs a t where
    r: "runBaseline (be_rss env) cfg [0..<length os] (alloc_orders 0 os w) = Some (res, w')"
      "spec_session os (clock w) (Suc (ticks w)) (spec_start (bc_symbols cfg)) = (rs, a, t)"
      "br_rejected res = of_nat (having REJECTED rs)" "br_cancels res = of_nat (having CANCELLED rs)"
      "br_trades res = of_nat (length (concat (map rtrades rs)))"
    unfolding allocated_orders alloc_clock by blast
  have "length rs = length os" using spec_session_length [of os "clock w" "Suc (ticks w)" "spec_start (bc_symbols cfg)"] r(2) by simp
  moreover have "length os < 2 ^ 64" using n by simp
  note generated_session [OF g(2) this assms(4) r(2)]
  ultimately show ?thesis using g(1) run_mode_baseline [OF assms(1,2) r(1)] r(2-5) by blast
qed

lemma benchmark_outcomes_witness:
  "\<exists>os g rs a t. generate end_draws (generator_config BenchmarkConfig_default)
       (OrderGenerator_new end_draws (generator_config BenchmarkConfig_default)) = Some (os, g) \<and>
     spec_session os (clock two_orders) 1 (spec_start [''AAPL'', ''MSFT'', ''NVDA'', ''TSLA'']) = (rs, a, t) \<and>
     (\<forall>i<length os. otype (os ! i) \<noteq> CANCEL \<longrightarrow> (rstatus (rs ! i) = REJECTED \<longleftrightarrow> reject_order (os ! i)))"
proof -
  let ?env = "\<lparr>be_draws = end_draws, be_apple = False, be_usage = Some (I64 4096), be_sched = alternate\<rparr>"
  have "runnable ?env BenchmarkConfig_default"
    using end_draws_lawful by (simp add: runnable_def BenchmarkConfig_default_def)
  from benchmark_outcomes [OF this _ two_orders_world(1)] show ?thesis
    by (simp add: BenchmarkConfig_default_def two_orders_def) blast
qed

text \<open>
  C40: Saving results one after the other to a new file that can be written gives a file of which the lines,
  split at the commas, are the column names and then one row per result in order: the name of its mode, twelve numbers that
  \<^verbatim>\<open>stoull\<close> reads back, and whether the audit passed.  Nothing else is written, and nothing printed.
\<close>

theorem results_file_roundtrip:
  assumes "fs_files fs path = None" and "fs_writable fs path" and "rs \<noteq> []"
  shows "\<exists>content rows. save_all rs path (fs, i) = (fs\<lparr>fs_files := (fs_files fs)(path \<mapsto> content)\<rparr>, i) \<and>
    map (\<lambda>l. csv_split l (CHR '','')) (getlines (CHR 0x0A) content) = csv_columns # rows \<and>
    map (\<lambda>row. (hd row, map stoull (butlast (tl row)), last row)) rows =
      map (\<lambda>(r, cfg). (modeName (br_mode r), map Some (csv_numbers r cfg),
        if rep_passed (br_invariants r) then ''true'' else ''false'')) rs"
proof -
  have u: "stoull (to_string_u64 n) = Some n" for n using stoull_to_string [of "[]" n] by simp
  then have "stoull \<circ> to_string_u64 = Some" by (simp add: fun_eq_iff)
  note numbers = this
  show ?thesis
    by (intro exI conjI, rule save_all_file [OF assms], rule saved_file_lines) (simp add: numbers case_prod_beta)
qed

text \<open>Two results of the default configuration.\<close>

lemma results_file_roundtrip_witness:
  "\<exists>content row1 row2. fst (save_all [(BenchmarkResult_new, BenchmarkConfig_default), (BenchmarkResult_new\<lparr>br_trades := 3\<rparr>, BenchmarkConfig_default)]
       ''out'' (\<lparr>fs_files = Map.empty, fs_writable = (\<lambda>_. True)\<rparr>, io_start)) = \<lparr>fs_files = [''out'' \<mapsto> content], fs_writable = (\<lambda>_. True)\<rparr> \<and>
     map (\<lambda>l. csv_split l (CHR '','')) (getlines (CHR 0x0A) content) = [csv_columns, row1, row2] \<and>
     map stoull (butlast (tl row2)) ! 4 = Some 3"
proof -
  let ?fs = "\<lparr>fs_files = Map.empty, fs_writable = (\<lambda>_. True)\<rparr>"
  let ?rs = "[(BenchmarkResult_new, BenchmarkConfig_default), (BenchmarkResult_new\<lparr>br_trades := 3\<rparr>, BenchmarkConfig_default)]"
  have p: "fs_files ?fs ''out'' = None" "fs_writable ?fs ''out''" "?rs \<noteq> []" by simp_all
  from results_file_roundtrip [OF p, of io_start] obtain content rows where
    t: "save_all ?rs ''out'' (?fs, io_start) = (?fs\<lparr>fs_files := (fs_files ?fs)(''out'' \<mapsto> content)\<rparr>, io_start)"
      "map (\<lambda>l. csv_split l (CHR '','')) (getlines (CHR 0x0A) content) = csv_columns # rows"
      "map (\<lambda>row. (hd row, map stoull (butlast (tl row)), last row)) rows =
        map (\<lambda>(r, cfg). (modeName (br_mode r), map Some (csv_numbers r cfg),
          if rep_passed (br_invariants r) then ''true'' else ''false'')) ?rs"
    by (elim exE conjE) (rule that)
  from map_eq_imp_length_eq [OF t(3)] have "length rows = 2" by simp
  then obtain row1 row2 where rows: "rows = [row1, row2]" by (auto simp: numeral_2_eq_2 length_Suc_conv)
  with t(3) have n: "map stoull (butlast (tl row2)) ! 4 = Some 3" by (simp add: csv_numbers_def)
  have "fst (save_all ?rs ''out'' (?fs, io_start)) = \<lparr>fs_files = [''out'' \<mapsto> content], fs_writable = (\<lambda>_. True)\<rparr>"
    unfolding t(1) by simp
  then show ?thesis using t(2) n unfolding rows by (intro exI conjI)
qed

end
