(* ===== verification/Spec2Isabelle.thy ===== *)
theory Spec2Isabelle
  imports Book_Properties Engine_Properties Pool_Properties Ring_Properties Program_Properties Benchmark_Properties
begin

text \<open>
  \<^bold>\<open>AstraExchange\<close>, a limit-order-book exchange in C++, with two programs: \<^verbatim>\<open>src/main.cpp\<close> replays a file of orders
  or reads them interactively; \<^verbatim>\<open>src/exchange_bench.cpp\<close> generates orders and measures the engine in three
  modes.  This development models both programs down to the order book and proves them correct against
  specifications that know nothing of their data structures.

  \<^bold>\<open>How the parts interact.\<close>  A program creates \<^verbatim>\<open>Order\<close> objects, shared by pointer between the client and
  the book that keeps them.  \<^verbatim>\<open>MatchingEngine::submitOrder\<close> asks \<^verbatim>\<open>RiskValidator\<close>, finds the \<^verbatim>\<open>OrderBook\<close> of the symbol, and
  the book matches the order against the \<^verbatim>\<open>PriceLevel\<close>s of the other side and rests what may rest.
  \<^verbatim>\<open>CsvParser\<close>, \<^verbatim>\<open>OrderGenerator\<close> and standard input produce orders; \<^verbatim>\<open>EventLog\<close>, \<^verbatim>\<open>MarketDataFeed\<close> and the reports print
  what comes out; \<^verbatim>\<open>LatencyTimer\<close> and \<^verbatim>\<open>InvariantChecker\<close> measure and audit a run; \<^verbatim>\<open>SpscRingBuffer\<close> and \<^verbatim>\<open>MemoryPool\<close>
  carry the orders of two benchmark modes.

  \<^bold>\<open>Conventions.\<close>  State is passed explicitly: \<open>world\<close> holds the heap of orders (addresses are naturals) and the
  clock with the number of readings taken, \<open>io\<close> what has been printed and the format flags.  Machine
  integers are words of their width (\<open>u64\<close>, \<open>u32\<close>; \<open>i64\<close> wraps a signed one), so sums wrap as they do in the
  code.  A result \<open>None\<close> is undefined behaviour or a loop that never ends; errors the code reports or
  throws are values.  Loops without a structural measure are \<open>partial_function (option)\<close>, and that they
  return is proved: \<open>drainSide\<close> and \<open>pow2_loop\<close> where it matters, \<open>pipeline_join\<close> under every fair schedule.
  A \<^verbatim>\<open>double\<close> is a rational rounded once per operation, an infinity or not a number; zero has no sign.

  \<^bold>\<open>Theories.\<close>
  \<^item> \<open>Prelude\<close>: integers and shared lemmas.  \<open>Std_Map\<close>, \<open>Std_String\<close>, \<open>Std_Double\<close>, \<open>Double_Ops\<close>, \<open>Std_Parse\<close>,
    \<open>Std_Stream\<close>: the part of the C++ library the program uses (\<^verbatim>\<open>std::map\<close> with its comparator as a locale,
    \<^verbatim>\<open>to_string\<close>, binary64, \<^verbatim>\<open>getline\<close>, \<^verbatim>\<open>stoull\<close>, \<^verbatim>\<open>stod\<close>, streams and their number formats).
  \<^item> \<open>Core_Types\<close>, \<open>Fixed_Price\<close>: \<^verbatim>\<open>include/core/{Types,Order,Trade}.hpp\<close>; prices as fixed point and as doubles.
  \<^item> \<open>Price_Level\<close>, \<open>Order_Book\<close>: \<^verbatim>\<open>PriceLevel.hpp\<close>, \<^verbatim>\<open>OrderBook.{hpp,cpp}\<close>, one definition per member function, the
    matching loop split into condition and body.  \<open>Matching_Spec\<close> is the abstract book: two priority lists of
    open orders, matched greedily.  \<open>Book_Inv\<close> states the invariant (sorted uncrossed levels, caches and
    index exact) and the abstraction; \<open>Book_Drain\<close>, \<open>Book_Ops\<close>, \<open>Book_Correct\<close>, \<open>Book_Add\<close>, \<open>Book_Refines\<close> and
    \<open>Book_Queries\<close> prove each operation against it.  \<open>Book_Overflow\<close>: the cached totals without a bound.
  \<^item> \<open>Risk_Validator\<close>, \<open>Matching_Engine\<close>: the files of those names.  \<open>Engine_Inv\<close>, \<open>Engine_Submit\<close>: the invariant of the
    engine under submission and cancellation.  \<open>Engine_Steps\<close>: the engine as a state machine of client
    calls, and its reachable states.  \<open>Engine_Traces\<close>: what holds over whole runs.  \<open>Engine_Capacity\<close>: clients whose
    quantities add up to less than \<open>2^64\<close>.  \<open>Engine_Spec\<close>: a value-based engine that every submission computes.
  \<^item> \<open>Csv_Parser\<close>, \<open>Event_Log\<close>, \<open>Market_Feed\<close>, \<open>Replay_Engine\<close>, \<open>Latency_Timer\<close>, \<open>Invariant_Checker\<close>: the files of those
    names.  \<open>Latency_Stats\<close>: the exact ranks and rates behind the statistics, which the code computes in doubles.
  \<^item> \<open>Memory_Pool\<close> (\<^verbatim>\<open>utils/MemoryPool.hpp\<close>) with the contract of an allocator; \<open>Spsc_Ring\<close>, \<open>Spsc_Steps\<close>, \<open>Spsc_Weak\<close>,
    \<open>Fifo_Channel\<close> (\<^verbatim>\<open>utils/SpscRingBuffer.hpp\<close>): the ring as a sequential object, as two interleaved threads, as two
    threads under acquire and release accesses, and as a provider of the contract of a bounded channel.
  \<^item> \<open>Command_Line\<close>, \<open>Interactive\<close>, \<open>Exchange_Main\<close>: \<^verbatim>\<open>src/main.cpp\<close>.  \<open>Feed_Spec\<close>, \<open>Program_Spec\<close>: the
    text of a book as a function of the abstract book, and a reference program over values that \<^verbatim>\<open>main\<close> refines.
  \<^item> \<open>Order_Generator\<close>, \<open>Generator_Stream\<close>: \<^verbatim>\<open>OrderGenerator.{hpp,cpp}\<close> and the invariant of its state.  \<open>Benchmark_Runner\<close>,
    \<open>Pool_Run\<close>, \<open>Pipeline_Run\<close>, \<open>Benchmark_Report\<close>: the three modes and the output of \<^verbatim>\<open>BenchmarkRunner.cpp\<close>.
    \<open>Exchange_Bench\<close>, \<open>Benchmark_Program\<close>: \<^verbatim>\<open>src/exchange_bench.cpp\<close>.  \<open>Benchmark_Spec\<close>: a benchmark run as a session of the
    value-based engine.
  \<^item> \<open>Book_Properties\<close>, \<open>Engine_Properties\<close>, \<open>Program_Properties\<close>, \<open>Benchmark_Properties\<close>, \<open>Ring_Properties\<close>,
    \<open>Pool_Properties\<close>: the properties, each with a concrete witness where it has hypotheses.

  \<^bold>\<open>What is shown.\<close>  Adding an order computes the greedy price-time matching and keeps the book
  well-formed; cancelling removes exactly the named order; queries read the abstract book.  Over all runs
  of the engine the books stay uncrossed, ids are never reused, cancelled orders never trade, no order
  trades more than its quantity, rejections are exact, and each submission is a function of values
  only.  The exchange program prints, in both modes, the text of a reference program that keeps nothing but priority lists.
  A file written in the documented format, with any number of decimals, is read back, and so are saved results; a
  replay, an interactive session and a benchmark are each one run of the engine over the orders of their input,
  and their counters and audits are those of that run: a replay counts the accepted and the rejected results,
  and an audit reports exactly the faults of what it is given.  Percentiles are the samples of the exact ranks, and the throughput is the
  exact quotient, up to one part in \<open>2^50\<close>, without its fraction.  The ring delivers in order without data
  races and without waiting; the two-threaded mode and the pool mode compute what the single-threaded one
  does.

  \<^bold>\<open>Bounds.\<close>  A submission is a step only while the open quantity of the side it would rest on stays below \<open>2^64\<close>;
  beyond that the totals are those modulo \<open>2^64\<close> (C12).  Runs over created orders assume total quantity below \<open>2^64\<close> and at most
  \<open>2^31\<close> orders (the percentile index is computed in doubles); generated quantities are at most 500, so the
  second gives the first.  Prices survive the way through a double up to \<open>2^49\<close>.  Ring capacities are at
  most \<open>2^63\<close> (beyond, the rounding loop never ends) and pools have at most \<open>2^32\<close> slots (beyond, indices repeat).

  \<^bold>\<open>Assumptions.\<close>  The two threads interleave at single accesses to the ring.  An acquire load returns any value from the
  last one seen on, and orders what the other thread did before the release store of that value;
  races on the slots are excluded by proof.  A pipeline ends under every schedule that forgets neither thread,
  provided loads return the last values; its result is right in every case.  A run in the pool mode that leaves
  an order resting is undefined, because the pool is destroyed before the engine.  The clock, the file system, standard
  input, the answer of \<^verbatim>\<open>getrusage\<close>, and what the random engine and its distributions draw (within their documented ranges) are parameters.

  \<^bold>\<open>Not modelled.\<close>  Failure of memory allocation (other than exhaustion of the pool) and of output streams, the
  raw storage of pool and ring and the padding of cache lines, the spin hints, the silent
  event log of the replay engine, and signed zeros.  Nothing else of \<^verbatim>\<open>src/\<close> and \<^verbatim>\<open>include/\<close> is left out.
\<close>

end
